(* ===== verification/Kv_Prelude.thy ===== *)
theory Kv_Prelude
  imports Main "HOL-Library.Word"
begin

text \<open>
  Shared vocabulary of the development: bytes and byte strings, little-endian integers, decimal and
  hexadecimal digits, C strings, and the generic list and option facts that the component theories
  use.  Strings of the program are byte strings: a C++ \<^verbatim>\<open>char\<close> array, a
  LevelDB \<^verbatim>\<open>Slice\<close>, an LMDB \<^verbatim>\<open>MDB_val\<close> and the UTF-8
  form of a JavaScript string are all of type \<open>bytes\<close>.
\<close>

type_synonym byte = "8 word"
type_synonym bytes = "8 word list"

named_theorems codec_simps "round trips and lengths of the byte codecs"
named_theorems handler_defs "definitions of the handlers exported to JavaScript"

section \<open>Bytes\<close>

lemma unat_byte_less [simp]: "unat (b :: byte) < 256"
  using unsigned_less [of b] by simp

lemma unat_of_nat_byte [simp]: "unat (of_nat n :: byte) = n mod 256"
  by (simp add: unat_of_nat)

lemma of_nat_byte_eq_iff: "(of_nat m :: byte) = of_nat n \<longleftrightarrow> m mod 256 = n mod 256"
  by (simp add: word_unat_eq_iff unat_of_nat)

lemma of_nat_unat_byte [simp]: "of_nat (unat (b :: byte)) = b"
  by simp

section \<open>Little-endian integers\<close>

text \<open>The host is little-endian: an \<open>n\<close>-byte integer lies in memory low byte first.\<close>

fun le_encode :: "nat \<Rightarrow> nat \<Rightarrow> bytes" where
  "le_encode 0 x = []"
| "le_encode (Suc n) x = of_nat x # le_encode n (x div 256)"

fun le_decode :: "bytes \<Rightarrow> nat" where
  "le_decode [] = 0"
| "le_decode (b # bs) = unat b + 256 * le_decode bs"

lemma le_encode_numeral:
  "le_encode (numeral n) x = of_nat x # le_encode (pred_numeral n) (x div 256)"
  by (simp add: numeral_eq_Suc [of n])

lemma length_le_encode [simp, codec_simps]: "length (le_encode n x) = n"
  by (induction n arbitrary: x) auto

lemma le_decode_encode_mod: "le_decode (le_encode n x) = x mod 256 ^ n"
proof (induction n arbitrary: x)
  case (Suc n)
  have "x mod 256 ^ Suc n = x mod 256 + 256 * (x div 256 mod 256 ^ n)"
    by (simp add: mod_mult2_eq)
  with Suc show ?case by simp
qed simp

lemma le_decode_encode [simp, codec_simps]: "x < 256 ^ n \<Longrightarrow> le_decode (le_encode n x) = x"
  by (simp add: le_decode_encode_mod)

lemma le_decode_less: "le_decode bs < 256 ^ length bs"
proof (induction bs)
  case (Cons b bs)
  have "unat b + 256 * le_decode bs < 256 * (le_decode bs + 1)" by simp
  also have "\<dots> \<le> 256 * 256 ^ length bs" using Cons by (intro mult_le_mono2) simp
  finally show ?case by simp
qed simp

lemma le_encode_decode [simp, codec_simps]: "le_encode (length bs) (le_decode bs) = bs"
proof (induction bs)
  case (Cons b bs)
  have "(of_nat (unat b + 256 * le_decode bs) :: byte) = b"
    by (simp add: word_unat_eq_iff del: of_nat_add)
  moreover have "(unat b + 256 * le_decode bs) div 256 = le_decode bs"
    using unat_byte_less [of b] by simp
  ultimately show ?case using Cons by simp
qed simp

lemma le_decode_inj: "length as = length bs \<Longrightarrow> le_decode as = le_decode bs \<longleftrightarrow> as = bs"
  by (metis le_encode_decode)

section \<open>Digits\<close>

definition hex_digit :: "nat \<Rightarrow> byte" where
  "hex_digit d = of_nat (if d < 10 then 48 + d else 87 + d)"

definition hex_value :: "byte \<Rightarrow> nat option" where
  "hex_value c =
     (let x = unat c
      in if 48 \<le> x \<and> x \<le> 57 then Some (x - 48)
         else if 97 \<le> x \<and> x \<le> 102 then Some (x - 87)
         else if 65 \<le> x \<and> x \<le> 70 then Some (x - 55)
         else None)"

lemma hex_value_digit [simp]: "d < 16 \<Longrightarrow> hex_value (hex_digit d) = Some d"
  by (auto simp: hex_value_def hex_digit_def Let_def)

lemma hex_value_less: "hex_value c = Some d \<Longrightarrow> d < 16"
  by (auto simp: hex_value_def Let_def split: if_splits)

lemma hex_digit_nonzero [simp]: "d < 16 \<Longrightarrow> hex_digit d \<noteq> 0"
  by (auto simp: hex_digit_def word_unat_eq_iff)

definition dec_value :: "byte \<Rightarrow> nat option" where
  "dec_value c = (let x = unat c in if 48 \<le> x \<and> x \<le> 57 then Some (x - 48) else None)"

definition dec_digit :: "nat \<Rightarrow> byte" where
  "dec_digit d = of_nat (48 + d)"

lemma dec_value_digit [simp]: "d < 10 \<Longrightarrow> dec_value (dec_digit d) = Some d"
  by (simp add: dec_value_def dec_digit_def Let_def del: of_nat_add)

text \<open>Decimal notation of a natural number, most significant digit first.\<close>

fun dec_nat :: "nat \<Rightarrow> bytes" where
  "dec_nat n = (if n < 10 then [dec_digit n] else dec_nat (n div 10) @ [dec_digit (n mod 10)])"

declare dec_nat.simps [simp del]

text \<open>Reading decimal digits from left to right, up to the first byte that is no digit.\<close>

fun read_dec :: "nat \<Rightarrow> bytes \<Rightarrow> nat" where
  "read_dec acc [] = acc"
| "read_dec acc (c # cs) =
     (case dec_value c of None \<Rightarrow> acc | Some d \<Rightarrow> read_dec (10 * acc + d) cs)"

lemma read_dec_append_digits:
  "list_all (\<lambda>c. dec_value c \<noteq> None) ds \<Longrightarrow> read_dec acc (ds @ cs) = read_dec (read_dec acc ds) cs"
  by (induction ds arbitrary: acc) auto

lemma dec_nat_digits: "list_all (\<lambda>c. dec_value c \<noteq> None) (dec_nat n)"
proof (induction n rule: dec_nat.induct)
  case (1 n)
  then show ?case by (subst dec_nat.simps) (auto simp del: dec_nat.simps)
qed

lemma read_dec_dec_nat: "read_dec 0 (dec_nat n) = n"
proof (induction n rule: dec_nat.induct)
  case (1 n)
  show ?case
  proof (cases "n < 10")
    case True
    then show ?thesis by (subst dec_nat.simps) simp
  next
    case False
    with 1 have "read_dec 0 (dec_nat (n div 10)) = n div 10" by simp
    with False show ?thesis
      by (subst dec_nat.simps) (simp add: read_dec_append_digits [OF dec_nat_digits])
  qed
qed

lemma dec_nat_not_Nil [simp]: "dec_nat n \<noteq> []"
  by (subst dec_nat.simps) simp

section \<open>C strings\<close>

text \<open>
  A \<^verbatim>\<open>const char*\<close> is modelled by the memory from the pointer to the end of the
  object it points into.  Reading a C string stops at the first zero byte; without one the read runs
  past the object, which is undefined behaviour: \<open>None\<close>.
\<close>

definition c_string :: "bytes \<Rightarrow> bytes option" where
  "c_string mem = (if 0 \<in> set mem then Some (takeWhile (\<lambda>c. c \<noteq> 0) mem) else None)"

lemma takeWhile_append_stop: "x \<notin> set xs \<Longrightarrow> takeWhile (\<lambda>y. y \<noteq> x) (xs @ x # ys) = xs"
  by (induction xs) auto

lemma c_string_terminated [simp]: "0 \<notin> set s \<Longrightarrow> c_string (s @ 0 # rest) = Some s"
  by (simp add: c_string_def takeWhile_append_stop)

end
