(* ===== verification/Kv_Types.thy ===== *)
theory Kv_Types
  imports Kv_Prelude
begin

text \<open>
  The key and value types of the binding, \<^verbatim>\<open>src/src/kv-types.h\<close> and
  \<^verbatim>\<open>src/src/kv-types.cpp\<close>: the classes \<^verbatim>\<open>binary_type\<close>,
  \<^verbatim>\<open>string_type\<close>, \<^verbatim>\<open>hex_type\<close> and
  \<^verbatim>\<open>number_type<N>\<close>, each with a constructor from a JavaScript value, a
  constructor from stored memory, \<^verbatim>\<open>data()\<close>/\<^verbatim>\<open>size()\<close>
  and \<^verbatim>\<open>v8value()\<close>; and the numeric comparators handed to the engines.
  \<open>None\<close> as the result of an operation means that it runs into undefined behaviour
  (a read or write outside an object) or aborts the process.
\<close>

section \<open>JavaScript values\<close>

text \<open>
  The values that cross the boundary.  Numbers are the integer-valued ones
  (\<^verbatim>\<open>lib/sanitize.js\<close> passes \<^verbatim>\<open>parseInt\<close> results).
  Strings are given by their UTF-8 bytes.  Objects are identified by an address.
\<close>

datatype js =
    JUndefined
  | JNull
  | JBool bool
  | JNumber int
  | JString bytes
  | JBuffer bytes
  | JObject nat

text \<open>
  The conversions of V8 that the values above do not determine: the number a string denotes
  (\<open>None\<close> is NaN) and the string form of an object or a buffer.
\<close>

record v8 =
  string_to_number :: "bytes \<Rightarrow> int option"
  object_to_string :: "js \<Rightarrow> bytes"

definition dec_int :: "int \<Rightarrow> bytes" where
  "dec_int i = (if i < 0 then 45 # dec_nat (nat (- i)) else dec_nat (nat i))"

definition ToString :: "v8 \<Rightarrow> js \<Rightarrow> bytes" where
  "ToString V v =
     (case v of
        JString s \<Rightarrow> s
      | JNumber i \<Rightarrow> dec_int i
      | _ \<Rightarrow> object_to_string V v)"

definition ToNumber :: "v8 \<Rightarrow> js \<Rightarrow> int option" where
  "ToNumber V v =
     (case v of
        JNumber i \<Rightarrow> Some i
      | JBool b \<Rightarrow> Some (of_bool b)
      | JNull \<Rightarrow> Some 0
      | JUndefined \<Rightarrow> None
      | JString s \<Rightarrow> string_to_number V s
      | _ \<Rightarrow> string_to_number V (object_to_string V v))"

text \<open>\<^verbatim>\<open>Value::Int32Value\<close> and
  \<^verbatim>\<open>Value::Uint32Value\<close>: reduction modulo \<open>2^32\<close>, NaN becomes 0.\<close>

definition Uint32Value :: "v8 \<Rightarrow> js \<Rightarrow> int" where
  "Uint32Value V v = (case ToNumber V v of None \<Rightarrow> 0 | Some i \<Rightarrow> i mod 2 ^ 32)"

definition to_signed :: "nat \<Rightarrow> int \<Rightarrow> int" where
  "to_signed w x = (if x < 2 ^ (w - 1) then x else x - 2 ^ w)"

definition Int32Value :: "v8 \<Rightarrow> js \<Rightarrow> int" where
  "Int32Value V v = to_signed 32 (Uint32Value V v)"

section \<open>binary\_type\<close>

record binary_type =
  bin_data :: bytes
  bin_size :: nat

definition binary_of_js :: "js \<Rightarrow> binary_type option" where
  "binary_of_js v =
     (case v of JBuffer b \<Rightarrow> Some \<lparr>bin_data = b, bin_size = length b\<rparr> | _ \<Rightarrow> None)"

definition binary_of_mem :: "bytes \<Rightarrow> nat \<Rightarrow> binary_type" where
  "binary_of_mem val sz = \<lparr>bin_data = val, bin_size = sz\<rparr>"

definition binary_v8value :: "binary_type \<Rightarrow> js option" where
  "binary_v8value t =
     (if bin_size t \<le> length (bin_data t) then Some (JBuffer (take (bin_size t) (bin_data t))) else None)"

section \<open>string\_type\<close>

record string_type =
  str_data :: bytes
  str_size :: nat
  str_is_allocated :: bool

text \<open>
  \<^verbatim>\<open>WriteUtf8\<close> into a buffer of \<^verbatim>\<open>Utf8Length() + 1\<close> bytes
  writes the terminating zero and counts it, so \<open>str_size\<close> includes the terminator.
\<close>

definition string_of_js :: "v8 \<Rightarrow> js \<Rightarrow> string_type" where
  "string_of_js V val =
     (let toStr = ToString V val;
          buf_size = length toStr + 1;
          written = take buf_size (toStr @ [0])
      in \<lparr>str_data = written, str_size = length written, str_is_allocated = True\<rparr>)"

definition string_of_mem :: "bytes \<Rightarrow> nat \<Rightarrow> string_type" where
  "string_of_mem val sz = \<lparr>str_data = val, str_size = sz, str_is_allocated = False\<rparr>"

definition string_v8value :: "string_type \<Rightarrow> js option" where
  "string_v8value t = map_option JString (c_string (str_data t))"

section \<open>hex\_type\<close>

record hex_type =
  hex_buf :: bytes
  hex_size :: nat
  hex_mem :: "bytes option"
  hex_is_allocated :: bool

definition c_isspace :: "byte \<Rightarrow> bool" where
  "c_isspace c \<longleftrightarrow> c \<in> {32, 9, 10, 11, 12, 13}"

fun read_hex :: "int \<Rightarrow> bytes \<Rightarrow> int" where
  "read_hex acc [] = acc"
| "read_hex acc (c # cs) =
     (case hex_value c of None \<Rightarrow> acc | Some d \<Rightarrow> read_hex (16 * acc + int d) cs)"

definition skip_0x :: "bytes \<Rightarrow> bytes" where
  "skip_0x s =
     (case s of
        z # x # d # cs \<Rightarrow>
          (if z = 48 \<and> (x = 120 \<or> x = 88) \<and> hex_value d \<noteq> None then d # cs else s)
      | _ \<Rightarrow> s)"

text \<open>
  \<^verbatim>\<open>strtol(s, NULL, 16)\<close>: white space, an optional sign, an optional
  \<^verbatim>\<open>0x\<close>, then hexadecimal digits up to the first other byte.  It is called
  on two-character strings only, so saturation does not arise.
\<close>

definition strtol16 :: "bytes \<Rightarrow> int" where
  "strtol16 s =
     (let t = dropWhile c_isspace s
      in case t of
           [] \<Rightarrow> 0
         | c # cs \<Rightarrow>
             if c = 45 then - read_hex 0 (skip_0x cs)
             else if c = 43 then read_hex 0 (skip_0x cs)
             else read_hex 0 (skip_0x t))"

text \<open>
  One round of the constructor's loop: the byte at \<open>2 * cnt\<close> and the next one, the latter
  replaced by \<^verbatim>\<open>'0'\<close> when it is zero.  \<open>utf8\<close> is the
  zero-terminated text; \<open>tmp\<close> is a C string, so it ends at an embedded zero.
\<close>

definition hex_pair :: "bytes \<Rightarrow> nat \<Rightarrow> byte" where
  "hex_pair utf8 cnt =
     (let c0 = utf8 ! (2 * cnt);
          c1 = utf8 ! (2 * cnt + 1);
          tmp = [c0, if c1 \<noteq> 0 then c1 else 48]
      in word_of_int (strtol16 (takeWhile (\<lambda>c. c \<noteq> 0) tmp)))"

definition hex_of_js :: "v8 \<Rightarrow> js \<Rightarrow> hex_type" where
  "hex_of_js V val =
     (let text = ToString V val;
          utf8 = text @ [0];
          sz = (length text + 1) div 2;
          dest = map (hex_pair utf8) [0..<sz]
      in if sz > 512
         then \<lparr>hex_buf = [], hex_size = sz, hex_mem = Some dest, hex_is_allocated = True\<rparr>
         else \<lparr>hex_buf = dest, hex_size = sz, hex_mem = None, hex_is_allocated = False\<rparr>)"

definition hex_of_mem :: "bytes \<Rightarrow> nat \<Rightarrow> hex_type" where
  "hex_of_mem val sz = \<lparr>hex_buf = [], hex_size = sz, hex_mem = Some val, hex_is_allocated = False\<rparr>"

definition hex_data :: "hex_type \<Rightarrow> bytes" where
  "hex_data t = (case hex_mem t of Some m \<Rightarrow> m | None \<Rightarrow> hex_buf t)"

text \<open>
  \<^verbatim>\<open>sprintf(cur, "%02hhx", b)\<close> at offset \<open>pos\<close> of a buffer writes two
  digits and a zero: three bytes, all of which must lie inside the buffer.
\<close>

definition sprintf_02hhx :: "bytes \<Rightarrow> nat \<Rightarrow> byte \<Rightarrow> bytes option" where
  "sprintf_02hhx dest pos b =
     (if pos + 3 \<le> length dest
      then Some (take pos dest @ [hex_digit (unat b div 16), hex_digit (unat b mod 16), 0] @ drop (pos + 3) dest)
      else None)"

fun hex_print :: "bytes \<Rightarrow> nat \<Rightarrow> bytes \<Rightarrow> bytes option" where
  "hex_print dest pos [] = Some dest"
| "hex_print dest pos (b # bs) =
     (case sprintf_02hhx dest pos b of
        None \<Rightarrow> None
      | Some dest' \<Rightarrow> hex_print dest' (pos + 2) bs)"

text \<open>
  \<^verbatim>\<open>v8value()\<close>: the stack buffer has 1025 bytes and is used up to 512 data
  bytes, longer values get a heap buffer of \<^verbatim>\<open>_size * 2\<close> bytes.
  \<open>garbage n\<close> is the unspecified initial content of an \<open>n\<close>-byte buffer.
\<close>

definition hex_v8value :: "(nat \<Rightarrow> bytes) \<Rightarrow> hex_type \<Rightarrow> js option" where
  "hex_v8value garbage t =
     (let n = (if hex_size t > 1025 div 2 then hex_size t * 2 else 1025)
      in if hex_size t \<le> length (hex_data t)
         then case hex_print (garbage n) 0 (take (hex_size t) (hex_data t)) of
                None \<Rightarrow> None
              | Some dest \<Rightarrow> map_option JString (c_string dest)
         else None)"

section \<open>number\_type\<close>

datatype num_kind = Int32 | UInt32 | Int64

fun num_bytes :: "num_kind \<Rightarrow> nat" where
  "num_bytes Int32 = 4"
| "num_bytes UInt32 = 4"
| "num_bytes Int64 = 8"

fun num_signed :: "num_kind \<Rightarrow> bool" where
  "num_signed Int32 = True"
| "num_signed UInt32 = False"
| "num_signed Int64 = True"

text \<open>The value held by a \<^verbatim>\<open>number_type<N>\<close>, an integer in the range of
  \<^verbatim>\<open>N\<close>.\<close>

definition num_in_range :: "num_kind \<Rightarrow> int \<Rightarrow> bool" where
  "num_in_range k i \<longleftrightarrow>
     (if num_signed k
      then - (2 ^ (8 * num_bytes k - 1)) \<le> i \<and> i < 2 ^ (8 * num_bytes k - 1)
      else 0 \<le> i \<and> i < 2 ^ (8 * num_bytes k))"

text \<open>
  \<^verbatim>\<open>atoll\<close>: white space, an optional sign, decimal digits; a value outside the
  range of \<^verbatim>\<open>long long\<close> is clamped to its ends, as
  \<^verbatim>\<open>strtoll\<close> does.
\<close>

definition clamp64 :: "int \<Rightarrow> int" where
  "clamp64 i = max (- (2 ^ 63)) (min (2 ^ 63 - 1) i)"

definition atoll :: "bytes \<Rightarrow> int" where
  "atoll s =
     (let t = dropWhile c_isspace s
      in clamp64
           (case t of
              [] \<Rightarrow> 0
            | c # cs \<Rightarrow>
                if c = 45 then - int (read_dec 0 cs)
                else if c = 43 then int (read_dec 0 cs)
                else int (read_dec 0 t)))"

fun number_of_js :: "num_kind \<Rightarrow> v8 \<Rightarrow> js \<Rightarrow> int" where
  "number_of_js Int32 V val = Int32Value V val"
| "number_of_js UInt32 V val = Uint32Value V val"
| "number_of_js Int64 V val = atoll (takeWhile (\<lambda>c. c \<noteq> 0) (ToString V val))"

definition number_of_mem :: "num_kind \<Rightarrow> bytes \<Rightarrow> int option" where
  "number_of_mem k val =
     (if num_bytes k \<le> length val
      then let u = int (le_decode (take (num_bytes k) val))
           in Some (if num_signed k then to_signed (8 * num_bytes k) u else u)
      else None)"

definition number_data :: "num_kind \<Rightarrow> int \<Rightarrow> bytes" where
  "number_data k i = le_encode (num_bytes k) (nat (i mod 2 ^ (8 * num_bytes k)))"

fun number_v8value :: "num_kind \<Rightarrow> int \<Rightarrow> js" where
  "number_v8value Int32 i = JNumber i"
| "number_v8value UInt32 i = JNumber i"
| "number_v8value Int64 i = JString (dec_int i)"

definition number_compare :: "int \<Rightarrow> int \<Rightarrow> int" where
  "number_compare a b = (if a > b then 1 else if a < b then - 1 else 0)"

section \<open>The type parameter of the databases\<close>

text \<open>
  The classes that \<^verbatim>\<open>KV_TYPE_EACH\<close> instantiates the databases and cursors
  with, as a datatype; \<^verbatim>\<open>number_type<double>\<close> is not among them.
\<close>

datatype kv_type = Binary | String | Hex | Number num_kind

definition kv_types :: "kv_type list" where
  "kv_types = [Binary, String, Hex, Number Int32, Number UInt32, Number Int64]"

fun type_name :: "kv_type \<Rightarrow> string" where
  "type_name Binary = ''binary''"
| "type_name String = ''string''"
| "type_name Hex = ''hex''"
| "type_name (Number Int32) = ''int32''"
| "type_name (Number UInt32) = ''uint32''"
| "type_name (Number Int64) = ''int64''"

text \<open>\<^verbatim>\<open>K k(info[0])\<close> followed by \<^verbatim>\<open>k.data()\<close> and
  \<^verbatim>\<open>k.size()\<close>: the bytes handed to the engine.\<close>

fun kv_encode :: "kv_type \<Rightarrow> v8 \<Rightarrow> js \<Rightarrow> bytes option" where
  "kv_encode Binary V v = map_option (\<lambda>t. take (bin_size t) (bin_data t)) (binary_of_js v)"
| "kv_encode String V v = (let t = string_of_js V v in Some (take (str_size t) (str_data t)))"
| "kv_encode Hex V v = (let t = hex_of_js V v in Some (take (hex_size t) (hex_data t)))"
| "kv_encode (Number k) V v = Some (number_data k (number_of_js k V v))"

text \<open>\<^verbatim>\<open>V(data, size).v8value()\<close>: what JavaScript gets for a stored
  value.  \<open>mem\<close> is the memory from the value's first byte on, which goes on beyond
  the value's \<open>sz\<close> bytes.\<close>

fun kv_decode :: "kv_type \<Rightarrow> (nat \<Rightarrow> bytes) \<Rightarrow> bytes \<Rightarrow> nat \<Rightarrow> js option" where
  "kv_decode Binary g mem sz = binary_v8value (binary_of_mem mem sz)"
| "kv_decode String g mem sz = string_v8value (string_of_mem mem sz)"
| "kv_decode Hex g mem sz = hex_v8value g (hex_of_mem mem sz)"
| "kv_decode (Number k) g mem sz = map_option (number_v8value k) (number_of_mem k mem)"

section \<open>Comparators\<close>

text \<open>
  \<^verbatim>\<open>lvl_rocks_comparator<K>::get_cmp()\<close> and
  \<^verbatim>\<open>mdb_cmp_setter<K>\<close>: the numeric types install their own comparator, for
  the others the engine keeps its bytewise one (\<open>None\<close>).
\<close>

definition lvl_rocks_Compare :: "num_kind \<Rightarrow> bytes \<Rightarrow> bytes \<Rightarrow> int option" where
  "lvl_rocks_Compare k a b =
     (case (number_of_mem k a, number_of_mem k b) of
        (Some ka, Some kb) \<Rightarrow> Some (number_compare ka kb)
      | _ \<Rightarrow> None)"

fun get_cmp :: "kv_type \<Rightarrow> (bytes \<Rightarrow> bytes \<Rightarrow> int option) option" where
  "get_cmp (Number k) = Some (lvl_rocks_Compare k)"
| "get_cmp _ = None"

section \<open>Numbers: codec and comparator\<close>

lemma num_bytes_pos [simp]: "0 < num_bytes k"
  by (cases k) auto

lemma to_signed_mod:
  assumes "0 < w" and "- (2 ^ (w - 1)) \<le> i" and "i < 2 ^ (w - 1)"
  shows "to_signed w (i mod 2 ^ w) = i"
proof -
  have p: "(2 :: int) ^ w = 2 * 2 ^ (w - 1)"
    using assms(1) by (cases w) auto
  show ?thesis
  proof (cases "0 \<le> i")
    case True
    with assms p have "i mod 2 ^ w = i" by (intro mod_pos_pos_trivial) auto
    with assms show ?thesis by (simp add: to_signed_def)
  next
    case False
    have "(i + 2 ^ w) mod 2 ^ w = i + 2 ^ w"
      using False assms p by (intro mod_pos_pos_trivial) auto
    then have "i mod 2 ^ w = i + 2 ^ w" by simp
    with assms p show ?thesis by (simp add: to_signed_def)
  qed
qed

lemma to_signed_range:
  assumes "0 < w" and "0 \<le> x" and "x < 2 ^ w"
  shows "- (2 ^ (w - 1)) \<le> to_signed w x \<and> to_signed w x < 2 ^ (w - 1) \<and> to_signed w x mod 2 ^ w = x"
proof -
  have p: "(2 :: int) ^ w = 2 * 2 ^ (w - 1)"
    using assms(1) by (cases w) auto
  have "(x - 2 ^ w) mod 2 ^ w = x mod 2 ^ w" by simp
  with assms p show ?thesis by (auto simp: to_signed_def)
qed

lemma pow256_num: "256 ^ num_bytes k = (2 :: nat) ^ (8 * num_bytes k)"
  by (simp add: power_mult)

lemma length_number_data [simp, codec_simps]: "length (number_data k i) = num_bytes k"
  by (simp add: number_data_def)

lemma le_decode_number_data: "int (le_decode (number_data k i)) = i mod 2 ^ (8 * num_bytes k)"
proof -
  have "nat (i mod 2 ^ (8 * num_bytes k)) < 256 ^ num_bytes k"
    by (simp add: pow256_num nat_less_iff)
  then show ?thesis by (simp add: number_data_def)
qed

lemma number_of_mem_data [simp, codec_simps]:
  assumes "num_in_range k i"
  shows "number_of_mem k (number_data k i @ rest) = Some i"
  using assms
  by (simp add: number_of_mem_def Let_def le_decode_number_data num_in_range_def to_signed_mod
      split: if_splits)

lemma number_of_mem_Some:
  assumes "number_of_mem k mem = Some i"
  shows "num_in_range k i" and "number_data k i = take (num_bytes k) mem"
proof -
  define u where "u = le_decode (take (num_bytes k) mem)"
  from assms have len: "num_bytes k \<le> length mem"
    and i: "i = (if num_signed k then to_signed (8 * num_bytes k) (int u) else int u)"
    by (auto simp: number_of_mem_def u_def Let_def split: if_splits)
  have "u < 256 ^ num_bytes k"
    using le_decode_less [of "take (num_bytes k) mem"] len by (simp add: u_def min.absorb2)
  then have u: "0 \<le> int u" "int u < 2 ^ (8 * num_bytes k)"
    by (auto simp: pow256_num)
  note r = to_signed_range [of "8 * num_bytes k", OF _ u]
  from r u show "num_in_range k i" by (simp add: i num_in_range_def)
  have "i mod 2 ^ (8 * num_bytes k) = int u" using r u by (simp add: i)
  then have "number_data k i = le_encode (length (take (num_bytes k) mem)) u"
    using len by (simp add: number_data_def min_def)
  then show "number_data k i = take (num_bytes k) mem" by (simp only: u_def le_encode_decode)
qed

lemma number_of_mem_total: "num_bytes k \<le> length mem \<Longrightarrow> \<exists>i. number_of_mem k mem = Some i"
  by (simp add: number_of_mem_def Let_def)

lemma number_of_mem_inj:
  assumes "number_of_mem k a = Some i" and "number_of_mem k b = Some i"
  shows "take (num_bytes k) a = take (num_bytes k) b"
  using number_of_mem_Some (2) [OF assms(1)] number_of_mem_Some (2) [OF assms(2)] by simp

section \<open>Hexadecimal text\<close>

definition hex_text :: "bytes \<Rightarrow> bytes" where
  "hex_text bs = concat (map (\<lambda>b. [hex_digit (unat b div 16), hex_digit (unat b mod 16)]) bs)"

lemma hex_text_simps [simp]:
  "hex_text [] = []"
  "hex_text (b # bs) = hex_digit (unat b div 16) # hex_digit (unat b mod 16) # hex_text bs"
  by (simp_all add: hex_text_def)

lemma length_hex_text [simp, codec_simps]: "length (hex_text bs) = 2 * length bs"
  by (induction bs) auto

lemma byte_div16 [simp]: "unat (b :: byte) div 16 < 16"
  using unat_byte_less [of b] by linarith

lemma hex_text_no_zero [simp]: "0 \<notin> set (hex_text bs)"
proof (induction bs)
  case (Cons b bs)
  have "hex_digit (unat b div 16) \<noteq> 0" "hex_digit (unat b mod 16) \<noteq> 0" by simp_all
  with Cons show ?case by (metis hex_text_simps(2) set_ConsD)
qed simp

lemma hex_print_Some:
  assumes "bs \<noteq> []" and "pos + 2 * length bs + 1 \<le> length dest"
  shows "hex_print dest pos bs =
    Some (take pos dest @ hex_text bs @ 0 # drop (pos + 2 * length bs + 1) dest)"
  using assms
proof (induction bs arbitrary: dest pos)
  case (Cons b bs)
  define d1 where "d1 = take pos dest @ [hex_digit (unat b div 16), hex_digit (unat b mod 16), 0] @ drop (pos + 3) dest"
  have s: "sprintf_02hhx dest pos b = Some d1"
    using Cons.prems by (simp add: sprintf_02hhx_def d1_def)
  have len: "length d1 = length dest" using Cons.prems by (simp add: d1_def)
  show ?case
  proof (cases "bs = []")
    case True
    with s show ?thesis by (simp add: d1_def numeral_3_eq_3)
  next
    case False
    have "hex_print d1 (pos + 2) bs =
        Some (take (pos + 2) d1 @ hex_text bs @ 0 # drop (pos + 2 + 2 * length bs + 1) d1)"
      using Cons.prems len by (intro Cons.IH False) simp
    moreover have "take (pos + 2) d1 = take pos dest @ [hex_digit (unat b div 16), hex_digit (unat b mod 16)]"
      using Cons.prems by (simp add: d1_def)
    moreover have "drop (pos + 2 + 2 * length bs + 1) d1 = drop (pos + 2 * length (b # bs) + 1) dest"
      using Cons.prems False by (simp add: d1_def drop_Cons' numeral_3_eq_3 algebra_simps)
    ultimately show ?thesis using s by simp
  qed
qed simp

lemma hex_print_None_iff:
  "hex_print dest pos bs = None \<longleftrightarrow> bs \<noteq> [] \<and> length dest < pos + 2 * length bs + 1"
proof (induction bs arbitrary: dest pos)
  case (Cons b bs)
  show ?case
  proof (cases "pos + 3 \<le> length dest")
    case True
    then obtain d1 where "sprintf_02hhx dest pos b = Some d1" and "length d1 = length dest"
      by (auto simp: sprintf_02hhx_def)
    with True Cons.IH [of d1 "pos + 2"] show ?thesis by (cases bs) auto
  next
    case False
    then show ?thesis by (auto simp: sprintf_02hhx_def)
  qed
qed simp

text \<open>The constructor's loop as a recursion over the text.\<close>

definition hex_pair2 :: "byte \<Rightarrow> byte \<Rightarrow> byte" where
  "hex_pair2 c0 c1 = word_of_int (strtol16 [c0, c1])"

fun hex_parse :: "bytes \<Rightarrow> bytes" where
  "hex_parse [] = []"
| "hex_parse [c] = [hex_pair2 c 48]"
| "hex_parse (c0 # c1 # cs) = hex_pair2 c0 c1 # hex_parse cs"

lemma hex_pair_shift: "hex_pair (c0 # c1 # u) (Suc i) = hex_pair u i"
  by (simp add: hex_pair_def)

lemma hex_loop_parse:
  "0 \<notin> set s \<Longrightarrow> map (hex_pair (s @ [0])) [0..<(length s + 1) div 2] = hex_parse s"
proof (induction s rule: hex_parse.induct)
  case (2 c)
  then show ?case by (simp add: hex_pair_def hex_pair2_def)
next
  case (3 c0 c1 cs)
  have "[0..<(length (c0 # c1 # cs) + 1) div 2] = 0 # map Suc [0..<(length cs + 1) div 2]"
    by (simp add: upt_conv_Cons map_Suc_upt del: upt_Suc)
  with 3 show ?case by (simp add: hex_pair_shift comp_def hex_pair_def hex_pair2_def)
qed simp

lemma hex_value_plain:
  "hex_value c = Some d \<Longrightarrow> \<not> c_isspace c \<and> c \<noteq> 45 \<and> c \<noteq> 43 \<and> c \<noteq> 0"
  by (auto simp: hex_value_def c_isspace_def)

lemma strtol16_two:
  "hex_value c0 = Some d0 \<Longrightarrow> hex_value c1 = Some d1 \<Longrightarrow> strtol16 [c0, c1] = int (16 * d0 + d1)"
  using hex_value_plain [of c0 d0] by (simp add: strtol16_def skip_0x_def)

lemma hex_pair2_digits:
  assumes "hex_value c0 = Some d0" and "hex_value c1 = Some d1"
  shows "hex_pair2 c0 c1 = of_nat (16 * d0 + d1)"
    and "unat (hex_pair2 c0 c1) div 16 = d0" and "unat (hex_pair2 c0 c1) mod 16 = d1"
proof -
  show eq: "hex_pair2 c0 c1 = of_nat (16 * d0 + d1)"
    unfolding hex_pair2_def strtol16_two [OF assms] by (rule of_int_of_nat_eq)
  have "d0 < 16" "d1 < 16" using assms by (auto dest: hex_value_less)
  then show "unat (hex_pair2 c0 c1) div 16 = d0" "unat (hex_pair2 c0 c1) mod 16 = d1"
    unfolding eq unat_of_nat_byte by simp_all
qed

definition hex_lower :: "byte \<Rightarrow> byte" where
  "hex_lower c = hex_digit (the (hex_value c))"

definition is_hex :: "bytes \<Rightarrow> bool" where
  "is_hex s \<longleftrightarrow> list_all (\<lambda>c. hex_value c \<noteq> None) s"

lemma hex_text_parse:
  "is_hex s \<Longrightarrow> hex_text (hex_parse s) = map hex_lower (if even (length s) then s else s @ [48])"
proof (induction s rule: hex_parse.induct)
  case (2 c)
  have "hex_value 48 = Some 0" by (simp add: hex_value_def)
  with 2 show ?case by (auto simp: is_hex_def hex_pair2_digits(2,3) hex_lower_def)
next
  case (3 c0 c1 cs)
  then show ?case by (auto simp: is_hex_def hex_pair2_digits(2,3) hex_lower_def)
qed simp

lemma length_hex_parse: "length (hex_parse s) = (length s + 1) div 2"
  by (induction s rule: hex_parse.induct) auto

lemma is_hex_no_zero: "is_hex s \<Longrightarrow> 0 \<notin> set s"
  by (auto simp: is_hex_def list_all_iff hex_value_def)

lemma kv_encode_hex:
  assumes "ToString V v = s" and "0 \<notin> set s"
  shows "kv_encode Hex V v = Some (hex_parse s)"
  using assms hex_loop_parse [OF assms(2)] length_hex_parse [of s]
  by (auto simp: hex_of_js_def hex_data_def Let_def)

lemma kv_decode_hex:
  assumes "0 < sz" and "sz \<le> 512" and "length (g 1025) = 1025" and "sz \<le> length mem"
  shows "kv_decode Hex g mem sz = Some (JString (hex_text (take sz mem)))"
proof -
  have "take sz mem \<noteq> []" using assms by auto
  then have "hex_print (g 1025) 0 (take sz mem) =
      Some (hex_text (take sz mem) @ 0 # drop (2 * sz + 1) (g 1025))"
    using assms hex_print_Some [of "take sz mem" 0 "g 1025"] by (simp add: min_def)
  then show ?thesis
    using assms by (simp add: hex_v8value_def hex_of_mem_def hex_data_def Let_def)
qed

section \<open>Decimal text of 64-bit integers\<close>

lemma dec_value_plain:
  "dec_value c = Some d \<Longrightarrow> \<not> c_isspace c \<and> c \<noteq> 45 \<and> c \<noteq> 43 \<and> c \<noteq> 0"
  by (auto simp: dec_value_def c_isspace_def)

lemma dec_nat_Cons:
  obtains c cs d where "dec_nat n = c # cs" and "dec_value c = Some d"
  using dec_nat_digits [of n] dec_nat_not_Nil [of n] by (cases "dec_nat n") auto

lemma dec_nat_no_zero: "0 \<notin> set (dec_nat n)"
  using dec_nat_digits [of n] dec_value_plain by (auto simp: list_all_iff)

lemma dec_int_no_zero: "0 \<notin> set (dec_int i)"
  using dec_nat_no_zero by (auto simp: dec_int_def)

lemma atoll_dec_int:
  assumes "num_in_range Int64 i"
  shows "atoll (dec_int i) = i"
proof -
  have c: "clamp64 i = i" using assms by (auto simp: clamp64_def num_in_range_def)
  show ?thesis
  proof (cases "i < 0")
    case True
    then show ?thesis
      using c by (simp add: atoll_def dec_int_def c_isspace_def read_dec_dec_nat)
  next
    case False
    obtain x xs d where x: "dec_nat (nat i) = x # xs" "dec_value x = Some d"
      by (rule dec_nat_Cons)
    moreover have "read_dec 0 (x # xs) = nat i"
      using read_dec_dec_nat [of "nat i"] x(1) by simp
    ultimately show ?thesis
      using False c dec_value_plain [OF x(2)] by (simp add: atoll_def dec_int_def del: read_dec.simps)
  qed
qed

end
