(* ===== verification/Lmdb_World.thy ===== *)
theory Lmdb_World
  imports Kv_Types
begin

text \<open>
  The state of the LMDB half of the binding (\<^verbatim>\<open>src/src/lmdb/*.h\<close>) and the
  interface to the LMDB library.  A native object is a record with the fields of its C++ class, kept
  in a map from the address of the JavaScript object that wraps it.  Pointers of the library are
  natural numbers, \<open>0\<close> is \<^verbatim>\<open>NULL\<close>.  The library itself is a
  parameter: a record \<open>'e mdb\<close> of the functions the binding calls, over an abstract library
  state \<open>'e\<close>; \<open>Lmdb_Engine\<close> states what is relied on.
\<close>

type_synonym ptr = nat

section \<open>Outcomes of a call from JavaScript\<close>

text \<open>
  A call returns a value, throws, runs into undefined behaviour of C++ (a null or dangling pointer is
  dereferenced, an unwrapped object has the wrong class), or never returns because it waits for a lock
  that its own thread holds.
\<close>

datatype error =
    EnvClosed
  | TxnClosed
  | TxnStillOpened
  | OnlyReadonlyReset
  | InvalidParameters
  | MdbError int
  | StatusError bytes

datatype outcome = Return js | Throw error | Undef | Hang

section \<open>Return codes\<close>

definition MDB_NOTFOUND :: int where "MDB_NOTFOUND = - 30798"
definition MDB_MAP_FULL :: int where "MDB_MAP_FULL = - 30792"
definition MDB_INCOMPATIBLE :: int where "MDB_INCOMPATIBLE = - 30784"
definition MDB_BAD_RSLOT :: int where "MDB_BAD_RSLOT = - 30783"
definition EINVAL :: int where "EINVAL = 22"
definition EACCES :: int where "EACCES = 13"

lemmas mdb_codes = MDB_NOTFOUND_def MDB_MAP_FULL_def MDB_INCOMPATIBLE_def MDB_BAD_RSLOT_def EINVAL_def EACCES_def

section \<open>The library interface\<close>

text \<open>A \<^verbatim>\<open>MDB_val\<close>: the memory from \<^verbatim>\<open>mv_data\<close> on
  and \<^verbatim>\<open>mv_size\<close>.\<close>

record mdb_val =
  mv_data :: bytes
  mv_size :: nat

datatype cursor_op =
    MDB_FIRST | MDB_FIRST_DUP | MDB_GET_BOTH | MDB_GET_BOTH_RANGE | MDB_GET_CURRENT
  | MDB_LAST | MDB_LAST_DUP | MDB_NEXT | MDB_NEXT_DUP | MDB_PREV | MDB_PREV_DUP
  | MDB_SET | MDB_SET_RANGE

text \<open>
  \<^verbatim>\<open>mdb_txn_begin\<close> returns \<open>None\<close> when it does not return: a write
  transaction waits for the writer lock of the environment, which the calling thread may hold itself.
  An output parameter is meaningful only with return code 0; otherwise it is not written.
\<close>

record 'e mdb =
  mdb_env_create :: "'e \<Rightarrow> int \<times> ptr \<times> 'e"
  mdb_env_set_mapsize :: "ptr \<Rightarrow> int \<Rightarrow> 'e \<Rightarrow> 'e"
  mdb_env_set_maxdbs :: "ptr \<Rightarrow> int \<Rightarrow> 'e \<Rightarrow> 'e"
  mdb_env_open :: "ptr \<Rightarrow> bytes \<Rightarrow> 'e \<Rightarrow> int \<times> 'e"
  mdb_reader_check :: "ptr \<Rightarrow> 'e \<Rightarrow> 'e"
  mdb_env_close :: "ptr \<Rightarrow> 'e \<Rightarrow> 'e"
  mdb_env_sync :: "ptr \<Rightarrow> bool \<Rightarrow> 'e \<Rightarrow> int \<times> 'e"
  mdb_txn_begin :: "ptr \<Rightarrow> bool \<Rightarrow> 'e \<Rightarrow> (int \<times> ptr \<times> 'e) option"
  mdb_txn_commit :: "ptr \<Rightarrow> 'e \<Rightarrow> int \<times> 'e"
  mdb_txn_abort :: "ptr \<Rightarrow> 'e \<Rightarrow> 'e"
  mdb_txn_reset :: "ptr \<Rightarrow> 'e \<Rightarrow> 'e"
  mdb_txn_renew :: "ptr \<Rightarrow> 'e \<Rightarrow> int \<times> 'e"
  mdb_dbi_open :: "ptr \<Rightarrow> bytes \<Rightarrow> bool \<Rightarrow> 'e \<Rightarrow> int \<times> nat \<times> 'e"
  mdb_set_compare :: "ptr \<Rightarrow> nat \<Rightarrow> (bytes \<Rightarrow> bytes \<Rightarrow> int option) \<Rightarrow> 'e \<Rightarrow> 'e"
  mdb_set_dupsort :: "ptr \<Rightarrow> nat \<Rightarrow> (bytes \<Rightarrow> bytes \<Rightarrow> int option) \<Rightarrow> 'e \<Rightarrow> 'e"
  mdb_dbi_close :: "ptr \<Rightarrow> nat \<Rightarrow> 'e \<Rightarrow> 'e"
  mdb_get :: "ptr \<Rightarrow> nat \<Rightarrow> bytes \<Rightarrow> 'e \<Rightarrow> int \<times> mdb_val"
  mdb_put :: "ptr \<Rightarrow> nat \<Rightarrow> bytes \<Rightarrow> bytes \<Rightarrow> 'e \<Rightarrow> int \<times> 'e"
  mdb_del :: "ptr \<Rightarrow> nat \<Rightarrow> bytes \<Rightarrow> bytes \<Rightarrow> 'e \<Rightarrow> int \<times> 'e"
  mdb_cursor_open :: "ptr \<Rightarrow> nat \<Rightarrow> 'e \<Rightarrow> int \<times> ptr \<times> 'e"
  mdb_cursor_close :: "ptr \<Rightarrow> 'e \<Rightarrow> 'e"
  mdb_cursor_renew :: "ptr \<Rightarrow> ptr \<Rightarrow> 'e \<Rightarrow> int \<times> 'e"
  mdb_cursor_get :: "ptr \<Rightarrow> bytes \<Rightarrow> bytes \<Rightarrow> cursor_op \<Rightarrow> 'e \<Rightarrow> int \<times> mdb_val \<times> mdb_val \<times> 'e"
  mdb_cursor_del :: "ptr \<Rightarrow> 'e \<Rightarrow> int \<times> 'e"

section \<open>Native objects\<close>

text \<open>\<^verbatim>\<open>class env\<close> (\<^verbatim>\<open>env-lmdb.h\<close>).\<close>

record env_obj =
  eo_env :: ptr
  eo_read_lock :: ptr

text \<open>\<^verbatim>\<open>class txn\<close> (\<^verbatim>\<open>txn-lmdb.h\<close>).\<close>

record txn_obj =
  to_readonly :: bool
  to_txn :: ptr
  to_env :: ptr

text \<open>\<^verbatim>\<open>class db<K, V>\<close> (\<^verbatim>\<open>db-lmdb.h\<close>): the two
  template parameters, the handle, the address of the environment object and the cached cursor.\<close>

record db_obj =
  do_K :: kv_type
  do_V :: kv_type
  do_dbi :: nat
  do_env :: nat
  do_cur :: ptr

text \<open>\<^verbatim>\<open>class cursor<K, V>\<close> (\<^verbatim>\<open>cursor-lmdb.h\<close>).\<close>

record cursor_obj =
  co_K :: kv_type
  co_V :: kv_type
  co_cursor :: ptr

text \<open>\<^verbatim>\<open>struct uv_env_sync\<close>: a request handed to the thread pool.  The
  callback is named by a number.\<close>

record uv_env_sync =
  sy_callback :: nat
  sy_ew :: nat
  sy_dbenv :: ptr
  sy_rc :: int

record 'e world =
  w_mdb :: 'e
  w_envs :: "nat \<rightharpoonup> env_obj"
  w_txns :: "nat \<rightharpoonup> txn_obj"
  w_dbs :: "nat \<rightharpoonup> db_obj"
  w_cursors :: "nat \<rightharpoonup> cursor_obj"
  w_queue :: "uv_env_sync list"

text \<open>\<^verbatim>\<open>Value::IsNumber\<close> and \<^verbatim>\<open>Value::IsObject\<close>.\<close>

fun IsNumber :: "js \<Rightarrow> bool" where
  "IsNumber (JNumber i) = True"
| "IsNumber _ = False"

fun IsObject :: "js \<Rightarrow> bool" where
  "IsObject (JObject a) = True"
| "IsObject (JBuffer b) = True"
| "IsObject _ = False"

text \<open>\<^verbatim>\<open>ObjectWrap::Unwrap\<close> of an argument: the address, if it is a plain
  object.\<close>

fun unwrap :: "(nat \<rightharpoonup> 'o) \<Rightarrow> js \<Rightarrow> (nat \<times> 'o) option" where
  "unwrap m (JObject a) = map_option (Pair a) (m a)"
| "unwrap m _ = None"

end
