(* ===== verification/Lmdb_Env.thy ===== *)
theory Lmdb_Env
  imports Lmdb_World
begin

text \<open>
  \<^verbatim>\<open>src/src/lmdb/env-lmdb.cpp\<close>: the environment object, its constructor,
  \<^verbatim>\<open>setMapSize\<close>, \<^verbatim>\<open>setMaxDbs\<close>,
  \<^verbatim>\<open>open\<close>, \<^verbatim>\<open>close\<close>, the asynchronous
  \<^verbatim>\<open>sync\<close>, the destructor and the shared read transaction
  (\<^verbatim>\<open>require_readlock\<close>/\<^verbatim>\<open>release_readlock\<close>).
\<close>

section \<open>Handlers\<close>

definition env_ctor :: "'e mdb \<Rightarrow> nat \<Rightarrow> 'e world \<Rightarrow> outcome \<times> 'e world" where
  "env_ctor M this w =
     (case mdb_env_create M (w_mdb w) of
        (rc, p, e) \<Rightarrow>
          if rc \<noteq> 0
          then (Throw (MdbError rc), w\<lparr>w_mdb := mdb_env_close M 0 e\<rparr>)
          else (Return (JObject this),
                w\<lparr>w_mdb := e, w_envs := (w_envs w)(this \<mapsto> \<lparr>eo_env = p, eo_read_lock = 0\<rparr>)\<rparr>))"

text \<open>The common frame of the methods: unwrap \<^verbatim>\<open>info.This()\<close>, refuse a
  closed environment.\<close>

definition with_env :: "nat \<Rightarrow> (env_obj \<Rightarrow> 'e world \<Rightarrow> outcome \<times> 'e world) \<Rightarrow> 'e world \<Rightarrow> outcome \<times> 'e world" where
  "with_env this f w =
     (case w_envs w this of
        None \<Rightarrow> (Undef, w)
      | Some ew \<Rightarrow> if eo_env ew = 0 then (Throw EnvClosed, w) else f ew w)"

text \<open>\<^verbatim>\<open>size_t(double)\<close> is undefined outside the range of
  \<^verbatim>\<open>size_t\<close>.\<close>

definition env_setMapSize :: "'e mdb \<Rightarrow> nat \<Rightarrow> js \<Rightarrow> 'e world \<Rightarrow> outcome \<times> 'e world" where
  "env_setMapSize M this arg =
     with_env this (\<lambda>ew w.
       case arg of
         JNumber i \<Rightarrow>
           if 0 \<le> i \<and> i < 2 ^ 64
           then (Return JUndefined, w\<lparr>w_mdb := mdb_env_set_mapsize M (eo_env ew) i (w_mdb w)\<rparr>)
           else (Undef, w)
       | _ \<Rightarrow> (Return JUndefined, w))"

definition env_setMaxDbs :: "'e mdb \<Rightarrow> v8 \<Rightarrow> nat \<Rightarrow> js \<Rightarrow> 'e world \<Rightarrow> outcome \<times> 'e world" where
  "env_setMaxDbs M V this arg =
     with_env this (\<lambda>ew w.
       if IsNumber arg
       then (Return JUndefined, w\<lparr>w_mdb := mdb_env_set_maxdbs M (eo_env ew) (Uint32Value V arg) (w_mdb w)\<rparr>)
       else (Return JUndefined, w))"

definition env_open :: "'e mdb \<Rightarrow> v8 \<Rightarrow> nat \<Rightarrow> js \<Rightarrow> 'e world \<Rightarrow> outcome \<times> 'e world" where
  "env_open M V this arg =
     with_env this (\<lambda>ew w.
       case mdb_env_open M (eo_env ew) (ToString V arg) (w_mdb w) of
         (rc, e) \<Rightarrow>
           if rc \<noteq> 0
           then (Throw (MdbError rc),
                 w\<lparr>w_mdb := mdb_env_close M (eo_env ew) e, w_envs := (w_envs w)(this \<mapsto> ew\<lparr>eo_env := 0\<rparr>)\<rparr>)
           else (Return JUndefined, w\<lparr>w_mdb := mdb_reader_check M (eo_env ew) e\<rparr>))"

definition env_close :: "'e mdb \<Rightarrow> nat \<Rightarrow> 'e world \<Rightarrow> outcome \<times> 'e world" where
  "env_close M this =
     with_env this (\<lambda>ew w.
       let e1 = (if eo_read_lock ew \<noteq> 0 then mdb_txn_abort M (eo_read_lock ew) (w_mdb w) else w_mdb w);
           e2 = mdb_env_close M (eo_env ew) e1
       in (Return JUndefined,
           w\<lparr>w_mdb := e2, w_envs := (w_envs w)(this \<mapsto> ew\<lparr>eo_env := 0, eo_read_lock := 0\<rparr>)\<rparr>))"

text \<open>\<^verbatim>\<open>env::sync\<close> queues a request; \<open>sync_cb\<close> runs it on a
  thread of the pool; \<open>after_sync_cb\<close> runs on the event loop, computes the argument of
  the callback and frees the request.\<close>

definition env_sync :: "nat \<Rightarrow> nat \<Rightarrow> 'e world \<Rightarrow> outcome \<times> 'e world" where
  "env_sync this callback =
     with_env this (\<lambda>ew w.
       let d = \<lparr>sy_callback = callback, sy_ew = this, sy_dbenv = eo_env ew, sy_rc = 0\<rparr>
       in (Return JUndefined, w\<lparr>w_queue := w_queue w @ [d]\<rparr>))"

definition sync_cb :: "'e mdb \<Rightarrow> uv_env_sync \<Rightarrow> 'e \<Rightarrow> uv_env_sync \<times> 'e" where
  "sync_cb M d e = (case mdb_env_sync M (sy_dbenv d) True e of (rc, e') \<Rightarrow> (d\<lparr>sy_rc := rc\<rparr>, e'))"

definition after_sync_cb :: "uv_env_sync \<Rightarrow> nat \<times> (error + js)" where
  "after_sync_cb d = (sy_callback d, if sy_rc d = 0 then Inr JNull else Inl (MdbError (sy_rc d)))"

definition env_dtor :: "'e mdb \<Rightarrow> nat \<Rightarrow> 'e world \<Rightarrow> 'e world" where
  "env_dtor M this w =
     (case w_envs w this of
        None \<Rightarrow> w
      | Some ew \<Rightarrow>
          let e1 = (if eo_read_lock ew \<noteq> 0 then mdb_txn_abort M (eo_read_lock ew) (w_mdb w) else w_mdb w);
              e2 = (if eo_env ew \<noteq> 0 then mdb_env_close M (eo_env ew) e1 else e1)
          in w\<lparr>w_mdb := e2, w_envs := (w_envs w)(this := None)\<rparr>)"

section \<open>The shared read transaction\<close>

text \<open>
  \<open>None\<close>: the null environment pointer of a closed environment is dereferenced.  The return
  codes of the library are ignored, so the result is the field as it is afterwards, which is
  \<^verbatim>\<open>NULL\<close> when the first \<^verbatim>\<open>mdb_txn_begin\<close>
  fails.  A read-only transaction takes no lock, so it always returns.
\<close>

definition require_readlock :: "'e mdb \<Rightarrow> nat \<Rightarrow> 'e world \<Rightarrow> (ptr \<times> 'e world) option" where
  "require_readlock M this w =
     (case w_envs w this of
        None \<Rightarrow> None
      | Some ew \<Rightarrow>
          if eo_read_lock ew \<noteq> 0
          then (case mdb_txn_renew M (eo_read_lock ew) (w_mdb w) of
                  (rc, e) \<Rightarrow> Some (eo_read_lock ew, w\<lparr>w_mdb := e\<rparr>))
          else if eo_env ew = 0 then None
          else (case mdb_txn_begin M (eo_env ew) True (w_mdb w) of
                  None \<Rightarrow> None
                | Some (rc, t, e) \<Rightarrow>
                    let lock = (if rc = 0 then t else 0)
                    in Some (lock, w\<lparr>w_mdb := e, w_envs := (w_envs w)(this \<mapsto> ew\<lparr>eo_read_lock := lock\<rparr>)\<rparr>)))"

definition release_readlock :: "'e mdb \<Rightarrow> nat \<Rightarrow> 'e world \<Rightarrow> 'e world" where
  "release_readlock M this w =
     (case w_envs w this of
        None \<Rightarrow> w
      | Some ew \<Rightarrow> w\<lparr>w_mdb := mdb_txn_reset M (eo_read_lock ew) (w_mdb w)\<rparr>)"

lemmas env_handler_defs =
  env_ctor_def env_setMapSize_def env_setMaxDbs_def env_open_def env_close_def env_sync_def
  env_dtor_def with_env_def

end
