(* ===== verification/Lmdb_Txn.thy ===== *)
theory Lmdb_Txn
  imports Lmdb_Env
begin

text \<open>
  \<^verbatim>\<open>src/src/lmdb/txn-lmdb.cpp\<close>: the transaction object, its constructor,
  \<^verbatim>\<open>commit\<close>, \<^verbatim>\<open>abort\<close>,
  \<^verbatim>\<open>reset\<close>, \<^verbatim>\<open>renew\<close> and the destructor.
\<close>

section \<open>Handlers\<close>

text \<open>When \<^verbatim>\<open>mdb_txn_begin\<close> fails the new C++ object is never wrapped
  (and leaks), so no object appears in the world.\<close>

definition txn_ctor :: "'e mdb \<Rightarrow> nat \<Rightarrow> js \<Rightarrow> bool \<Rightarrow> 'e world \<Rightarrow> outcome \<times> 'e world" where
  "txn_ctor M this arg readonly w =
     (case unwrap (w_envs w) arg of
        None \<Rightarrow> (Undef, w)
      | Some (_, ew) \<Rightarrow>
          if eo_env ew = 0 then (Undef, w)
          else (case mdb_txn_begin M (eo_env ew) readonly (w_mdb w) of
                  None \<Rightarrow> (Hang, w)
                | Some (rc, t, e) \<Rightarrow>
                    if rc \<noteq> 0 then (Throw (MdbError rc), w\<lparr>w_mdb := e\<rparr>)
                    else (Return (JObject this),
                          w\<lparr>w_mdb := e,
                            w_txns := (w_txns w)(this \<mapsto> \<lparr>to_readonly = readonly, to_txn = t, to_env = eo_env ew\<rparr>)\<rparr>)))"

definition txn_commit :: "'e mdb \<Rightarrow> nat \<Rightarrow> 'e world \<Rightarrow> outcome \<times> 'e world" where
  "txn_commit M this w =
     (case w_txns w this of
        None \<Rightarrow> (Undef, w)
      | Some tw \<Rightarrow>
          if to_txn tw = 0 then (Throw TxnClosed, w)
          else (case mdb_txn_commit M (to_txn tw) (w_mdb w) of
                  (rc, e) \<Rightarrow>
                    (if rc \<noteq> 0 then Throw (MdbError rc) else Return JUndefined,
                     w\<lparr>w_mdb := e, w_txns := (w_txns w)(this \<mapsto> tw\<lparr>to_txn := 0\<rparr>)\<rparr>)))"

definition txn_abort :: "'e mdb \<Rightarrow> nat \<Rightarrow> 'e world \<Rightarrow> outcome \<times> 'e world" where
  "txn_abort M this w =
     (case w_txns w this of
        None \<Rightarrow> (Undef, w)
      | Some tw \<Rightarrow>
          if to_txn tw = 0 then (Throw TxnClosed, w)
          else (Return JUndefined,
                w\<lparr>w_mdb := mdb_txn_abort M (to_txn tw) (w_mdb w), w_txns := (w_txns w)(this \<mapsto> tw\<lparr>to_txn := 0\<rparr>)\<rparr>))"

definition txn_reset :: "'e mdb \<Rightarrow> nat \<Rightarrow> 'e world \<Rightarrow> outcome \<times> 'e world" where
  "txn_reset M this w =
     (case w_txns w this of
        None \<Rightarrow> (Undef, w)
      | Some tw \<Rightarrow>
          if to_txn tw = 0 then (Throw TxnClosed, w)
          else if \<not> to_readonly tw then (Throw OnlyReadonlyReset, w)
          else (Return JUndefined, w\<lparr>w_mdb := mdb_txn_reset M (to_txn tw) (w_mdb w)\<rparr>))"

definition txn_renew :: "'e mdb \<Rightarrow> nat \<Rightarrow> 'e world \<Rightarrow> outcome \<times> 'e world" where
  "txn_renew M this w =
     (case w_txns w this of
        None \<Rightarrow> (Undef, w)
      | Some tw \<Rightarrow>
          if to_readonly tw
          then (if to_txn tw = 0 then (Throw TxnClosed, w)
                else (case mdb_txn_renew M (to_txn tw) (w_mdb w) of
                        (rc, e) \<Rightarrow>
                          (if rc \<noteq> 0 then Throw (MdbError rc) else Return JUndefined, w\<lparr>w_mdb := e\<rparr>)))
          else (if to_txn tw \<noteq> 0 then (Throw TxnStillOpened, w)
                else (case mdb_txn_begin M (to_env tw) False (w_mdb w) of
                        None \<Rightarrow> (Hang, w)
                      | Some (rc, t, e) \<Rightarrow>
                          if rc \<noteq> 0 then (Throw (MdbError rc), w\<lparr>w_mdb := e\<rparr>)
                          else (Return JUndefined,
                                w\<lparr>w_mdb := e, w_txns := (w_txns w)(this \<mapsto> tw\<lparr>to_txn := t\<rparr>)\<rparr>))))"

definition txn_dtor :: "'e mdb \<Rightarrow> nat \<Rightarrow> 'e world \<Rightarrow> 'e world" where
  "txn_dtor M this w =
     (case w_txns w this of
        None \<Rightarrow> w
      | Some tw \<Rightarrow>
          let e = (if to_txn tw \<noteq> 0 then mdb_txn_abort M (to_txn tw) (w_mdb w) else w_mdb w)
          in w\<lparr>w_mdb := e, w_txns := (w_txns w)(this := None)\<rparr>)"

lemmas txn_handler_defs =
  txn_ctor_def txn_commit_def txn_abort_def txn_reset_def txn_renew_def txn_dtor_def

end
