(* ===== verification/Lmdb_Db.thy ===== *)
theory Lmdb_Db
  imports Lmdb_Txn
begin

text \<open>
  \<^verbatim>\<open>src/src/lmdb/db-lmdb.cpp\<close>: the database object, its constructor,
  \<^verbatim>\<open>close\<close>, \<^verbatim>\<open>get\<close>,
  \<^verbatim>\<open>put\<close>, \<^verbatim>\<open>del\<close>,
  \<^verbatim>\<open>exists\<close>, the destructor, and the scope guard
  \<^verbatim>\<open>txn_scope\<close> that runs an operation in the caller's transaction or in one
  of its own.
\<close>

section \<open>Comparators and construction\<close>

text \<open>\<^verbatim>\<open>mdb_cmp_fn<T>\<close>: the comparator of a numeric type.\<close>

definition mdb_cmp_fn :: "num_kind \<Rightarrow> bytes \<Rightarrow> bytes \<Rightarrow> int option" where
  "mdb_cmp_fn k a b =
     (case (number_of_mem k a, number_of_mem k b) of
        (Some ta, Some tb) \<Rightarrow> Some (number_compare ta tb)
      | _ \<Rightarrow> None)"

fun set_cmp :: "'e mdb \<Rightarrow> kv_type \<Rightarrow> ptr \<Rightarrow> nat \<Rightarrow> 'e \<Rightarrow> 'e" where
  "set_cmp M (Number k) txn dbi e = mdb_set_compare M txn dbi (mdb_cmp_fn k) e"
| "set_cmp M _ txn dbi e = e"

fun set_dup_cmp :: "'e mdb \<Rightarrow> kv_type \<Rightarrow> ptr \<Rightarrow> nat \<Rightarrow> 'e \<Rightarrow> 'e" where
  "set_dup_cmp M (Number k) txn dbi e = mdb_set_dupsort M txn dbi (mdb_cmp_fn k) e"
| "set_dup_cmp M _ txn dbi e = e"

record db_options =
  opt_name :: js
  opt_allowDup :: bool

text \<open>\<open>options\<close> is \<open>None\<close> when \<^verbatim>\<open>info[1]\<close> is no
  object.  After a failed \<^verbatim>\<open>mdb_txn_begin\<close> the code aborts an
  uninitialised pointer.\<close>

definition lmdb_ctor :: "'e mdb \<Rightarrow> v8 \<Rightarrow> kv_type \<Rightarrow> kv_type \<Rightarrow> nat \<Rightarrow> js \<Rightarrow> db_options option \<Rightarrow> 'e world \<Rightarrow> outcome \<times> 'e world" where
  "lmdb_ctor M V K T this arg options w =
     (case unwrap (w_envs w) arg of
        None \<Rightarrow> (Undef, w)
      | Some (ea, ew) \<Rightarrow>
          (case options of
             None \<Rightarrow> (Throw InvalidParameters, w)
           | Some opts \<Rightarrow>
               let name = ToString V (opt_name opts);
                   allowdup = opt_allowDup opts
               in if eo_env ew = 0 then (Undef, w)
                  else (case mdb_txn_begin M (eo_env ew) False (w_mdb w) of
                     None \<Rightarrow> (Hang, w)
                   | Some (rc, txn, e) \<Rightarrow>
                       if rc \<noteq> 0 then (Undef, w\<lparr>w_mdb := e\<rparr>)
                       else (case mdb_dbi_open M txn name allowdup e of
                          (rc, dbi, e1) \<Rightarrow>
                            if rc \<noteq> 0 then (Throw (MdbError rc), w\<lparr>w_mdb := mdb_txn_abort M txn e1\<rparr>)
                            else
                              let e2 = set_cmp M K txn dbi e1;
                                  e3 = (if allowdup then set_dup_cmp M T txn dbi e2 else e2)
                              in (case mdb_txn_commit M txn e3 of
                                    (rc, e4) \<Rightarrow>
                                      if rc \<noteq> 0 then (Throw (MdbError rc), w\<lparr>w_mdb := e4\<rparr>)
                                      else (Return (JObject this),
                                            w\<lparr>w_mdb := e4,
                                              w_dbs := (w_dbs w)(this \<mapsto>
                                                \<lparr>do_K = K, do_V = T, do_dbi = dbi, do_env = ea, do_cur = 0\<rparr>)\<rparr>))))))"

definition lmdb_close :: "'e mdb \<Rightarrow> nat \<Rightarrow> 'e world \<Rightarrow> outcome \<times> 'e world" where
  "lmdb_close M this w =
     (case w_dbs w this of
        None \<Rightarrow> (Undef, w)
      | Some dw \<Rightarrow>
          (case w_envs w (do_env dw) of
             None \<Rightarrow> (Undef, w)
           | Some ew \<Rightarrow>
               if eo_env ew = 0 then (Undef, w)
               else
                 let e1 = mdb_dbi_close M (eo_env ew) (do_dbi dw) (w_mdb w)
                 in if do_cur dw \<noteq> 0
                    then (Return JUndefined,
                          w\<lparr>w_mdb := mdb_cursor_close M (do_cur dw) e1,
                            w_dbs := (w_dbs w)(this \<mapsto> dw\<lparr>do_cur := 0\<rparr>)\<rparr>)
                    else (Return JUndefined, w\<lparr>w_mdb := e1\<rparr>)))"

section \<open>The scope guard\<close>

record txn_scope =
  ts_env :: nat
  ts_txn :: ptr
  ts_readonly :: bool
  ts_created :: bool
  ts_commit :: bool

text \<open>
  The two constructors.  Given a transaction object they use its handle; otherwise the write scope
  begins a transaction and the read scope borrows the environment's shared read transaction.  The
  return code of \<^verbatim>\<open>mdb_txn_begin\<close> is ignored.
\<close>

definition scope_write :: "'e mdb \<Rightarrow> js \<Rightarrow> ptr \<Rightarrow> 'e world \<Rightarrow> outcome + txn_scope \<times> 'e world" where
  "scope_write M arg env w =
     (if IsObject arg
      then (case unwrap (w_txns w) arg of
              None \<Rightarrow> Inl Undef
            | Some (_, tw) \<Rightarrow>
                Inr (\<lparr>ts_env = 0, ts_txn = to_txn tw, ts_readonly = False, ts_created = False, ts_commit = False\<rparr>, w))
      else if env = 0 then Inl Undef
      else (case mdb_txn_begin M env False (w_mdb w) of
              None \<Rightarrow> Inl Hang
            | Some (rc, t, e) \<Rightarrow>
                Inr (\<lparr>ts_env = 0, ts_txn = (if rc = 0 then t else 0), ts_readonly = False, ts_created = True, ts_commit = False\<rparr>,
                     w\<lparr>w_mdb := e\<rparr>)))"

definition scope_read :: "'e mdb \<Rightarrow> js \<Rightarrow> nat \<Rightarrow> 'e world \<Rightarrow> outcome + txn_scope \<times> 'e world" where
  "scope_read M arg ea w =
     (if IsObject arg
      then (case unwrap (w_txns w) arg of
              None \<Rightarrow> Inl Undef
            | Some (_, tw) \<Rightarrow>
                Inr (\<lparr>ts_env = ea, ts_txn = to_txn tw, ts_readonly = True, ts_created = False, ts_commit = False\<rparr>, w))
      else (case require_readlock M ea w of
              None \<Rightarrow> Inl Undef
            | Some (t, w') \<Rightarrow>
                Inr (\<lparr>ts_env = ea, ts_txn = t, ts_readonly = True, ts_created = True, ts_commit = False\<rparr>, w')))"

text \<open>The destructor; the return code of \<^verbatim>\<open>mdb_txn_commit\<close> is
  ignored.\<close>

definition scope_dtor :: "'e mdb \<Rightarrow> txn_scope \<Rightarrow> 'e world \<Rightarrow> 'e world" where
  "scope_dtor M tc w =
     (if ts_created tc
      then if ts_readonly tc then release_readlock M (ts_env tc) w
           else if \<not> ts_commit tc then w\<lparr>w_mdb := mdb_txn_abort M (ts_txn tc) (w_mdb w)\<rparr>
           else w\<lparr>w_mdb := snd (mdb_txn_commit M (ts_txn tc) (w_mdb w))\<rparr>
      else w)"

section \<open>Operations\<close>

text \<open>\<open>garbage\<close> is the unspecified content of fresh C++ buffers, see
  \<open>hex_v8value\<close>.\<close>

definition decode_outcome :: "kv_type \<Rightarrow> (nat \<Rightarrow> bytes) \<Rightarrow> mdb_val \<Rightarrow> outcome" where
  "decode_outcome T g v = (case kv_decode T g (mv_data v) (mv_size v) of None \<Rightarrow> Undef | Some j \<Rightarrow> Return j)"

definition lmdb_get :: "'e mdb \<Rightarrow> v8 \<Rightarrow> (nat \<Rightarrow> bytes) \<Rightarrow> nat \<Rightarrow> js \<Rightarrow> js \<Rightarrow> 'e world \<Rightarrow> outcome \<times> 'e world" where
  "lmdb_get M V g this karg targ w =
     (case w_dbs w this of
        None \<Rightarrow> (Undef, w)
      | Some dw \<Rightarrow>
          (case kv_encode (do_K dw) V karg of
             None \<Rightarrow> (Undef, w)
           | Some key \<Rightarrow>
               (case scope_read M targ (do_env dw) w of
                  Inl out \<Rightarrow> (out, w)
                | Inr (tc, w1) \<Rightarrow>
                    (case mdb_get M (ts_txn tc) (do_dbi dw) key (w_mdb w1) of
                       (rc, v) \<Rightarrow>
                         (if rc = MDB_NOTFOUND then Return JNull
                          else if rc \<noteq> 0 then Throw (MdbError rc)
                          else decode_outcome (do_V dw) g v,
                          scope_dtor M tc w1)))))"

definition lmdb_put :: "'e mdb \<Rightarrow> v8 \<Rightarrow> nat \<Rightarrow> js \<Rightarrow> js \<Rightarrow> js \<Rightarrow> 'e world \<Rightarrow> outcome \<times> 'e world" where
  "lmdb_put M V this karg varg targ w =
     (case w_dbs w this of
        None \<Rightarrow> (Undef, w)
      | Some dw \<Rightarrow>
          (case (kv_encode (do_K dw) V karg, kv_encode (do_V dw) V varg, w_envs w (do_env dw)) of
             (Some key, Some val, Some ew) \<Rightarrow>
               (case scope_write M targ (eo_env ew) w of
                  Inl out \<Rightarrow> (out, w)
                | Inr (tc, w1) \<Rightarrow>
                    (case mdb_put M (ts_txn tc) (do_dbi dw) key val (w_mdb w1) of
                       (rc, e) \<Rightarrow>
                         let w2 = w1\<lparr>w_mdb := e\<rparr>
                         in if rc \<noteq> 0 then (Throw (MdbError rc), scope_dtor M tc w2)
                            else (Return (JBool True), scope_dtor M (tc\<lparr>ts_commit := True\<rparr>) w2)))
           | _ \<Rightarrow> (Undef, w)))"

definition lmdb_del :: "'e mdb \<Rightarrow> v8 \<Rightarrow> nat \<Rightarrow> js \<Rightarrow> js \<Rightarrow> js \<Rightarrow> 'e world \<Rightarrow> outcome \<times> 'e world" where
  "lmdb_del M V this karg varg targ w =
     (case w_dbs w this of
        None \<Rightarrow> (Undef, w)
      | Some dw \<Rightarrow>
          (case (kv_encode (do_K dw) V karg, kv_encode (do_V dw) V varg, w_envs w (do_env dw)) of
             (Some key, Some val, Some ew) \<Rightarrow>
               (case scope_write M targ (eo_env ew) w of
                  Inl out \<Rightarrow> (out, w)
                | Inr (tc, w1) \<Rightarrow>
                    (case mdb_del M (ts_txn tc) (do_dbi dw) key val (w_mdb w1) of
                       (rc, e) \<Rightarrow>
                         let w2 = w1\<lparr>w_mdb := e\<rparr>
                         in if rc = MDB_NOTFOUND then (Return (JBool False), scope_dtor M tc w2)
                            else if rc \<noteq> 0 then (Throw (MdbError rc), scope_dtor M tc w2)
                            else (Return (JBool True), scope_dtor M (tc\<lparr>ts_commit := True\<rparr>) w2)))
           | _ \<Rightarrow> (Undef, w)))"

text \<open>
  \<^verbatim>\<open>exists\<close>: in the shared read transaction the cursor cached in the database
  object is opened or renewed; in a transaction of the caller a cursor is opened and closed.  Return
  codes of opening and renewing are ignored.
\<close>

definition exists_cursor :: "'e mdb \<Rightarrow> nat \<Rightarrow> db_obj \<Rightarrow> txn_scope \<Rightarrow> 'e world \<Rightarrow> ptr \<times> 'e world" where
  "exists_cursor M this dw tc w =
     (if ts_created tc
      then if do_cur dw = 0
           then (case mdb_cursor_open M (ts_txn tc) (do_dbi dw) (w_mdb w) of
                   (rc, c, e) \<Rightarrow>
                     let cur = (if rc = 0 then c else 0)
                     in (cur, w\<lparr>w_mdb := e, w_dbs := (w_dbs w)(this \<mapsto> dw\<lparr>do_cur := cur\<rparr>)\<rparr>))
           else (do_cur dw, w\<lparr>w_mdb := snd (mdb_cursor_renew M (ts_txn tc) (do_cur dw) (w_mdb w))\<rparr>)
      else (case mdb_cursor_open M (ts_txn tc) (do_dbi dw) (w_mdb w) of
              (rc, c, e) \<Rightarrow> (if rc = 0 then c else 0, w\<lparr>w_mdb := e\<rparr>)))"

definition lmdb_exists :: "'e mdb \<Rightarrow> v8 \<Rightarrow> nat \<Rightarrow> js \<Rightarrow> js \<Rightarrow> js \<Rightarrow> 'e world \<Rightarrow> outcome \<times> 'e world" where
  "lmdb_exists M V this karg varg targ w =
     (case w_dbs w this of
        None \<Rightarrow> (Undef, w)
      | Some dw \<Rightarrow>
          (case (kv_encode (do_K dw) V karg, kv_encode (do_V dw) V varg) of
             (Some key, Some val) \<Rightarrow>
               (case scope_read M targ (do_env dw) w of
                  Inl out \<Rightarrow> (out, w)
                | Inr (tc, w1) \<Rightarrow>
                    (case exists_cursor M this dw tc w1 of
                       (cur, w2) \<Rightarrow>
                         (case mdb_cursor_get M cur key val MDB_GET_BOTH (w_mdb w2) of
                            (rc, _, _, e) \<Rightarrow>
                              let e' = (if \<not> ts_created tc then mdb_cursor_close M cur e else e);
                                  w3 = w2\<lparr>w_mdb := e'\<rparr>
                              in (if rc = MDB_NOTFOUND then Return (JBool False)
                                  else if rc = 0 then Return (JBool True)
                                  else Throw (MdbError rc),
                                  scope_dtor M tc w3))))
           | _ \<Rightarrow> (Undef, w)))"

definition lmdb_dtor :: "'e mdb \<Rightarrow> nat \<Rightarrow> 'e world \<Rightarrow> 'e world" where
  "lmdb_dtor M this w =
     (case w_dbs w this of
        None \<Rightarrow> w
      | Some dw \<Rightarrow>
          let e = (if do_cur dw \<noteq> 0 then mdb_cursor_close M (do_cur dw) (w_mdb w) else w_mdb w)
          in w\<lparr>w_mdb := e, w_dbs := (w_dbs w)(this := None)\<rparr>)"

lemma mdb_cmp_fn_lvl_rocks: "mdb_cmp_fn = lvl_rocks_Compare"
  by (intro ext) (simp add: mdb_cmp_fn_def lvl_rocks_Compare_def)

lemmas scope_defs = scope_write_def scope_read_def scope_dtor_def require_readlock_def release_readlock_def

lemmas db_handler_defs =
  lmdb_ctor_def lmdb_close_def lmdb_get_def lmdb_put_def lmdb_del_def lmdb_exists_def lmdb_dtor_def
  exists_cursor_def

end
