(* ===== verification/Lmdb_Cursor.thy ===== *)
theory Lmdb_Cursor
  imports Lmdb_Db
begin

text \<open>
  \<^verbatim>\<open>src/src/lmdb/cursor-lmdb.cpp\<close>: the cursor object, its constructor,
  \<^verbatim>\<open>close\<close>, \<^verbatim>\<open>del\<close>, the movements, the
  accessors and the destructor.
\<close>

section \<open>Handlers\<close>

definition cursor_ctor :: "'e mdb \<Rightarrow> kv_type \<Rightarrow> kv_type \<Rightarrow> nat \<Rightarrow> js \<Rightarrow> js \<Rightarrow> 'e world \<Rightarrow> outcome \<times> 'e world" where
  "cursor_ctor M K T this darg targ w =
     (case (unwrap (w_dbs w) darg, unwrap (w_txns w) targ) of
        (Some (_, dw), Some (_, tw)) \<Rightarrow>
          (case mdb_cursor_open M (to_txn tw) (do_dbi dw) (w_mdb w) of
             (rc, cur, e) \<Rightarrow>
               if rc \<noteq> 0 then (Throw (MdbError rc), w\<lparr>w_mdb := e\<rparr>)
               else (Return (JObject this),
                     w\<lparr>w_mdb := e, w_cursors := (w_cursors w)(this \<mapsto> \<lparr>co_K = K, co_V = T, co_cursor = cur\<rparr>)\<rparr>))
      | _ \<Rightarrow> (Undef, w))"

definition cursor_close :: "'e mdb \<Rightarrow> nat \<Rightarrow> 'e world \<Rightarrow> outcome \<times> 'e world" where
  "cursor_close M this w =
     (case w_cursors w this of
        None \<Rightarrow> (Undef, w)
      | Some cw \<Rightarrow>
          (Return JUndefined,
           w\<lparr>w_mdb := mdb_cursor_close M (co_cursor cw) (w_mdb w),
             w_cursors := (w_cursors w)(this \<mapsto> cw\<lparr>co_cursor := 0\<rparr>)\<rparr>))"

text \<open>\<^verbatim>\<open>mdb_cursor_del\<close> dereferences its argument without a check.\<close>

definition cursor_del :: "'e mdb \<Rightarrow> nat \<Rightarrow> 'e world \<Rightarrow> outcome \<times> 'e world" where
  "cursor_del M this w =
     (case w_cursors w this of
        None \<Rightarrow> (Undef, w)
      | Some cw \<Rightarrow>
          if co_cursor cw = 0 then (Undef, w)
          else (case mdb_cursor_del M (co_cursor cw) (w_mdb w) of
                  (rc, e) \<Rightarrow> (if rc \<noteq> 0 then Throw (MdbError rc) else Return JUndefined, w\<lparr>w_mdb := e\<rparr>)))"

text \<open>The answer of a movement: whether an entry was found.\<close>

definition move_outcome :: "int \<Rightarrow> outcome" where
  "move_outcome rc =
     (if rc \<noteq> 0 \<and> rc \<noteq> MDB_NOTFOUND then Throw (MdbError rc) else Return (JBool (rc \<noteq> MDB_NOTFOUND)))"

definition cursorOp :: "'e mdb \<Rightarrow> cursor_op \<Rightarrow> nat \<Rightarrow> 'e world \<Rightarrow> outcome \<times> 'e world" where
  "cursorOp M OP this w =
     (case w_cursors w this of
        None \<Rightarrow> (Undef, w)
      | Some cw \<Rightarrow>
          (case mdb_cursor_get M (co_cursor cw) [] [] OP (w_mdb w) of
             (rc, _, _, e) \<Rightarrow> (move_outcome rc, w\<lparr>w_mdb := e\<rparr>)))"

definition cursorKeyOp :: "'e mdb \<Rightarrow> v8 \<Rightarrow> cursor_op \<Rightarrow> nat \<Rightarrow> js \<Rightarrow> 'e world \<Rightarrow> outcome \<times> 'e world" where
  "cursorKeyOp M V OP this karg w =
     (case w_cursors w this of
        None \<Rightarrow> (Undef, w)
      | Some cw \<Rightarrow>
          (case kv_encode (co_K cw) V karg of
             None \<Rightarrow> (Undef, w)
           | Some k \<Rightarrow>
               (case mdb_cursor_get M (co_cursor cw) k [] OP (w_mdb w) of
                  (rc, _, _, e) \<Rightarrow> (move_outcome rc, w\<lparr>w_mdb := e\<rparr>))))"

definition cursorKeyValOp :: "'e mdb \<Rightarrow> v8 \<Rightarrow> cursor_op \<Rightarrow> nat \<Rightarrow> js \<Rightarrow> js \<Rightarrow> 'e world \<Rightarrow> outcome \<times> 'e world" where
  "cursorKeyValOp M V OP this karg varg w =
     (case w_cursors w this of
        None \<Rightarrow> (Undef, w)
      | Some cw \<Rightarrow>
          (case (kv_encode (co_K cw) V karg, kv_encode (co_V cw) V varg) of
             (Some k, Some v) \<Rightarrow>
               (case mdb_cursor_get M (co_cursor cw) k v OP (w_mdb w) of
                  (rc, _, _, e) \<Rightarrow> (move_outcome rc, w\<lparr>w_mdb := e\<rparr>))
           | _ \<Rightarrow> (Undef, w)))"

definition cursor_key :: "'e mdb \<Rightarrow> (nat \<Rightarrow> bytes) \<Rightarrow> nat \<Rightarrow> 'e world \<Rightarrow> outcome \<times> 'e world" where
  "cursor_key M g this w =
     (case w_cursors w this of
        None \<Rightarrow> (Undef, w)
      | Some cw \<Rightarrow>
          (case mdb_cursor_get M (co_cursor cw) [] [] MDB_GET_CURRENT (w_mdb w) of
             (rc, key, data, e) \<Rightarrow>
               (if rc = MDB_NOTFOUND then Return JNull
                else if rc \<noteq> 0 then Throw (MdbError rc)
                else decode_outcome (co_K cw) g key,
                w\<lparr>w_mdb := e\<rparr>)))"

definition cursor_value :: "'e mdb \<Rightarrow> (nat \<Rightarrow> bytes) \<Rightarrow> nat \<Rightarrow> 'e world \<Rightarrow> outcome \<times> 'e world" where
  "cursor_value M g this w =
     (case w_cursors w this of
        None \<Rightarrow> (Undef, w)
      | Some cw \<Rightarrow>
          (case mdb_cursor_get M (co_cursor cw) [] [] MDB_GET_CURRENT (w_mdb w) of
             (rc, key, data, e) \<Rightarrow>
               (if rc = MDB_NOTFOUND then Return JNull
                else if rc \<noteq> 0 then Throw (MdbError rc)
                else decode_outcome (co_V cw) g data,
                w\<lparr>w_mdb := e\<rparr>)))"

definition cursor_next where "cursor_next M = cursorOp M MDB_NEXT"
definition cursor_prev where "cursor_prev M = cursorOp M MDB_PREV"
definition cursor_nextDup where "cursor_nextDup M = cursorOp M MDB_NEXT_DUP"
definition cursor_prevDup where "cursor_prevDup M = cursorOp M MDB_PREV_DUP"
definition cursor_first where "cursor_first M = cursorOp M MDB_FIRST"
definition cursor_last where "cursor_last M = cursorOp M MDB_LAST"
definition cursor_firstDup where "cursor_firstDup M = cursorOp M MDB_FIRST_DUP"
definition cursor_lastDup where "cursor_lastDup M = cursorOp M MDB_LAST_DUP"

text \<open>\<^verbatim>\<open>seek\<close> and \<^verbatim>\<open>gte\<close> choose by the number of
  arguments: \<open>args\<close> is the argument list.  With one argument the key alone is looked up;
  any other number reads two arguments, missing ones being undefined.\<close>

definition js_arg :: "js list \<Rightarrow> nat \<Rightarrow> js" where
  "js_arg args i = (if i < length args then args ! i else JUndefined)"

definition cursor_seek :: "'e mdb \<Rightarrow> v8 \<Rightarrow> nat \<Rightarrow> js list \<Rightarrow> 'e world \<Rightarrow> outcome \<times> 'e world" where
  "cursor_seek M V this args =
     (if length args = 1 then cursorKeyOp M V MDB_SET this (js_arg args 0)
      else cursorKeyValOp M V MDB_GET_BOTH this (js_arg args 0) (js_arg args 1))"

definition cursor_gte :: "'e mdb \<Rightarrow> v8 \<Rightarrow> nat \<Rightarrow> js list \<Rightarrow> 'e world \<Rightarrow> outcome \<times> 'e world" where
  "cursor_gte M V this args =
     (if length args = 1 then cursorKeyOp M V MDB_SET_RANGE this (js_arg args 0)
      else cursorKeyValOp M V MDB_GET_BOTH_RANGE this (js_arg args 0) (js_arg args 1))"

definition cursor_dtor :: "'e mdb \<Rightarrow> nat \<Rightarrow> 'e world \<Rightarrow> 'e world" where
  "cursor_dtor M this w =
     (case w_cursors w this of
        None \<Rightarrow> w
      | Some cw \<Rightarrow>
          let e = (if co_cursor cw \<noteq> 0 then mdb_cursor_close M (co_cursor cw) (w_mdb w) else w_mdb w)
          in w\<lparr>w_mdb := e, w_cursors := (w_cursors w)(this := None)\<rparr>)"

lemmas cursor_moves =
  cursor_next_def cursor_prev_def cursor_nextDup_def cursor_prevDup_def
  cursor_first_def cursor_last_def cursor_firstDup_def cursor_lastDup_def

lemmas cursor_handler_defs =
  cursor_ctor_def cursor_close_def cursor_del_def cursorOp_def cursorKeyOp_def cursorKeyValOp_def
  cursor_key_def cursor_value_def cursor_seek_def cursor_gte_def cursor_dtor_def cursor_moves

end
