(* ===== verification/Lmdb_Engine.thy ===== *)
theory Lmdb_Engine
  imports Lmdb_World
begin

text \<open>
  What the binding relies on from the LMDB library, as documented in
  \<^verbatim>\<open>lmdb.h\<close>.  \<open>lmdb_handles\<close> is about the life of environment
  and transaction handles: \<open>envs e\<close> are the environments that exist in library state
  \<open>e\<close>, and \<open>txns e t = Some p\<close> says that \<open>t\<close> is a transaction of
  environment \<open>p\<close> that has been begun and not yet committed or aborted.
\<close>

locale lmdb_handles =
  fixes M :: "'e mdb"
    and envs :: "'e \<Rightarrow> ptr set"
    and txns :: "'e \<Rightarrow> ptr \<rightharpoonup> ptr"
  assumes env_create: "mdb_env_create M e = (0, p, e') \<Longrightarrow> p \<noteq> 0 \<and> p \<notin> envs e \<and> envs e' = insert p (envs e) \<and> txns e' = txns e"
    and env_create_fail: "mdb_env_create M e = (rc, p, e') \<Longrightarrow> rc \<noteq> 0 \<Longrightarrow> envs e' = envs e \<and> txns e' = txns e"
    and env_close: "p \<in> envs e \<Longrightarrow> (\<forall>t. txns e t \<noteq> Some p) \<Longrightarrow>
      envs (mdb_env_close M p e) = envs e - {p} \<and> txns (mdb_env_close M p e) = txns e"
    and env_close_null: "mdb_env_close M 0 e = e"
    and set_mapsize: "envs (mdb_env_set_mapsize M p i e) = envs e \<and> txns (mdb_env_set_mapsize M p i e) = txns e"
    and set_maxdbs: "envs (mdb_env_set_maxdbs M p i e) = envs e \<and> txns (mdb_env_set_maxdbs M p i e) = txns e"
    and env_open: "envs (snd (mdb_env_open M p n e)) = envs e \<and> txns (snd (mdb_env_open M p n e)) = txns e"
    and reader_check: "envs (mdb_reader_check M p e) = envs e \<and> txns (mdb_reader_check M p e) = txns e"
    and env_sync: "envs (snd (mdb_env_sync M p b e)) = envs e \<and> txns (snd (mdb_env_sync M p b e)) = txns e"
    and txn_begin: "p \<in> envs e \<Longrightarrow> mdb_txn_begin M p ro e = Some (0, t, e') \<Longrightarrow>
      t \<noteq> 0 \<and> txns e t = None \<and> txns e' = (txns e)(t \<mapsto> p) \<and> envs e' = envs e"
    and txn_begin_fail: "mdb_txn_begin M p ro e = Some (rc, t, e') \<Longrightarrow> rc \<noteq> 0 \<Longrightarrow> txns e' = txns e \<and> envs e' = envs e"
    and txn_begin_ro: "p \<in> envs e \<Longrightarrow> mdb_txn_begin M p True e \<noteq> None"
    and txn_commit: "t \<in> dom (txns e) \<Longrightarrow>
      txns (snd (mdb_txn_commit M t e)) = (txns e)(t := None) \<and> envs (snd (mdb_txn_commit M t e)) = envs e"
    and txn_commit_null: "snd (mdb_txn_commit M 0 e) = e"
    and txn_abort: "t \<in> dom (txns e) \<Longrightarrow>
      txns (mdb_txn_abort M t e) = (txns e)(t := None) \<and> envs (mdb_txn_abort M t e) = envs e"
    and txn_abort_null: "mdb_txn_abort M 0 e = e"
    and txn_reset: "txns (mdb_txn_reset M t e) = txns e \<and> envs (mdb_txn_reset M t e) = envs e"
    and txn_renew: "txns (snd (mdb_txn_renew M t e)) = txns e \<and> envs (snd (mdb_txn_renew M t e)) = envs e"
    and dbi_open: "txns (snd (snd (mdb_dbi_open M t n b e))) = txns e \<and> envs (snd (snd (mdb_dbi_open M t n b e))) = envs e"
    and set_compare: "txns (mdb_set_compare M t d f e) = txns e \<and> envs (mdb_set_compare M t d f e) = envs e"
    and set_dupsort: "txns (mdb_set_dupsort M t d f e) = txns e \<and> envs (mdb_set_dupsort M t d f e) = envs e"
    and dbi_close: "txns (mdb_dbi_close M p d e) = txns e \<and> envs (mdb_dbi_close M p d e) = envs e"
    and put: "txns (snd (mdb_put M t d k v e)) = txns e \<and> envs (snd (mdb_put M t d k v e)) = envs e"
    and del: "txns (snd (mdb_del M t d k v e)) = txns e \<and> envs (snd (mdb_del M t d k v e)) = envs e"
    and cursor_open: "txns (snd (snd (mdb_cursor_open M t d e))) = txns e \<and> envs (snd (snd (mdb_cursor_open M t d e))) = envs e"
    and cursor_close: "txns (mdb_cursor_close M c e) = txns e \<and> envs (mdb_cursor_close M c e) = envs e"
    and cursor_renew: "txns (snd (mdb_cursor_renew M t c e)) = txns e \<and> envs (snd (mdb_cursor_renew M t c e)) = envs e"
    and cursor_get: "txns (snd (snd (snd (mdb_cursor_get M c k v op e)))) = txns e \<and>
      envs (snd (snd (snd (mdb_cursor_get M c k v op e)))) = envs e"
    and cursor_del: "txns (snd (mdb_cursor_del M c e)) = txns e \<and> envs (snd (mdb_cursor_del M c e)) = envs e"

text \<open>
  \<open>lmdb_store\<close> adds what transactions read and write in databases opened without
  \<^verbatim>\<open>MDB_DUPSORT\<close> (\<open>plain e p d\<close>: database \<open>d\<close> of
  environment \<open>p\<close> is such a database).  \<open>com e p d\<close> is the committed content
  of database \<open>d\<close> of environment \<open>p\<close> as a map from keys to values;
  \<open>view e t d\<close> is what transaction \<open>t\<close> sees, \<open>writer e t\<close> that it
  is a write transaction.
\<close>

locale lmdb_store = lmdb_handles M envs txns
  for M :: "'e mdb" and envs :: "'e \<Rightarrow> ptr set" and txns :: "'e \<Rightarrow> ptr \<rightharpoonup> ptr" +
  fixes com :: "'e \<Rightarrow> ptr \<Rightarrow> nat \<Rightarrow> bytes \<rightharpoonup> bytes"
    and view :: "'e \<Rightarrow> ptr \<Rightarrow> nat \<Rightarrow> bytes \<rightharpoonup> bytes"
    and writer :: "'e \<Rightarrow> ptr \<Rightarrow> bool"
    and plain :: "'e \<Rightarrow> ptr \<Rightarrow> nat \<Rightarrow> bool"
  assumes begin_store: "p \<in> envs e \<Longrightarrow> mdb_txn_begin M p ro e = Some (0, t, e') \<Longrightarrow>
      view e' t = com e p \<and> com e' = com e \<and> plain e' = plain e \<and> (writer e' t \<longleftrightarrow> \<not> ro)"
    and begin_blocks: "p \<in> envs e \<Longrightarrow> txns e t = Some p \<Longrightarrow> writer e t \<Longrightarrow> mdb_txn_begin M p False e = None"
    and renew_store: "txns e t = Some p \<Longrightarrow> mdb_txn_renew M t e = (0, e') \<Longrightarrow>
      view e' t = com e p \<and> com e' = com e \<and> plain e' = plain e"
    and reset_store: "com (mdb_txn_reset M t e) = com e \<and> plain (mdb_txn_reset M t e) = plain e"
    and abort_store: "com (mdb_txn_abort M t e) = com e \<and> plain (mdb_txn_abort M t e) = plain e"
    and put_store: "com (snd (mdb_put M t d k v e)) = com e \<and> plain (snd (mdb_put M t d k v e)) = plain e \<and>
      writer (snd (mdb_put M t d k v e)) = writer e"
    and put_view: "txns e t = Some p \<Longrightarrow> plain e p d \<Longrightarrow> mdb_put M t d k v e = (0, e') \<Longrightarrow>
      view e' t = (view e t)(d := (view e t d)(k \<mapsto> v))"
    and del_store: "com (snd (mdb_del M t d k v e)) = com e \<and> plain (snd (mdb_del M t d k v e)) = plain e \<and>
      writer (snd (mdb_del M t d k v e)) = writer e"
    and del_view: "txns e t = Some p \<Longrightarrow> plain e p d \<Longrightarrow> mdb_del M t d k v e = (0, e') \<Longrightarrow>
      view e' t = (view e t)(d := (view e t d)(k := None))"
    and commit_store: "txns e t = Some p \<Longrightarrow> writer e t \<Longrightarrow> mdb_txn_commit M t e = (0, e') \<Longrightarrow>
      com e' = (com e)(p := view e t) \<and> plain e' = plain e"
    and commit_fail_store: "mdb_txn_commit M t e = (rc, e') \<Longrightarrow> rc \<noteq> 0 \<Longrightarrow> com e' = com e"
    and put_null: "fst (mdb_put M 0 d k v e) \<noteq> 0"
    and del_null: "fst (mdb_del M 0 d k v e) \<noteq> 0 \<and> fst (mdb_del M 0 d k v e) \<noteq> MDB_NOTFOUND"
    and get_null: "fst (mdb_get M 0 d k e) \<noteq> 0 \<and> fst (mdb_get M 0 d k e) \<noteq> MDB_NOTFOUND"
    and begin_fail_store: "mdb_txn_begin M p ro e = Some (rc, t, e') \<Longrightarrow> rc \<noteq> 0 \<Longrightarrow> com e' = com e \<and> plain e' = plain e"
    and get_view: "txns e t = Some p \<Longrightarrow> plain e p d \<Longrightarrow> mdb_get M t d k e = (rc, mv) \<Longrightarrow>
      (rc = 0 \<longrightarrow> view e t d k = Some (take (mv_size mv) (mv_data mv)) \<and> mv_size mv \<le> length (mv_data mv)) \<and>
      (rc = MDB_NOTFOUND \<longrightarrow> view e t d k = None)"

end
