(* ===== verification/Lmdb_Ref.thy ===== *)
theory Lmdb_Ref
  imports Lmdb_Engine
begin

text \<open>
  An executable reference model of the LMDB interface, following the documentation in
  \<^verbatim>\<open>lmdb.h\<close>: environments with numbered databases, snapshot transactions, one
  writer and one reader slot per environment (all calls come from the same thread), cursors over the
  ordered content, and a size limit that yields \<^verbatim>\<open>MDB_MAP_FULL\<close>.  It shows
  that the assumptions of \<open>lmdb_handles\<close> and \<open>lmdb_store\<close> can be met, and
  serves to run the handlers on concrete inputs.
\<close>

section \<open>State\<close>

record ref_dbi =
  rd_name :: bytes
  rd_dup :: bool
  rd_cmp :: "bytes \<Rightarrow> bytes \<Rightarrow> int"
  rd_dcmp :: "bytes \<Rightarrow> bytes \<Rightarrow> int"

type_synonym content = "(bytes \<times> bytes) list"

record ref_env =
  re_dbis :: "ref_dbi list"
  re_data :: "content list"
  re_writer :: ptr
  re_reader :: bool
  re_mapsize :: int

record ref_txn =
  rt_env :: ptr
  rt_ro :: bool
  rt_active :: bool
  rt_data :: "content list"

record ref_cur =
  rcu_txn :: ptr
  rcu_dbi :: nat
  rcu_pos :: "nat option"

record ref_mdb =
  r_next_env :: nat
  r_next_txn :: nat
  r_next_cur :: nat
  r_envs :: "ptr \<rightharpoonup> ref_env"
  r_txns :: "ptr \<rightharpoonup> ref_txn"
  r_curs :: "ptr \<rightharpoonup> ref_cur"

definition ref_init :: ref_mdb where
  "ref_init = \<lparr>r_next_env = 0, r_next_txn = 0, r_next_cur = 0, r_envs = Map.empty, r_txns = Map.empty, r_curs = Map.empty\<rparr>"

section \<open>Contents\<close>

fun bytewise :: "bytes \<Rightarrow> bytes \<Rightarrow> int" where
  "bytewise [] [] = 0"
| "bytewise [] (b # bs) = - 1"
| "bytewise (a # as) [] = 1"
| "bytewise (a # as) (b # bs) = (if a < b then - 1 else if b < a then 1 else bytewise as bs)"

definition pair_less :: "ref_dbi \<Rightarrow> bytes \<times> bytes \<Rightarrow> bytes \<times> bytes \<Rightarrow> bool" where
  "pair_less D a b \<longleftrightarrow>
     rd_cmp D (fst a) (fst b) < 0 \<or> (rd_cmp D (fst a) (fst b) = 0 \<and> rd_dup D \<and> rd_dcmp D (snd a) (snd b) < 0)"

fun insert_pair :: "ref_dbi \<Rightarrow> bytes \<times> bytes \<Rightarrow> content \<Rightarrow> content" where
  "insert_pair D x [] = [x]"
| "insert_pair D x (y # ys) = (if pair_less D y x then y # insert_pair D x ys else x # y # ys)"

definition content_put :: "ref_dbi \<Rightarrow> bytes \<Rightarrow> bytes \<Rightarrow> content \<Rightarrow> content" where
  "content_put D k v xs =
     (if rd_dup D then insert_pair D (k, v) (filter (\<lambda>y. y \<noteq> (k, v)) xs)
      else insert_pair D (k, v) (filter (\<lambda>y. fst y \<noteq> k) xs))"

definition content_del :: "ref_dbi \<Rightarrow> bytes \<Rightarrow> bytes \<Rightarrow> content \<Rightarrow> content" where
  "content_del D k v xs =
     (if rd_dup D then filter (\<lambda>y. y \<noteq> (k, v)) xs else filter (\<lambda>y. fst y \<noteq> k) xs)"

definition content_size :: "content list \<Rightarrow> nat" where
  "content_size ds = sum_list (map (\<lambda>xs. sum_list (map (\<lambda>(k, v). length k + length v) xs)) ds)"

definition db_at :: "content list \<Rightarrow> nat \<Rightarrow> content" where
  "db_at ds d = (if d < length ds then ds ! d else [])"

definition val_of :: "bytes \<Rightarrow> mdb_val" where
  "val_of b = \<lparr>mv_data = b @ [0], mv_size = length b\<rparr>"

section \<open>Environments and transactions\<close>

definition ref_env_create :: "ref_mdb \<Rightarrow> int \<times> ptr \<times> ref_mdb" where
  "ref_env_create s =
     (let p = Suc (r_next_env s)
      in (0, p, s\<lparr>r_next_env := p,
                  r_envs := (r_envs s)(p \<mapsto> \<lparr>re_dbis = [], re_data = [], re_writer = 0, re_reader = False, re_mapsize = 1048576\<rparr>)\<rparr>))"

definition ref_set_mapsize :: "ptr \<Rightarrow> int \<Rightarrow> ref_mdb \<Rightarrow> ref_mdb" where
  "ref_set_mapsize p i s =
     (case r_envs s p of None \<Rightarrow> s | Some E \<Rightarrow> s\<lparr>r_envs := (r_envs s)(p \<mapsto> E\<lparr>re_mapsize := i\<rparr>)\<rparr>)"

definition ref_env_close :: "ptr \<Rightarrow> ref_mdb \<Rightarrow> ref_mdb" where
  "ref_env_close p s = (if p = 0 then s else s\<lparr>r_envs := (r_envs s)(p := None)\<rparr>)"

definition ref_txn_begin :: "ptr \<Rightarrow> bool \<Rightarrow> ref_mdb \<Rightarrow> (int \<times> ptr \<times> ref_mdb) option" where
  "ref_txn_begin p ro s =
     (case r_envs s p of
        None \<Rightarrow> Some (EINVAL, 0, s)
      | Some E \<Rightarrow>
          if ro \<and> re_reader E then Some (MDB_BAD_RSLOT, 0, s)
          else if \<not> ro \<and> re_writer E \<noteq> 0 then None
          else
            let t = Suc (r_next_txn s);
                T = \<lparr>rt_env = p, rt_ro = ro, rt_active = True, rt_data = re_data E\<rparr>;
                E' = (if ro then E\<lparr>re_reader := True\<rparr> else E\<lparr>re_writer := t\<rparr>)
            in Some (0, t, s\<lparr>r_next_txn := t, r_txns := (r_txns s)(t \<mapsto> T), r_envs := (r_envs s)(p \<mapsto> E')\<rparr>))"

definition ref_release :: "ref_txn \<Rightarrow> ref_env \<Rightarrow> ref_env" where
  "ref_release T E =
     (if rt_ro T then (if rt_active T then E\<lparr>re_reader := False\<rparr> else E) else E\<lparr>re_writer := 0\<rparr>)"

definition ref_txn_end :: "bool \<Rightarrow> ptr \<Rightarrow> ref_mdb \<Rightarrow> ref_mdb" where
  "ref_txn_end commit t s =
     (case r_txns s t of
        None \<Rightarrow> s
      | Some T \<Rightarrow>
          let s1 = s\<lparr>r_txns := (r_txns s)(t := None)\<rparr>
          in (case r_envs s (rt_env T) of
                None \<Rightarrow> s1
              | Some E \<Rightarrow>
                  let E1 = ref_release T E;
                      E2 = (if commit \<and> \<not> rt_ro T then E1\<lparr>re_data := rt_data T\<rparr> else E1)
                  in s1\<lparr>r_envs := (r_envs s)(rt_env T \<mapsto> E2)\<rparr>))"

definition ref_txn_commit :: "ptr \<Rightarrow> ref_mdb \<Rightarrow> int \<times> ref_mdb" where
  "ref_txn_commit t s = (if t = 0 \<or> r_txns s t = None then (EINVAL, s) else (0, ref_txn_end True t s))"

definition ref_txn_abort :: "ptr \<Rightarrow> ref_mdb \<Rightarrow> ref_mdb" where
  "ref_txn_abort t s = (if t = 0 then s else ref_txn_end False t s)"

definition ref_txn_reset :: "ptr \<Rightarrow> ref_mdb \<Rightarrow> ref_mdb" where
  "ref_txn_reset t s =
     (case r_txns s t of
        None \<Rightarrow> s
      | Some T \<Rightarrow>
          (case r_envs s (rt_env T) of
             None \<Rightarrow> s
           | Some E \<Rightarrow>
               if rt_ro T \<and> rt_active T
               then s\<lparr>r_txns := (r_txns s)(t \<mapsto> T\<lparr>rt_active := False\<rparr>), r_envs := (r_envs s)(rt_env T \<mapsto> E\<lparr>re_reader := False\<rparr>)\<rparr>
               else s))"

definition ref_txn_renew :: "ptr \<Rightarrow> ref_mdb \<Rightarrow> int \<times> ref_mdb" where
  "ref_txn_renew t s =
     (case r_txns s t of
        None \<Rightarrow> (EINVAL, s)
      | Some T \<Rightarrow>
          (case r_envs s (rt_env T) of
             None \<Rightarrow> (EINVAL, s)
           | Some E \<Rightarrow>
               if \<not> rt_ro T \<or> rt_active T then (EINVAL, s)
               else if re_reader E then (MDB_BAD_RSLOT, s)
               else (0, s\<lparr>r_txns := (r_txns s)(t \<mapsto> T\<lparr>rt_active := True, rt_data := re_data E\<rparr>),
                          r_envs := (r_envs s)(rt_env T \<mapsto> E\<lparr>re_reader := True\<rparr>)\<rparr>)))"

section \<open>Databases\<close>

fun find_name :: "bytes \<Rightarrow> nat \<Rightarrow> ref_dbi list \<Rightarrow> nat option" where
  "find_name n i [] = None"
| "find_name n i (D # Ds) = (if rd_name D = n then Some i else find_name n (Suc i) Ds)"

definition ref_dbi_open :: "ptr \<Rightarrow> bytes \<Rightarrow> bool \<Rightarrow> ref_mdb \<Rightarrow> int \<times> nat \<times> ref_mdb" where
  "ref_dbi_open t n dup s =
     (case r_txns s t of
        None \<Rightarrow> (EINVAL, 0, s)
      | Some T \<Rightarrow>
          (case r_envs s (rt_env T) of
             None \<Rightarrow> (EINVAL, 0, s)
           | Some E \<Rightarrow>
               (case find_name n 0 (re_dbis E) of
                  Some d \<Rightarrow> (0, d, s)
                | None \<Rightarrow>
                    (0, length (re_dbis E),
                     s\<lparr>r_envs := (r_envs s)(rt_env T \<mapsto>
                         E\<lparr>re_dbis := re_dbis E @ [\<lparr>rd_name = n, rd_dup = dup, rd_cmp = bytewise, rd_dcmp = bytewise\<rparr>],
                           re_data := re_data E @ [[]]\<rparr>),
                       r_txns := (r_txns s)(t \<mapsto> T\<lparr>rt_data := rt_data T @ [[]]\<rparr>)\<rparr>))))"

definition total_cmp :: "(bytes \<Rightarrow> bytes \<Rightarrow> int option) \<Rightarrow> bytes \<Rightarrow> bytes \<Rightarrow> int" where
  "total_cmp f a b = (case f a b of Some r \<Rightarrow> r | None \<Rightarrow> 0)"

definition ref_set_cmp :: "(ref_dbi \<Rightarrow> ref_dbi) \<Rightarrow> ptr \<Rightarrow> nat \<Rightarrow> ref_mdb \<Rightarrow> ref_mdb" where
  "ref_set_cmp upd t d s =
     (case r_txns s t of
        None \<Rightarrow> s
      | Some T \<Rightarrow>
          (case r_envs s (rt_env T) of
             None \<Rightarrow> s
           | Some E \<Rightarrow>
               if d < length (re_dbis E)
               then s\<lparr>r_envs := (r_envs s)(rt_env T \<mapsto> E\<lparr>re_dbis := (re_dbis E)[d := upd (re_dbis E ! d)]\<rparr>)\<rparr>
               else s))"

text \<open>The database record behind handle \<open>d\<close> of a usable transaction.\<close>

definition ref_dbi_of :: "ref_mdb \<Rightarrow> ptr \<Rightarrow> nat \<Rightarrow> (ref_txn \<times> ref_env \<times> ref_dbi) option" where
  "ref_dbi_of s t d =
     (case r_txns s t of
        None \<Rightarrow> None
      | Some T \<Rightarrow>
          (case r_envs s (rt_env T) of
             None \<Rightarrow> None
           | Some E \<Rightarrow>
               if t \<noteq> 0 \<and> rt_active T \<and> d < length (re_dbis E) \<and> d < length (rt_data T)
               then Some (T, E, re_dbis E ! d) else None))"

definition ref_get :: "ptr \<Rightarrow> nat \<Rightarrow> bytes \<Rightarrow> ref_mdb \<Rightarrow> int \<times> mdb_val" where
  "ref_get t d k s =
     (case ref_dbi_of s t d of
        None \<Rightarrow> (EINVAL, val_of [])
      | Some (T, E, D) \<Rightarrow>
          (case map_of (rt_data T ! d) k of
             None \<Rightarrow> (MDB_NOTFOUND, val_of [])
           | Some v \<Rightarrow> (0, val_of v)))"

definition ref_update :: "(ref_dbi \<Rightarrow> content \<Rightarrow> content) \<Rightarrow> ptr \<Rightarrow> nat \<Rightarrow> ref_mdb \<Rightarrow> ref_mdb" where
  "ref_update f t d s =
     (case ref_dbi_of s t d of
        None \<Rightarrow> s
      | Some (T, E, D) \<Rightarrow> s\<lparr>r_txns := (r_txns s)(t \<mapsto> T\<lparr>rt_data := (rt_data T)[d := f D (rt_data T ! d)]\<rparr>)\<rparr>)"

definition ref_put :: "ptr \<Rightarrow> nat \<Rightarrow> bytes \<Rightarrow> bytes \<Rightarrow> ref_mdb \<Rightarrow> int \<times> ref_mdb" where
  "ref_put t d k v s =
     (case ref_dbi_of s t d of
        None \<Rightarrow> (EINVAL, s)
      | Some (T, E, D) \<Rightarrow>
          if rt_ro T then (EACCES, s)
          else if int (content_size ((rt_data T)[d := content_put D k v (rt_data T ! d)])) > re_mapsize E then (MDB_MAP_FULL, s)
          else (0, ref_update (\<lambda>D. content_put D k v) t d s))"

definition ref_del :: "ptr \<Rightarrow> nat \<Rightarrow> bytes \<Rightarrow> bytes \<Rightarrow> ref_mdb \<Rightarrow> int \<times> ref_mdb" where
  "ref_del t d k v s =
     (case ref_dbi_of s t d of
        None \<Rightarrow> (EINVAL, s)
      | Some (T, E, D) \<Rightarrow>
          if rt_ro T then (EACCES, s)
          else if content_del D k v (rt_data T ! d) = rt_data T ! d then (MDB_NOTFOUND, s)
          else (0, ref_update (\<lambda>D. content_del D k v) t d s))"

section \<open>Cursors\<close>

definition ref_cursor_open :: "ptr \<Rightarrow> nat \<Rightarrow> ref_mdb \<Rightarrow> int \<times> ptr \<times> ref_mdb" where
  "ref_cursor_open t d s =
     (case ref_dbi_of s t d of
        None \<Rightarrow> (EINVAL, 0, s)
      | Some _ \<Rightarrow>
          let c = Suc (r_next_cur s)
          in (0, c, s\<lparr>r_next_cur := c, r_curs := (r_curs s)(c \<mapsto> \<lparr>rcu_txn = t, rcu_dbi = d, rcu_pos = None\<rparr>)\<rparr>))"

definition ref_cursor_close :: "ptr \<Rightarrow> ref_mdb \<Rightarrow> ref_mdb" where
  "ref_cursor_close c s = s\<lparr>r_curs := (r_curs s)(c := None)\<rparr>"

definition ref_cursor_renew :: "ptr \<Rightarrow> ptr \<Rightarrow> ref_mdb \<Rightarrow> int \<times> ref_mdb" where
  "ref_cursor_renew t c s =
     (case r_curs s c of
        None \<Rightarrow> (EINVAL, s)
      | Some C \<Rightarrow> (0, s\<lparr>r_curs := (r_curs s)(c \<mapsto> C\<lparr>rcu_txn := t, rcu_pos := None\<rparr>)\<rparr>))"

fun first_index :: "('a \<Rightarrow> bool) \<Rightarrow> nat \<Rightarrow> 'a list \<Rightarrow> nat option" where
  "first_index P i [] = None"
| "first_index P i (x # xs) = (if P x then Some i else first_index P (Suc i) xs)"

text \<open>Where a movement lands: a return code and the new position.\<close>

definition cursor_target :: "ref_dbi \<Rightarrow> content \<Rightarrow> nat option \<Rightarrow> bytes \<Rightarrow> bytes \<Rightarrow> cursor_op \<Rightarrow> int \<times> nat option" where
  "cursor_target D xs pos k v op =
     (let found = (\<lambda>i. if i < length xs then (0, Some i) else (MDB_NOTFOUND, pos));
          search = (\<lambda>P. case first_index P 0 xs of None \<Rightarrow> (MDB_NOTFOUND, pos) | Some i \<Rightarrow> (0, Some i));
          last = (if xs = [] then (MDB_NOTFOUND, pos) else (0, Some (length xs - 1)));
          same = (\<lambda>i j. j < length xs \<and> i < length xs \<and> rd_cmp D (fst (xs ! i)) (fst (xs ! j)) = 0)
      in case op of
           MDB_GET_CURRENT \<Rightarrow> (case pos of None \<Rightarrow> (EINVAL, pos) | Some i \<Rightarrow> found i)
         | MDB_FIRST \<Rightarrow> found 0
         | MDB_LAST \<Rightarrow> last
         | MDB_NEXT \<Rightarrow> (case pos of None \<Rightarrow> found 0 | Some i \<Rightarrow> found (Suc i))
         | MDB_PREV \<Rightarrow> (case pos of None \<Rightarrow> last | Some i \<Rightarrow> if i = 0 then (MDB_NOTFOUND, pos) else found (i - 1))
         | MDB_NEXT_DUP \<Rightarrow>
             (case pos of None \<Rightarrow> found 0 | Some i \<Rightarrow> if same i (Suc i) then (0, Some (Suc i)) else (MDB_NOTFOUND, pos))
         | MDB_PREV_DUP \<Rightarrow>
             (case pos of None \<Rightarrow> last | Some i \<Rightarrow> if 0 < i \<and> same i (i - 1) then (0, Some (i - 1)) else (MDB_NOTFOUND, pos))
         | MDB_SET \<Rightarrow> search (\<lambda>y. rd_cmp D k (fst y) = 0)
         | MDB_SET_RANGE \<Rightarrow> search (\<lambda>y. rd_cmp D (fst y) k \<ge> 0)
         | MDB_GET_BOTH \<Rightarrow>
             if rd_dup D then search (\<lambda>y. rd_cmp D k (fst y) = 0 \<and> rd_dcmp D v (snd y) = 0) else (MDB_INCOMPATIBLE, pos)
         | MDB_GET_BOTH_RANGE \<Rightarrow>
             if rd_dup D then search (\<lambda>y. rd_cmp D k (fst y) = 0 \<and> rd_dcmp D (snd y) v \<ge> 0) else (MDB_INCOMPATIBLE, pos)
         | MDB_FIRST_DUP \<Rightarrow>
             (case pos of
                None \<Rightarrow> (EINVAL, pos)
              | Some i \<Rightarrow> if rd_dup D then search (\<lambda>y. rd_cmp D (fst (xs ! i)) (fst y) = 0) else (MDB_INCOMPATIBLE, pos))
         | MDB_LAST_DUP \<Rightarrow>
             (case pos of
                None \<Rightarrow> (EINVAL, pos)
              | Some i \<Rightarrow>
                  if rd_dup D
                  then found (length (takeWhile (\<lambda>y. rd_cmp D (fst y) (fst (xs ! i)) \<le> 0) xs) - 1)
                  else (MDB_INCOMPATIBLE, pos)))"

definition ref_cursor_get :: "ptr \<Rightarrow> bytes \<Rightarrow> bytes \<Rightarrow> cursor_op \<Rightarrow> ref_mdb \<Rightarrow> int \<times> mdb_val \<times> mdb_val \<times> ref_mdb" where
  "ref_cursor_get c k v op s =
     (case r_curs s c of
        None \<Rightarrow> (EINVAL, val_of [], val_of [], s)
      | Some C \<Rightarrow>
          (case ref_dbi_of s (rcu_txn C) (rcu_dbi C) of
             None \<Rightarrow> (EINVAL, val_of [], val_of [], s)
           | Some (T, E, D) \<Rightarrow>
               let xs = rt_data T ! rcu_dbi C
               in (case cursor_target D xs (rcu_pos C) k v op of
                     (rc, pos) \<Rightarrow>
                       let s' = s\<lparr>r_curs := (r_curs s)(c \<mapsto> C\<lparr>rcu_pos := pos\<rparr>)\<rparr>
                       in if rc = 0
                          then (rc, val_of (fst (xs ! the pos)), val_of (snd (xs ! the pos)), s')
                          else (rc, val_of [], val_of [], s'))))"

definition ref_cursor_del :: "ptr \<Rightarrow> ref_mdb \<Rightarrow> int \<times> ref_mdb" where
  "ref_cursor_del c s =
     (case r_curs s c of
        None \<Rightarrow> (EINVAL, s)
      | Some C \<Rightarrow>
          (case (ref_dbi_of s (rcu_txn C) (rcu_dbi C), rcu_pos C) of
             (Some (T, E, D), Some i) \<Rightarrow>
               if rt_ro T then (EACCES, s)
               else if i < length (rt_data T ! rcu_dbi C)
               then (0, ref_update (\<lambda>_ xs. take i xs @ drop (Suc i) xs) (rcu_txn C) (rcu_dbi C) s)
               else (MDB_NOTFOUND, s)
           | _ \<Rightarrow> (EINVAL, s)))"

section \<open>The reference library\<close>

definition ref_lmdb :: "ref_mdb mdb" where
  "ref_lmdb =
     \<lparr>mdb_env_create = ref_env_create,
      mdb_env_set_mapsize = ref_set_mapsize,
      mdb_env_set_maxdbs = (\<lambda>p i s. s),
      mdb_env_open = (\<lambda>p n s. (0, s)),
      mdb_reader_check = (\<lambda>p s. s),
      mdb_env_close = ref_env_close,
      mdb_env_sync = (\<lambda>p b s. (0, s)),
      mdb_txn_begin = ref_txn_begin,
      mdb_txn_commit = ref_txn_commit,
      mdb_txn_abort = ref_txn_abort,
      mdb_txn_reset = ref_txn_reset,
      mdb_txn_renew = ref_txn_renew,
      mdb_dbi_open = ref_dbi_open,
      mdb_set_compare = (\<lambda>t d f. ref_set_cmp (\<lambda>D. D\<lparr>rd_cmp := total_cmp f\<rparr>) t d),
      mdb_set_dupsort = (\<lambda>t d f. ref_set_cmp (\<lambda>D. D\<lparr>rd_dcmp := total_cmp f\<rparr>) t d),
      mdb_dbi_close = (\<lambda>p d s. s),
      mdb_get = ref_get,
      mdb_put = ref_put,
      mdb_del = ref_del,
      mdb_cursor_open = ref_cursor_open,
      mdb_cursor_close = ref_cursor_close,
      mdb_cursor_renew = ref_cursor_renew,
      mdb_cursor_get = ref_cursor_get,
      mdb_cursor_del = ref_cursor_del\<rparr>"

lemma ref_lmdb_sel [simp]:
  "mdb_env_create ref_lmdb = ref_env_create"
  "mdb_env_set_mapsize ref_lmdb = ref_set_mapsize"
  "mdb_env_set_maxdbs ref_lmdb = (\<lambda>p i s. s)"
  "mdb_env_open ref_lmdb = (\<lambda>p n s. (0, s))"
  "mdb_reader_check ref_lmdb = (\<lambda>p s. s)"
  "mdb_env_close ref_lmdb = ref_env_close"
  "mdb_env_sync ref_lmdb = (\<lambda>p b s. (0, s))"
  "mdb_txn_begin ref_lmdb = ref_txn_begin"
  "mdb_txn_commit ref_lmdb = ref_txn_commit"
  "mdb_txn_abort ref_lmdb = ref_txn_abort"
  "mdb_txn_reset ref_lmdb = ref_txn_reset"
  "mdb_txn_renew ref_lmdb = ref_txn_renew"
  "mdb_dbi_open ref_lmdb = ref_dbi_open"
  "mdb_set_compare ref_lmdb = (\<lambda>t d f. ref_set_cmp (\<lambda>D. D\<lparr>rd_cmp := total_cmp f\<rparr>) t d)"
  "mdb_set_dupsort ref_lmdb = (\<lambda>t d f. ref_set_cmp (\<lambda>D. D\<lparr>rd_dcmp := total_cmp f\<rparr>) t d)"
  "mdb_dbi_close ref_lmdb = (\<lambda>p d s. s)"
  "mdb_get ref_lmdb = ref_get"
  "mdb_put ref_lmdb = ref_put"
  "mdb_del ref_lmdb = ref_del"
  "mdb_cursor_open ref_lmdb = ref_cursor_open"
  "mdb_cursor_close ref_lmdb = ref_cursor_close"
  "mdb_cursor_renew ref_lmdb = ref_cursor_renew"
  "mdb_cursor_get ref_lmdb = ref_cursor_get"
  "mdb_cursor_del ref_lmdb = ref_cursor_del"
  by (simp_all add: ref_lmdb_def)

section \<open>The reference library meets the assumptions\<close>

text \<open>Handles beyond the allocation counters do not exist.\<close>

definition ref_envs :: "ref_mdb \<Rightarrow> ptr set" where
  "ref_envs s = {p \<in> dom (r_envs s). p \<noteq> 0 \<and> p \<le> r_next_env s}"

definition ref_txns :: "ref_mdb \<Rightarrow> ptr \<rightharpoonup> ptr" where
  "ref_txns s t = (if t \<noteq> 0 \<and> t \<le> r_next_txn s then map_option rt_env (r_txns s t) else None)"

definition ref_com :: "ref_mdb \<Rightarrow> ptr \<Rightarrow> nat \<Rightarrow> bytes \<rightharpoonup> bytes" where
  "ref_com s p d = (case r_envs s p of None \<Rightarrow> Map.empty | Some E \<Rightarrow> map_of (db_at (re_data E) d))"

definition ref_view :: "ref_mdb \<Rightarrow> ptr \<Rightarrow> nat \<Rightarrow> bytes \<rightharpoonup> bytes" where
  "ref_view s t d = (case r_txns s t of None \<Rightarrow> Map.empty | Some T \<Rightarrow> map_of (db_at (rt_data T) d))"

definition ref_writer :: "ref_mdb \<Rightarrow> ptr \<Rightarrow> bool" where
  "ref_writer s t =
     (case r_txns s t of
        None \<Rightarrow> False
      | Some T \<Rightarrow>
          \<not> rt_ro T \<and> t \<noteq> 0 \<and> (case r_envs s (rt_env T) of None \<Rightarrow> False | Some E \<Rightarrow> re_writer E = t))"

definition ref_plain :: "ref_mdb \<Rightarrow> ptr \<Rightarrow> nat \<Rightarrow> bool" where
  "ref_plain s p d =
     (case r_envs s p of None \<Rightarrow> False | Some E \<Rightarrow> d < length (re_dbis E) \<and> \<not> rd_dup (re_dbis E ! d))"

lemmas ref_abs_defs = ref_envs_def ref_txns_def ref_com_def ref_view_def ref_writer_def ref_plain_def

lemma map_of_insert_pair:
  "k \<notin> fst ` set xs \<Longrightarrow> map_of (insert_pair D (k, v) xs) = (map_of xs)(k \<mapsto> v)"
  by (induction xs) (auto simp: fun_eq_iff)

lemma map_of_filter_key: "map_of (filter (\<lambda>y. fst y \<noteq> k) xs) = (map_of xs)(k := None)"
  by (induction xs) (auto simp: fun_eq_iff)

lemma map_of_content_put: "\<not> rd_dup D \<Longrightarrow> map_of (content_put D k v xs) = (map_of xs)(k \<mapsto> v)"
proof -
  assume "\<not> rd_dup D"
  moreover have "k \<notin> fst ` set (filter (\<lambda>y. fst y \<noteq> k) xs)" by auto
  ultimately show ?thesis
    unfolding content_put_def by (simp add: map_of_insert_pair map_of_filter_key)
qed

lemma map_of_content_del: "\<not> rd_dup D \<Longrightarrow> map_of (content_del D k v xs) = (map_of xs)(k := None)"
  by (simp add: content_del_def map_of_filter_key)

lemma ref_update_handles [simp]:
  "ref_txns (ref_update f t d s) = ref_txns s"
  "ref_envs (ref_update f t d s) = ref_envs s"
  "ref_com (ref_update f t d s) = ref_com s"
  "ref_plain (ref_update f t d s) = ref_plain s"
  "ref_writer (ref_update f t d s) = ref_writer s"
  by (auto simp: ref_update_def ref_dbi_of_def ref_abs_defs fun_eq_iff split: option.splits if_splits)

lemma ref_update_view:
  assumes "ref_dbi_of s t d = Some (T, E, D)"
  shows "ref_view (ref_update f t d s) t = (ref_view s t)(d := map_of (f D (rt_data T ! d)))"
  using assms
  by (auto simp: ref_update_def ref_dbi_of_def ref_view_def db_at_def fun_eq_iff
      split: option.splits if_splits)

lemma ref_dbi_of_plain:
  assumes "ref_dbi_of s t d = Some (T, E, D)" and "ref_txns s t = Some p" and "ref_plain s p d"
  shows "\<not> rd_dup D" and "ref_view s t d = map_of (rt_data T ! d)"
  using assms
  by (auto simp: ref_dbi_of_def ref_txns_def ref_plain_def ref_view_def db_at_def
      split: option.splits if_splits)

lemma ref_txn_end_txns:
  "t \<in> dom (ref_txns s) \<Longrightarrow> ref_txns (ref_txn_end c t s) = (ref_txns s)(t := None)"
  by (auto simp: ref_txn_end_def ref_txns_def Let_def fun_eq_iff split: option.splits if_splits)

lemma ref_txn_end_envs: "ref_envs (ref_txn_end c t s) = ref_envs s"
  by (auto simp: ref_txn_end_def ref_envs_def Let_def split: option.splits if_splits)

lemma ref_set_cmp_handles:
  "ref_txns (ref_set_cmp u t d s) = ref_txns s" "ref_envs (ref_set_cmp u t d s) = ref_envs s"
  by (auto simp: ref_set_cmp_def ref_txns_def ref_envs_def fun_eq_iff split: option.splits if_splits)

lemma ref_reset_handles:
  "ref_txns (ref_txn_reset t s) = ref_txns s" "ref_envs (ref_txn_reset t s) = ref_envs s"
  by (auto simp: ref_txn_reset_def ref_txns_def ref_envs_def fun_eq_iff split: option.splits if_splits)

lemma ref_renew_handles:
  "ref_txns (snd (ref_txn_renew t s)) = ref_txns s" "ref_envs (snd (ref_txn_renew t s)) = ref_envs s"
  by (auto simp: ref_txn_renew_def ref_txns_def ref_envs_def fun_eq_iff split: option.splits if_splits)

lemma ref_dbi_open_handles:
  "ref_txns (snd (snd (ref_dbi_open t n b s))) = ref_txns s"
  "ref_envs (snd (snd (ref_dbi_open t n b s))) = ref_envs s"
  by (auto simp: ref_dbi_open_def ref_txns_def ref_envs_def fun_eq_iff split: option.splits if_splits)

lemma ref_cursor_handles:
  "ref_txns (snd (snd (ref_cursor_open t d s))) = ref_txns s"
  "ref_envs (snd (snd (ref_cursor_open t d s))) = ref_envs s"
  "ref_txns (ref_cursor_close c s) = ref_txns s"
  "ref_envs (ref_cursor_close c s) = ref_envs s"
  "ref_txns (snd (ref_cursor_renew t c s)) = ref_txns s"
  "ref_envs (snd (ref_cursor_renew t c s)) = ref_envs s"
  "ref_txns (snd (snd (snd (ref_cursor_get c k v op s)))) = ref_txns s"
  "ref_envs (snd (snd (snd (ref_cursor_get c k v op s)))) = ref_envs s"
  by (auto simp: ref_cursor_open_def ref_cursor_close_def ref_cursor_renew_def ref_cursor_get_def
      ref_txns_def ref_envs_def fun_eq_iff Let_def split: option.splits if_splits prod.splits)

lemma ref_put_snd: "snd (ref_put t d k v s) = s \<or> snd (ref_put t d k v s) = ref_update (\<lambda>D. content_put D k v) t d s"
  by (auto simp: ref_put_def split: option.splits)

lemma ref_del_snd: "snd (ref_del t d k v s) = s \<or> snd (ref_del t d k v s) = ref_update (\<lambda>D. content_del D k v) t d s"
  by (auto simp: ref_del_def split: option.splits)

lemma ref_cursor_del_snd:
  "snd (ref_cursor_del c s) = s \<or> (\<exists>f t d. snd (ref_cursor_del c s) = ref_update f t d s)"
  unfolding ref_cursor_del_def by (simp split: option.split) blast

lemma ref_set_mapsize_handles:
  "ref_txns (ref_set_mapsize p i s) = ref_txns s" "ref_envs (ref_set_mapsize p i s) = ref_envs s"
  by (auto simp: ref_set_mapsize_def ref_txns_def ref_envs_def fun_eq_iff split: option.splits)

lemmas ref_handle_simps =
  ref_txn_end_txns ref_txn_end_envs ref_set_cmp_handles ref_reset_handles ref_renew_handles
  ref_dbi_open_handles ref_cursor_handles ref_set_mapsize_handles

interpretation ref_handles: lmdb_handles ref_lmdb ref_envs ref_txns
proof (unfold_locales, goal_cases)
  case (1 e p e')
  then show ?case by (auto simp: ref_lmdb_def ref_env_create_def ref_envs_def ref_txns_def Let_def fun_eq_iff)
next
  case (2 e rc p e')
  then show ?case by (auto simp: ref_lmdb_def ref_env_create_def Let_def)
next
  case (3 p e)
  then show ?case by (auto simp: ref_lmdb_def ref_env_close_def ref_envs_def ref_txns_def fun_eq_iff)
next
  case (10 p e ro t e')
  then show ?case
    by (auto simp: ref_lmdb_def ref_txn_begin_def ref_envs_def ref_txns_def mdb_codes Let_def fun_eq_iff
        split: option.splits if_splits)
next
  case (11 p ro e rc t e')
  then show ?case by (auto simp: ref_lmdb_def ref_txn_begin_def Let_def split: option.splits if_splits)
next
  case (12 p e)
  then show ?case by (auto simp: ref_lmdb_def ref_txn_begin_def Let_def split: option.splits)
next
  case (13 t e)
  then have "t \<noteq> 0 \<and> r_txns e t \<noteq> None" by (auto simp: ref_txns_def split: if_splits)
  with 13 show ?case by (auto simp: ref_lmdb_def ref_txn_commit_def ref_handle_simps)
next
  case (15 t e)
  then have "t \<noteq> 0" by (auto simp: ref_txns_def split: if_splits)
  with 15 show ?case by (simp add: ref_lmdb_def ref_txn_abort_def ref_handle_simps)
next
  case (23 t d k v e)
  then show ?case using ref_put_snd [of t d k v e] by (auto simp: ref_lmdb_def)
next
  case (24 t d k v e)
  then show ?case using ref_del_snd [of t d k v e] by (auto simp: ref_lmdb_def)
next
  case (29 c e)
  then show ?case using ref_cursor_del_snd [of c e] by (auto simp: ref_lmdb_def)
qed (auto simp: ref_lmdb_def ref_handle_simps ref_env_close_def ref_txn_commit_def ref_txn_abort_def)

lemma ref_put_ok:
  assumes "ref_put t d k v s = (0, s')"
  obtains T E D where "ref_dbi_of s t d = Some (T, E, D)" and "s' = ref_update (\<lambda>D. content_put D k v) t d s"
  using assms that by (auto simp: ref_put_def mdb_codes split: option.splits if_splits)

lemma ref_del_ok:
  assumes "ref_del t d k v s = (0, s')"
  obtains T E D where "ref_dbi_of s t d = Some (T, E, D)" and "s' = ref_update (\<lambda>D. content_del D k v) t d s"
  using assms that by (auto simp: ref_del_def mdb_codes split: option.splits if_splits)

lemma ref_dbi_of_null: "ref_dbi_of s 0 d = None"
  by (auto simp: ref_dbi_of_def split: option.splits)

interpretation ref_store: lmdb_store ref_lmdb ref_envs ref_txns ref_com ref_view ref_writer ref_plain
proof (unfold_locales, goal_cases)
  case (1 p e ro t e')
  then show ?case
    by (auto simp: ref_lmdb_def ref_txn_begin_def ref_abs_defs mdb_codes Let_def fun_eq_iff
        split: option.splits if_splits)
next
  case (2 p e t)
  then show ?case
    by (auto simp: ref_lmdb_def ref_txn_begin_def ref_abs_defs split: option.splits if_splits)
next
  case (3 e t p e')
  then show ?case
    by (auto simp: ref_lmdb_def ref_txn_renew_def ref_abs_defs mdb_codes fun_eq_iff split: option.splits if_splits)
next
  case (4 t e)
  show ?case
    by (auto simp: ref_lmdb_def ref_txn_reset_def ref_com_def ref_plain_def fun_eq_iff split: option.splits if_splits)
next
  case (5 t e)
  show ?case
    by (auto simp: ref_lmdb_def ref_txn_abort_def ref_txn_end_def ref_release_def ref_com_def ref_plain_def Let_def
        fun_eq_iff split: option.splits if_splits)
next
  case (6 t d k v e)
  show ?case using ref_put_snd [of t d k v e] by (auto simp: ref_lmdb_def)
next
  case (7 e t p d k v e')
  then have "ref_put t d k v e = (0, e')" by (simp add: ref_lmdb_def)
  then obtain T E D where "ref_dbi_of e t d = Some (T, E, D)" "e' = ref_update (\<lambda>D. content_put D k v) t d e"
    by (rule ref_put_ok)
  with 7 show ?case by (simp add: ref_update_view ref_dbi_of_plain map_of_content_put)
next
  case (8 t d k v e)
  show ?case using ref_del_snd [of t d k v e] by (auto simp: ref_lmdb_def)
next
  case (9 e t p d k v e')
  then have "ref_del t d k v e = (0, e')" by (simp add: ref_lmdb_def)
  then obtain T E D where "ref_dbi_of e t d = Some (T, E, D)" "e' = ref_update (\<lambda>D. content_del D k v) t d e"
    by (rule ref_del_ok)
  with 9 show ?case by (simp add: ref_update_view ref_dbi_of_plain map_of_content_del)
next
  case (10 e t p e')
  then show ?case
    by (auto simp: ref_lmdb_def ref_txn_commit_def ref_txn_end_def ref_release_def ref_abs_defs mdb_codes Let_def
        fun_eq_iff split: option.splits if_splits)
next
  case (11 t e rc e')
  then show ?case by (auto simp: ref_txn_commit_def split: if_splits)
next
  case (12 d k v e)
  show ?case using ref_dbi_of_null [of e d] by (simp add: ref_put_def mdb_codes)
next
  case (13 d k v e)
  show ?case using ref_dbi_of_null [of e d] by (simp add: ref_del_def mdb_codes)
next
  case (14 d k e)
  show ?case using ref_dbi_of_null [of e d] by (simp add: ref_get_def mdb_codes)
next
  case (15 p ro e rc t e')
  then show ?case by (auto simp: ref_txn_begin_def Let_def split: option.splits if_splits)
next
  case (16 e t p d k rc mv)
  then show ?case
    by (auto simp: ref_lmdb_def ref_get_def ref_dbi_of_plain val_of_def mdb_codes split: option.splits)
qed

end
