(* ===== verification/Lmdb_Safety.thy ===== *)
theory Lmdb_Safety
  imports Lmdb_Cursor Lmdb_Ref
begin

text \<open>
  Ownership of library handles.  Every transaction that is open in the library is held by exactly one
  native object, either a transaction object or the shared read transaction of an environment object,
  and every handle held by an object is open in the library.  The invariant is proved for every
  handler of the LMDB binding from the contract \<open>lmdb_handles\<close> alone.
\<close>

section \<open>Who holds which transaction\<close>

datatype holder = HTxn nat | HEnv nat

fun holds :: "'e world \<Rightarrow> holder \<Rightarrow> (ptr \<times> ptr) option" where
  "holds w (HTxn a) =
     (case w_txns w a of
        Some tw \<Rightarrow> if to_txn tw \<noteq> 0 then Some (to_txn tw, to_env tw) else None
      | None \<Rightarrow> None)"
| "holds w (HEnv a) =
     (case w_envs w a of
        Some ew \<Rightarrow> if eo_read_lock ew \<noteq> 0 then Some (eo_read_lock ew, eo_env ew) else None
      | None \<Rightarrow> None)"

definition owns :: "('h \<Rightarrow> (ptr \<times> ptr) option) \<Rightarrow> (ptr \<rightharpoonup> ptr) \<Rightarrow> bool" where
  "owns H T \<longleftrightarrow>
     (\<forall>h t p. H h = Some (t, p) \<longrightarrow> T t = Some p) \<and>
     (\<forall>h h' t p p'. H h = Some (t, p) \<longrightarrow> H h' = Some (t, p') \<longrightarrow> h = h') \<and>
     (\<forall>t p. T t = Some p \<longrightarrow> (\<exists>h. H h = Some (t, p)))"

lemma ownsI:
  assumes "\<And>h t p. H h = Some (t, p) \<Longrightarrow> T t = Some p"
    and "\<And>h h' t p p'. H h = Some (t, p) \<Longrightarrow> H h' = Some (t, p') \<Longrightarrow> h = h'"
    and "\<And>t p. T t = Some p \<Longrightarrow> \<exists>h. H h = Some (t, p)"
  shows "owns H T"
  unfolding owns_def using assms by blast

lemma owns_add:
  assumes o: "owns H T" and h: "H h = None" and t: "T t = None"
  shows "owns (H(h \<mapsto> (t, p))) (T(t \<mapsto> p))"
proof (rule ownsI)
  fix h1 t1 p1 assume "(H(h \<mapsto> (t, p))) h1 = Some (t1, p1)"
  then show "(T(t \<mapsto> p)) t1 = Some p1"
    using o t by (auto simp: owns_def split: if_splits)
next
  fix h1 h2 t1 p1 p2
  assume a: "(H(h \<mapsto> (t, p))) h1 = Some (t1, p1)" "(H(h \<mapsto> (t, p))) h2 = Some (t1, p2)"
  have no: "H x \<noteq> Some (t, q)" for x q using o t unfolding owns_def by force
  from a no show "h1 = h2" using o unfolding owns_def by (auto split: if_splits)
next
  fix t1 p1 assume "(T(t \<mapsto> p)) t1 = Some p1"
  then show "\<exists>h1. (H(h \<mapsto> (t, p))) h1 = Some (t1, p1)"
    using o h by (cases "t1 = t") (auto simp: owns_def, metis option.distinct(1))
qed

lemma owns_del:
  assumes o: "owns H T" and h: "H h = Some (t, p)"
  shows "owns (H(h := None)) (T(t := None))"
proof (rule ownsI)
  fix h1 t1 p1 assume a: "(H(h := None)) h1 = Some (t1, p1)"
  then have "h1 \<noteq> h" "H h1 = Some (t1, p1)" by (auto split: if_splits)
  moreover from this have "t1 \<noteq> t" using o h unfolding owns_def by blast
  ultimately show "(T(t := None)) t1 = Some p1" using o by (auto simp: owns_def)
next
  fix h1 h2 t1 p1 p2
  assume "(H(h := None)) h1 = Some (t1, p1)" "(H(h := None)) h2 = Some (t1, p2)"
  then show "h1 = h2" using o unfolding owns_def by (auto split: if_splits)
next
  fix t1 p1 assume "(T(t := None)) t1 = Some p1"
  then have "t1 \<noteq> t" "T t1 = Some p1" by (auto split: if_splits)
  moreover from this obtain h1 where "H h1 = Some (t1, p1)" using o unfolding owns_def by blast
  ultimately show "\<exists>h1. (H(h := None)) h1 = Some (t1, p1)" using h by (intro exI [of _ h1]) auto
qed

lemma owns_lookup: "owns H T \<Longrightarrow> H h = Some (t, p) \<Longrightarrow> T t = Some p"
  by (auto simp: owns_def)

section \<open>Environments\<close>

definition envs_ok :: "('e \<Rightarrow> ptr set) \<Rightarrow> 'e world \<Rightarrow> bool" where
  "envs_ok envs w \<longleftrightarrow>
     (\<forall>a ew. w_envs w a = Some ew \<longrightarrow> eo_env ew \<noteq> 0 \<longrightarrow> eo_env ew \<in> envs (w_mdb w)) \<and>
     (\<forall>a b ea eb. w_envs w a = Some ea \<longrightarrow> w_envs w b = Some eb \<longrightarrow> eo_env ea \<noteq> 0 \<longrightarrow> eo_env ea = eo_env eb \<longrightarrow> a = b) \<and>
     (\<forall>a ew. w_envs w a = Some ew \<longrightarrow> eo_read_lock ew \<noteq> 0 \<longrightarrow> eo_env ew \<noteq> 0)"

definition lmdb_inv :: "('e \<Rightarrow> ptr set) \<Rightarrow> ('e \<Rightarrow> ptr \<rightharpoonup> ptr) \<Rightarrow> 'e world \<Rightarrow> bool" where
  "lmdb_inv envs txns w \<longleftrightarrow> owns (holds w) (txns (w_mdb w)) \<and> envs_ok envs w"

lemma holds_cong: "w_txns w' = w_txns w \<Longrightarrow> w_envs w' = w_envs w \<Longrightarrow> holds w' = holds w"
proof (rule ext)
  fix h assume "w_txns w' = w_txns w" "w_envs w' = w_envs w"
  then show "holds w' h = holds w h" by (cases h) auto
qed

lemma holds_txns_update:
  assumes "w_txns w' = (w_txns w)(a := x)" and "w_envs w' = w_envs w"
  shows "holds w' =
     (holds w)(HTxn a := (case x of Some tw \<Rightarrow> if to_txn tw \<noteq> 0 then Some (to_txn tw, to_env tw) else None | None \<Rightarrow> None))"
proof (rule ext)
  fix h from assms show "holds w' h = ((holds w)(HTxn a := (case x of
      Some tw \<Rightarrow> if to_txn tw \<noteq> 0 then Some (to_txn tw, to_env tw) else None | None \<Rightarrow> None))) h"
    by (cases h) auto
qed

lemma holds_envs_update:
  assumes "w_envs w' = (w_envs w)(a := x)" and "w_txns w' = w_txns w"
  shows "holds w' =
     (holds w)(HEnv a := (case x of Some ew \<Rightarrow> if eo_read_lock ew \<noteq> 0 then Some (eo_read_lock ew, eo_env ew) else None | None \<Rightarrow> None))"
proof (rule ext)
  fix h from assms show "holds w' h = ((holds w)(HEnv a := (case x of
      Some ew \<Rightarrow> if eo_read_lock ew \<noteq> 0 then Some (eo_read_lock ew, eo_env ew) else None | None \<Rightarrow> None))) h"
    by (cases h) auto
qed

lemma envs_ok_cong:
  "w_envs w' = w_envs w \<Longrightarrow> envs (w_mdb w') = envs (w_mdb w) \<Longrightarrow> envs_ok envs w' = envs_ok envs w"
  by (simp add: envs_ok_def)

lemma lmdb_inv_cong:
  assumes "w_envs w' = w_envs w" and "w_txns w' = w_txns w"
    and "envs (w_mdb w') = envs (w_mdb w)" and "txns (w_mdb w') = txns (w_mdb w)"
  shows "lmdb_inv envs txns w' = lmdb_inv envs txns w"
  using assms holds_cong [OF assms(2,1)] envs_ok_cong [of w' w envs] by (simp add: lmdb_inv_def)

section \<open>Every handler keeps the invariant\<close>

text \<open>No open transaction object belongs to environment \<open>p\<close>: the condition under
  which \<^verbatim>\<open>lmdb.h\<close> allows an environment to be closed.\<close>

definition no_open_txns :: "'e world \<Rightarrow> ptr \<Rightarrow> bool" where
  "no_open_txns w p \<longleftrightarrow> (\<forall>a tw. w_txns w a = Some tw \<longrightarrow> to_txn tw \<noteq> 0 \<longrightarrow> to_env tw \<noteq> p)"

text \<open>The environment a transaction object was created in is still open.\<close>

definition env_alive :: "'e world \<Rightarrow> ptr \<Rightarrow> bool" where
  "env_alive w p \<longleftrightarrow> p \<noteq> 0 \<and> (\<exists>a ew. w_envs w a = Some ew \<and> eo_env ew = p)"

lemma scope_write_cases:
  assumes "scope_write M arg env w = Inr (tc, w1)"
  shows "(\<not> ts_created tc \<and> w1 = w) \<or>
    (\<exists>rc t e. env \<noteq> 0 \<and> mdb_txn_begin M env False (w_mdb w) = Some (rc, t, e) \<and> ts_created tc \<and>
       \<not> ts_readonly tc \<and> ts_txn tc = (if rc = 0 then t else 0) \<and> w1 = w\<lparr>w_mdb := e\<rparr>)"
proof (cases "IsObject arg")
  case True
  with assms show ?thesis by (auto simp: scope_write_def split: option.splits)
next
  case False
  with assms have ne: "env \<noteq> 0" by (auto simp: scope_write_def split: if_splits)
  from assms False ne obtain rc t e where b: "mdb_txn_begin M env False (w_mdb w) = Some (rc, t, e)"
    by (cases "mdb_txn_begin M env False (w_mdb w)") (auto simp: scope_write_def)
  with assms False ne show ?thesis
    by (intro disjI2 exI [of _ rc] exI [of _ t] exI [of _ e]) (auto simp: scope_write_def)
qed

context lmdb_handles
begin

lemmas frame_laws =
  set_mapsize set_maxdbs env_open reader_check env_sync txn_reset txn_renew dbi_open set_compare
  set_dupsort dbi_close put del cursor_open cursor_close cursor_renew cursor_get cursor_del

abbreviation safe :: "'e world \<Rightarrow> bool" where
  "safe \<equiv> lmdb_inv envs txns"

lemma inv_owns: "safe w \<Longrightarrow> holds w h = Some (t, p) \<Longrightarrow> txns (w_mdb w) t = Some p"
  unfolding lmdb_inv_def by (blast intro: owns_lookup)

lemma inv_env: "safe w \<Longrightarrow> w_envs w a = Some ew \<Longrightarrow> eo_env ew \<noteq> 0 \<Longrightarrow> eo_env ew \<in> envs (w_mdb w)"
  unfolding lmdb_inv_def envs_ok_def by blast

lemma inv_lock:
  "safe w \<Longrightarrow> w_envs w a = Some ew \<Longrightarrow> eo_read_lock ew \<noteq> 0 \<Longrightarrow>
    txns (w_mdb w) (eo_read_lock ew) = Some (eo_env ew) \<and> eo_env ew \<noteq> 0"
  using inv_owns [of w "HEnv a"] unfolding lmdb_inv_def envs_ok_def by auto

lemma safe_same:
  assumes "safe w" and "w_envs w' = w_envs w" and "w_txns w' = w_txns w"
    and "envs (w_mdb w') = envs (w_mdb w)" and "txns (w_mdb w') = txns (w_mdb w)"
  shows "safe w'"
  using assms lmdb_inv_cong [of w' w envs txns] by simp

lemma safe_txn_add:
  assumes "safe w" and "holds w (HTxn a) = None" and "to_txn tw \<noteq> 0"
    and "txns (w_mdb w) (to_txn tw) = None" and "txns e = (txns (w_mdb w))(to_txn tw \<mapsto> to_env tw)"
    and "envs e = envs (w_mdb w)"
  shows "safe (w\<lparr>w_mdb := e, w_txns := (w_txns w)(a \<mapsto> tw)\<rparr>)"
  using assms owns_add [of "holds w" "txns (w_mdb w)" "HTxn a" "to_txn tw" "to_env tw"]
    holds_txns_update [of "w\<lparr>w_mdb := e, w_txns := (w_txns w)(a \<mapsto> tw)\<rparr>" w a "Some tw"]
  by (simp add: lmdb_inv_def envs_ok_def)

lemma safe_txn_remove:
  assumes "safe w" and "w_txns w a = Some tw" and "to_txn tw \<noteq> 0"
    and "txns e = (txns (w_mdb w))(to_txn tw := None)" and "envs e = envs (w_mdb w)"
    and "x = None \<or> x = Some (tw\<lparr>to_txn := 0\<rparr>)"
  shows "safe (w\<lparr>w_mdb := e, w_txns := (w_txns w)(a := x)\<rparr>)"
  using assms owns_del [of "holds w" "txns (w_mdb w)" "HTxn a" "to_txn tw" "to_env tw"]
    holds_txns_update [of "w\<lparr>w_mdb := e, w_txns := (w_txns w)(a := x)\<rparr>" w a x]
  by (auto simp: lmdb_inv_def envs_ok_def)

lemma safe_lock_add:
  assumes "safe w" and "w_envs w a = Some ew" and "eo_read_lock ew = 0" and "eo_env ew \<noteq> 0" and "t \<noteq> 0"
    and "txns (w_mdb w) t = None" and "txns e = (txns (w_mdb w))(t \<mapsto> eo_env ew)" and "envs e = envs (w_mdb w)"
  shows "safe (w\<lparr>w_mdb := e, w_envs := (w_envs w)(a \<mapsto> ew\<lparr>eo_read_lock := t\<rparr>)\<rparr>)"
proof -
  let ?w = "w\<lparr>w_mdb := e, w_envs := (w_envs w)(a \<mapsto> ew\<lparr>eo_read_lock := t\<rparr>)\<rparr>"
  have "holds ?w = (holds w)(HEnv a \<mapsto> (t, eo_env ew))"
    using assms holds_envs_update [of ?w w a] by simp
  then have "owns (holds ?w) (txns e)"
    using assms owns_add [of "holds w" "txns (w_mdb w)" "HEnv a" t "eo_env ew"] by (simp add: lmdb_inv_def)
  moreover have "envs_ok envs ?w"
    using assms unfolding lmdb_inv_def envs_ok_def by (auto split: if_splits)
  ultimately show ?thesis by (simp add: lmdb_inv_def)
qed

lemma safe_lock_keep:
  assumes "safe w" and "w_envs w a = Some ew" and "eo_read_lock ew = 0"
    and "txns e = txns (w_mdb w)" and "envs e = envs (w_mdb w)"
  shows "safe (w\<lparr>w_mdb := e, w_envs := (w_envs w)(a \<mapsto> ew\<lparr>eo_read_lock := 0\<rparr>)\<rparr>)"
  using assms by (intro safe_same [OF assms(1)]) (auto simp: fun_upd_idem)

text \<open>Closing an environment object: its read transaction is aborted first.\<close>

lemma safe_env_remove:
  assumes w: "safe w" and a: "w_envs w a = Some ew" and ne: "eo_env ew \<noteq> 0" and no: "no_open_txns w (eo_env ew)"
    and x: "x = None \<or> x = Some (ew\<lparr>eo_env := 0, eo_read_lock := 0\<rparr>)"
    and e1: "e1 = (if eo_read_lock ew \<noteq> 0 then mdb_txn_abort M (eo_read_lock ew) (w_mdb w) else w_mdb w)"
  shows "safe (w\<lparr>w_mdb := mdb_env_close M (eo_env ew) e1, w_envs := (w_envs w)(a := x)\<rparr>)"
proof -
  let ?w = "w\<lparr>w_mdb := mdb_env_close M (eo_env ew) e1, w_envs := (w_envs w)(a := x)\<rparr>"
  let ?T = "if eo_read_lock ew \<noteq> 0 then (txns (w_mdb w))(eo_read_lock ew := None) else txns (w_mdb w)"
  have lock: "eo_read_lock ew \<noteq> 0 \<Longrightarrow> txns (w_mdb w) (eo_read_lock ew) = Some (eo_env ew)"
    using inv_lock [OF w a] by simp
  have e1': "txns e1 = ?T" "envs e1 = envs (w_mdb w)"
    using e1 lock txn_abort [of "eo_read_lock ew" "w_mdb w"] by (auto simp: dom_def)
  have H: "holds ?w = (holds w)(HEnv a := None)"
    using x holds_envs_update [of ?w w a x] by auto
  have o: "owns (holds ?w) (txns e1)"
  proof (cases "eo_read_lock ew = 0")
    case True
    then have "holds w (HEnv a) = None" using a by simp
    with True w e1' show ?thesis by (simp add: H lmdb_inv_def fun_upd_idem)
  next
    case False
    then have "holds w (HEnv a) = Some (eo_read_lock ew, eo_env ew)" using a by simp
    with False w e1' show ?thesis by (auto simp: H lmdb_inv_def intro: owns_del)
  qed
  have "txns e1 t \<noteq> Some (eo_env ew)" for t
  proof
    assume "txns e1 t = Some (eo_env ew)"
    then obtain h where h: "holds ?w h = Some (t, eo_env ew)" using o unfolding owns_def by blast
    show False
    proof (cases h)
      case (HTxn b)
      with h no H show False by (auto simp: no_open_txns_def split: option.splits if_splits)
    next
      case (HEnv b)
      with h H have "b \<noteq> a" and "\<exists>eb. w_envs w b = Some eb \<and> eo_env eb = eo_env ew"
        by (auto split: option.splits if_splits)
      with w a ne show False unfolding lmdb_inv_def envs_ok_def by metis
    qed
  qed
  then have close: "envs (mdb_env_close M (eo_env ew) e1) = envs (w_mdb w) - {eo_env ew}"
      "txns (mdb_env_close M (eo_env ew) e1) = txns e1"
    using env_close [of "eo_env ew" e1] inv_env [OF w a ne] e1' by auto
  have "envs_ok envs ?w"
    using w a ne x close unfolding lmdb_inv_def envs_ok_def
    by (auto split: if_splits)
  then show ?thesis using o close by (simp add: lmdb_inv_def)
qed

lemma safe_env_ctor:
  assumes "safe w" and "w_envs w this = None"
  shows "safe (snd (env_ctor M this w))"
proof -
  obtain rc p e where c: "mdb_env_create M (w_mdb w) = (rc, p, e)" by (metis prod_cases3)
  show ?thesis
  proof (cases "rc = 0")
    case True
    let ?w = "w\<lparr>w_mdb := e, w_envs := (w_envs w)(this \<mapsto> \<lparr>eo_env = p, eo_read_lock = 0\<rparr>)\<rparr>"
    have new: "p \<noteq> 0" "p \<notin> envs (w_mdb w)" "envs e = insert p (envs (w_mdb w))" "txns e = txns (w_mdb w)"
      using env_create [of "w_mdb w" p e] c True by auto
    have "holds ?w = holds w"
      using assms holds_envs_update [of ?w w this] by (simp add: fun_upd_idem)
    then have "owns (holds ?w) (txns e)" using assms new by (simp add: lmdb_inv_def)
    moreover have "envs_ok envs ?w"
      using assms new unfolding lmdb_inv_def envs_ok_def by (auto split: if_splits)
    ultimately show ?thesis using c True by (simp add: env_ctor_def lmdb_inv_def)
  next
    case False
    then show ?thesis
      using c env_create_fail [of "w_mdb w" rc p e]
      by (auto simp: env_ctor_def env_close_null intro: safe_same [OF assms(1)])
  qed
qed

lemma safe_env_methods:
  assumes "safe w"
  shows "safe (snd (env_setMapSize M this arg w))" and "safe (snd (env_setMaxDbs M V this arg w))"
    and "safe (snd (env_sync this cb w))"
  using assms
  by (auto simp: env_handler_defs frame_laws Let_def split: option.splits js.splits
      intro: safe_same [OF assms])

lemma safe_env_open:
  assumes w: "safe w" and no: "\<And>ew. w_envs w this = Some ew \<Longrightarrow> eo_read_lock ew = 0 \<and> no_open_txns w (eo_env ew)"
  shows "safe (snd (env_open M V this arg w))"
proof (cases "w_envs w this")
  case None
  then show ?thesis using w by (simp add: env_handler_defs)
next
  case (Some ew)
  obtain rc e where o: "mdb_env_open M (eo_env ew) (ToString V arg) (w_mdb w) = (rc, e)" by fastforce
  have same: "envs e = envs (w_mdb w)" "txns e = txns (w_mdb w)"
    using env_open [of "eo_env ew" "ToString V arg" "w_mdb w"] o by auto
  have s1: "safe (w\<lparr>w_mdb := e\<rparr>)" using same by (auto intro: safe_same [OF w])
  show ?thesis
  proof (cases "eo_env ew = 0 \<or> rc = 0")
    case True
    then show ?thesis
      using w Some o same by (auto simp: env_handler_defs frame_laws intro: safe_same [OF w])
  next
    case False
    have "safe (w\<lparr>w_mdb := e\<rparr>\<lparr>w_mdb := mdb_env_close M (eo_env ew) e,
        w_envs := (w_envs w)(this := Some (ew\<lparr>eo_env := 0, eo_read_lock := 0\<rparr>))\<rparr>)"
      using safe_env_remove [OF s1, of this ew "Some (ew\<lparr>eo_env := 0, eo_read_lock := 0\<rparr>)" e] Some False no
      by (simp add: no_open_txns_def)
    moreover have "ew\<lparr>eo_env := 0, eo_read_lock := 0\<rparr> = ew\<lparr>eo_env := 0\<rparr>" using no [OF Some] by (cases ew) simp
    ultimately show ?thesis using Some False o by (simp add: env_handler_defs)
  qed
qed

lemma safe_env_close:
  assumes w: "safe w" and no: "\<And>ew. w_envs w this = Some ew \<Longrightarrow> no_open_txns w (eo_env ew)"
  shows "safe (snd (env_close M this w))"
proof (cases "w_envs w this")
  case None
  then show ?thesis using w by (simp add: env_handler_defs)
next
  case (Some ew)
  show ?thesis
  proof (cases "eo_env ew = 0")
    case True
    then show ?thesis using w Some by (simp add: env_handler_defs)
  next
    case False
    from safe_env_remove [OF w Some False no [OF Some] _ refl, of "Some (ew\<lparr>eo_env := 0, eo_read_lock := 0\<rparr>)"]
    show ?thesis using False Some by (simp add: env_handler_defs Let_def)
  qed
qed

lemma safe_env_dtor:
  assumes w: "safe w" and no: "\<And>ew. w_envs w this = Some ew \<Longrightarrow> no_open_txns w (eo_env ew)"
  shows "safe (env_dtor M this w)"
proof (cases "w_envs w this")
  case None
  then show ?thesis using w by (simp add: env_handler_defs)
next
  case (Some ew)
  show ?thesis
  proof (cases "eo_env ew = 0")
    case True
    then have lock: "eo_read_lock ew = 0" using inv_lock [OF w Some] by auto
    let ?w = "w\<lparr>w_envs := (w_envs w)(this := None)\<rparr>"
    have "holds ?w = holds w" using Some lock holds_envs_update [of ?w w this None] by (simp add: fun_upd_idem)
    then have "safe ?w" using w unfolding lmdb_inv_def envs_ok_def by (auto split: if_splits)
    then show ?thesis using True lock Some by (simp add: env_dtor_def Let_def)
  next
    case False
    from safe_env_remove [OF w Some False no [OF Some] _ refl, of None]
    show ?thesis using False Some by (simp add: env_dtor_def Let_def)
  qed
qed

lemma safe_txn_ctor:
  assumes w: "safe w" and fresh: "w_txns w this = None"
  shows "safe (snd (txn_ctor M this arg ro w))"
proof (cases "unwrap (w_envs w) arg")
  case None
  then show ?thesis using w by (simp add: txn_ctor_def)
next
  case (Some q)
  obtain ea ew where q: "q = (ea, ew)" by fastforce
  then have ea: "w_envs w ea = Some ew" using Some by (cases arg) auto
  show ?thesis
  proof (cases "eo_env ew = 0 \<or> mdb_txn_begin M (eo_env ew) ro (w_mdb w) = None")
    case True
    then show ?thesis using w Some q by (auto simp: txn_ctor_def)
  next
    case False
    then obtain rc t e where b: "mdb_txn_begin M (eo_env ew) ro (w_mdb w) = Some (rc, t, e)" by auto
    have env: "eo_env ew \<in> envs (w_mdb w)" using inv_env [OF w ea] False by simp
    show ?thesis
    proof (cases "rc = 0")
      case True
      with b txn_begin [OF env, of ro t e] fresh
      have "safe (w\<lparr>w_mdb := e, w_txns := (w_txns w)(this \<mapsto> \<lparr>to_readonly = ro, to_txn = t, to_env = eo_env ew\<rparr>)\<rparr>)"
        by (intro safe_txn_add w) auto
      then show ?thesis using Some q b True False by (simp add: txn_ctor_def)
    next
      case rc: False
      have "txns e = txns (w_mdb w) \<and> envs e = envs (w_mdb w)" using b rc txn_begin_fail by blast
      then have "safe (w\<lparr>w_mdb := e\<rparr>)" by (auto intro: safe_same [OF w])
      then show ?thesis using Some q b rc False by (simp add: txn_ctor_def)
    qed
  qed
qed

lemma safe_txn_end:
  assumes w: "safe w"
  shows "safe (snd (txn_commit M this w))" and "safe (snd (txn_abort M this w))" and "safe (txn_dtor M this w)"
proof -
  have live: "to_txn tw \<in> dom (txns (w_mdb w))" if "w_txns w this = Some tw" "to_txn tw \<noteq> 0" for tw
    using inv_owns [OF w, of "HTxn this"] that by (auto simp: dom_def)
  show "safe (snd (txn_commit M this w))"
    using w live txn_commit by (auto simp: txn_commit_def case_prod_beta split: option.splits intro!: safe_txn_remove)
  show "safe (snd (txn_abort M this w))"
    using w live txn_abort by (auto simp: txn_abort_def split: option.splits intro!: safe_txn_remove)
  have "safe (w\<lparr>w_txns := (w_txns w)(this := None)\<rparr>)" if "w_txns w this = Some tw" "to_txn tw = 0" for tw
  proof -
    have "holds (w\<lparr>w_txns := (w_txns w)(this := None)\<rparr>) = holds w"
      using that holds_txns_update [of "w\<lparr>w_txns := (w_txns w)(this := None)\<rparr>" w this None] by (simp add: fun_upd_idem)
    then show ?thesis using w by (simp add: lmdb_inv_def envs_ok_def)
  qed
  then show "safe (txn_dtor M this w)"
    using w live txn_abort by (auto simp: txn_dtor_def Let_def split: option.splits intro!: safe_txn_remove)
qed

lemma safe_txn_reset:
  assumes "safe w"
  shows "safe (snd (txn_reset M this w))"
  using assms by (auto simp: txn_reset_def frame_laws split: option.splits intro: safe_same [OF assms])

lemma safe_txn_renew:
  assumes w: "safe w" and alive: "\<And>tw. w_txns w this = Some tw \<Longrightarrow> env_alive w (to_env tw)"
  shows "safe (snd (txn_renew M this w))"
proof (cases "w_txns w this")
  case None
  then show ?thesis using w by (simp add: txn_renew_def)
next
  case (Some tw)
  obtain a ew where "to_env tw \<noteq> 0" "w_envs w a = Some ew" "eo_env ew = to_env tw"
    using alive [OF Some] by (auto simp: env_alive_def)
  then have env: "to_env tw \<in> envs (w_mdb w)" using inv_env [OF w, of a ew] by simp
  show ?thesis
  proof (cases "to_readonly tw \<or> to_txn tw \<noteq> 0 \<or> mdb_txn_begin M (to_env tw) False (w_mdb w) = None")
    case True
    then show ?thesis using w Some
      by (auto simp: txn_renew_def case_prod_beta frame_laws intro: safe_same [OF w])
  next
    case False
    then obtain rc t e where b: "mdb_txn_begin M (to_env tw) False (w_mdb w) = Some (rc, t, e)" by auto
    show ?thesis
    proof (cases "rc = 0")
      case True
      with b txn_begin [OF env, of False t e] Some False
      have "safe (w\<lparr>w_mdb := e, w_txns := (w_txns w)(this \<mapsto> tw\<lparr>to_txn := t\<rparr>)\<rparr>)"
        by (intro safe_txn_add w) auto
      then show ?thesis using Some b True False by (simp add: txn_renew_def)
    next
      case rc: False
      have "txns e = txns (w_mdb w) \<and> envs e = envs (w_mdb w)" using b rc txn_begin_fail by blast
      then have "safe (w\<lparr>w_mdb := e\<rparr>)" by (auto intro: safe_same [OF w])
      then show ?thesis using Some b rc False by (simp add: txn_renew_def)
    qed
  qed
qed

subsection \<open>Scopes\<close>

lemma safe_require_readlock:
  assumes w: "safe w" and r: "require_readlock M a w = Some (t, w')"
  shows "safe w'"
proof -
  from r obtain ew where ew: "w_envs w a = Some ew" by (auto simp: require_readlock_def split: option.splits)
  show ?thesis
  proof (cases "eo_read_lock ew = 0")
    case False
    with r ew show ?thesis
      by (auto simp: require_readlock_def case_prod_beta frame_laws intro: safe_same [OF w])
  next
    case True
    with r ew obtain rc u e where ne: "eo_env ew \<noteq> 0" and b: "mdb_txn_begin M (eo_env ew) True (w_mdb w) = Some (rc, u, e)"
      and w': "w' = w\<lparr>w_mdb := e, w_envs := (w_envs w)(a \<mapsto> ew\<lparr>eo_read_lock := if rc = 0 then u else 0\<rparr>)\<rparr>"
      by (auto simp: require_readlock_def Let_def split: option.splits if_splits)
    show ?thesis
    proof (cases "rc = 0")
      case rc: True
      with b txn_begin [OF inv_env [OF w ew ne], of True u e]
      show ?thesis unfolding w' by (simp add: safe_lock_add [OF w ew True ne])
    next
      case rc: False
      have "txns e = txns (w_mdb w) \<and> envs e = envs (w_mdb w)" using b rc txn_begin_fail by blast
      then show ?thesis unfolding w' using rc by (simp add: safe_lock_keep [OF w ew True])
    qed
  qed
qed

lemma safe_release_readlock:
  assumes "safe w"
  shows "safe (release_readlock M a w)"
  using assms by (auto simp: release_readlock_def frame_laws split: option.splits intro: safe_same [OF assms])

lemma safe_scope_read:
  assumes w: "safe w" and s: "scope_read M arg a w = Inr (tc, w1)"
  shows "safe w1"
  using s safe_require_readlock [OF w, of a] w
  by (auto simp: scope_read_def split: if_splits option.splits)

lemma safe_scope_read_dtor:
  assumes "safe w" and "scope_read M arg a w0 = Inr (tc, w1)"
  shows "safe (scope_dtor M tc w)"
  using assms safe_release_readlock
  by (auto simp: scope_read_def scope_dtor_def split: if_splits option.splits)

text \<open>A write scope leaves no transaction behind, whichever way it ends.\<close>

lemma scope_write_dtor:
  assumes env: "env = 0 \<or> env \<in> envs (w_mdb w)" and s: "scope_write M arg env w = Inr (tc, w1)"
    and e: "txns e = txns (w_mdb w1)" "envs e = envs (w_mdb w1)"
    and tc: "tc2 = tc \<or> tc2 = tc\<lparr>ts_commit := True\<rparr>"
    and w2: "w2 = scope_dtor M tc2 (w1\<lparr>w_mdb := e\<rparr>)"
  shows "txns (w_mdb w2) = txns (w_mdb w) \<and> envs (w_mdb w2) = envs (w_mdb w) \<and> w_envs w2 = w_envs w \<and> w_txns w2 = w_txns w"
  using scope_write_cases [OF s]
proof (elim disjE exE conjE)
  assume "\<not> ts_created tc" "w1 = w"
  then show ?thesis using e tc unfolding w2 by (elim disjE) (simp_all add: scope_dtor_def)
next
  fix rc t e1
  assume b: "env \<noteq> 0" "mdb_txn_begin M env False (w_mdb w) = Some (rc, t, e1)"
    and tc1: "ts_created tc" "\<not> ts_readonly tc" "ts_txn tc = (if rc = 0 then t else 0)" and w1: "w1 = w\<lparr>w_mdb := e1\<rparr>"
  show ?thesis
  proof (cases "rc = 0")
    case True
    have n: "t \<noteq> 0 \<and> txns (w_mdb w) t = None \<and> txns e1 = (txns (w_mdb w))(t \<mapsto> env) \<and> envs e1 = envs (w_mdb w)"
      using b env True txn_begin [of env "w_mdb w" False t e1] by simp
    then have "t \<in> dom (txns e)" using e w1 by simp
    then have "txns (mdb_txn_abort M t e) = txns (w_mdb w) \<and> envs (mdb_txn_abort M t e) = envs (w_mdb w)"
      "txns (snd (mdb_txn_commit M t e)) = txns (w_mdb w) \<and> envs (snd (mdb_txn_commit M t e)) = envs (w_mdb w)"
      using n e w1 txn_abort [of t e] txn_commit [of t e] by (simp_all add: fun_upd_idem)
    then show ?thesis using True tc tc1 w1 unfolding w2 by (elim disjE) (simp_all add: scope_dtor_def)
  next
    case False
    have "txns e1 = txns (w_mdb w) \<and> envs e1 = envs (w_mdb w)" using b False txn_begin_fail by blast
    then show ?thesis using False tc tc1 e w1 unfolding w2
      by (elim disjE) (simp_all add: scope_dtor_def txn_abort_null txn_commit_null)
  qed
qed

subsection \<open>Databases and cursors\<close>

lemma set_cmp_frame:
  "txns (set_cmp M K t d e) = txns e \<and> envs (set_cmp M K t d e) = envs e"
  "txns (set_dup_cmp M K t d e) = txns e \<and> envs (set_dup_cmp M K t d e) = envs e"
  by (cases K; simp add: frame_laws)+

lemma safe_lmdb_ctor:
  assumes w: "safe w"
  shows "safe (snd (lmdb_ctor M V K T this arg options w))"
proof (cases "unwrap (w_envs w) arg")
  case None
  then show ?thesis using w by (simp add: lmdb_ctor_def)
next
  case (Some q)
  obtain ea ew where q: "q = (ea, ew)" by fastforce
  then have ea: "w_envs w ea = Some ew" using Some by (cases arg) auto
  show ?thesis
  proof (cases "options = None \<or> eo_env ew = 0 \<or> mdb_txn_begin M (eo_env ew) False (w_mdb w) = None")
    case True
    then show ?thesis using w Some q by (auto simp: lmdb_ctor_def Let_def split: option.splits)
  next
    case False
    then obtain opts rc t e where opt: "options = Some opts" "eo_env ew \<noteq> 0"
      and b: "mdb_txn_begin M (eo_env ew) False (w_mdb w) = Some (rc, t, e)" by auto
    have fail: "rc \<noteq> 0 \<Longrightarrow> txns e = txns (w_mdb w) \<and> envs e = envs (w_mdb w)" using b txn_begin_fail by blast
    have ok: "rc = 0 \<Longrightarrow> txns (w_mdb w) t = None \<and> txns e = (txns (w_mdb w))(t \<mapsto> eo_env ew) \<and> envs e = envs (w_mdb w)"
      using b txn_begin [OF inv_env [OF w ea opt(2)], of False t e] by simp
    have undo: "txns (mdb_txn_abort M t x) = txns (w_mdb w) \<and> envs (mdb_txn_abort M t x) = envs (w_mdb w) \<and>
        txns (snd (mdb_txn_commit M t x)) = txns (w_mdb w) \<and> envs (snd (mdb_txn_commit M t x)) = envs (w_mdb w)"
      if "rc = 0" "txns x = txns e" "envs x = envs e" for x
      using that ok txn_abort [of t x] txn_commit [of t x] by (simp add: fun_upd_idem)
    obtain rc1 dbi e1 where d: "mdb_dbi_open M t (ToString V (opt_name opts)) (opt_allowDup opts) e = (rc1, dbi, e1)"
      by (metis prod_cases3)
    have d1: "txns e1 = txns e" "envs e1 = envs e"
      using dbi_open [of t "ToString V (opt_name opts)" "opt_allowDup opts" e] by (simp_all add: d)
    show ?thesis
      by (rule safe_same [OF w];
          cases "rc = 0"; cases "rc1 = 0"; cases "opt_allowDup opts";
          use Some q opt b d d1 fail in \<open>simp add: lmdb_ctor_def Let_def case_prod_beta set_cmp_frame undo\<close>)
  qed
qed

lemma safe_lmdb_close:
  assumes "safe w"
  shows "safe (snd (lmdb_close M this w))"
  using assms by (auto simp: lmdb_close_def Let_def frame_laws split: option.splits intro: safe_same [OF assms])

lemma safe_lmdb_get:
  assumes w: "safe w"
  shows "safe (snd (lmdb_get M V g this k targ w))"
  using w by (auto simp: lmdb_get_def case_prod_beta split: option.splits sum.splits
      intro: safe_scope_read_dtor [OF safe_scope_read [OF w]])

lemma safe_write_op:
  assumes w: "safe w" and env: "w_envs w a = Some ew" and s: "scope_write M targ (eo_env ew) w = Inr (tc, w1)"
    and e: "txns e = txns (w_mdb w1)" "envs e = envs (w_mdb w1)"
    and tc: "tc2 = tc \<or> tc2 = tc\<lparr>ts_commit := True\<rparr>"
  shows "safe (scope_dtor M tc2 (w1\<lparr>w_mdb := e\<rparr>))"
proof -
  have "eo_env ew = 0 \<or> eo_env ew \<in> envs (w_mdb w)" using inv_env [OF w env] by blast
  from scope_write_dtor [OF this s e tc refl] show ?thesis by (intro safe_same [OF w]) auto
qed

lemma safe_lmdb_put:
  assumes w: "safe w"
  shows "safe (snd (lmdb_put M V this k v targ w))"
  using w by (auto simp: lmdb_put_def case_prod_beta Let_def frame_laws split: option.splits sum.splits
      intro!: safe_write_op [OF w])

lemma safe_lmdb_del:
  assumes w: "safe w"
  shows "safe (snd (lmdb_del M V this k v targ w))"
  using w by (auto simp: lmdb_del_def case_prod_beta Let_def frame_laws split: option.splits sum.splits
      intro!: safe_write_op [OF w])

lemma safe_exists_cursor:
  assumes w: "safe w"
  shows "safe (snd (exists_cursor M this dw tc w))"
  using w by (auto simp: exists_cursor_def case_prod_beta Let_def frame_laws intro!: safe_same [OF w])

lemma safe_lmdb_exists:
  assumes w: "safe w"
  shows "safe (snd (lmdb_exists M V this k v targ w))"
proof -
  have "safe (scope_dtor M tc (snd (exists_cursor M this dw tc w1)\<lparr>w_mdb := e\<rparr>))"
    if s: "scope_read M targ a w = Inr (tc, w1)"
      and e: "txns e = txns (w_mdb (snd (exists_cursor M this dw tc w1)))"
        "envs e = envs (w_mdb (snd (exists_cursor M this dw tc w1)))" for a tc w1 dw e
  proof -
    have c: "safe (snd (exists_cursor M this dw tc w1))"
      by (rule safe_exists_cursor [OF safe_scope_read [OF w s]])
    have "safe (snd (exists_cursor M this dw tc w1)\<lparr>w_mdb := e\<rparr>)"
      using e by (intro safe_same [OF c]) auto
    then show ?thesis by (rule safe_scope_read_dtor [OF _ s])
  qed
  then show ?thesis
    using w by (auto simp: lmdb_exists_def case_prod_beta Let_def frame_laws split: option.splits sum.splits)
qed

lemma safe_lmdb_dtor:
  assumes "safe w"
  shows "safe (lmdb_dtor M this w)"
  using assms by (auto simp: lmdb_dtor_def Let_def frame_laws split: option.splits intro!: safe_same [OF assms])

lemma safe_cursor_handlers:
  assumes "safe w"
  shows "safe (snd (cursor_ctor M K T this darg targ w))" and "safe (snd (cursor_close M this w))"
    and "safe (snd (cursor_del M this w))" and "safe (snd (cursorOp M OP this w))"
    and "safe (snd (cursorKeyOp M V OP this k w))" and "safe (snd (cursorKeyValOp M V OP this k v w))"
    and "safe (snd (cursor_key M g this w))" and "safe (snd (cursor_value M g this w))"
    and "safe (cursor_dtor M this w)"
  using assms
  by (auto simp: cursor_handler_defs case_prod_beta Let_def frame_laws split: option.splits
      intro!: safe_same [OF assms])

end

end
