(* ===== verification/Lmdb_System.thy ===== *)
theory Lmdb_System
  imports Lmdb_Safety
begin

text \<open>
  The LMDB binding as a whole: the calls a script can make, what each does to the world, and the
  worlds that can be reached.  \<open>lmdb_run\<close> dispatches a call to its handler;
  \<open>lmdb_allowed\<close> are the conditions \<^verbatim>\<open>lmdb.h\<close> puts on the
  caller (an environment is closed only when its transactions are finished, and its handle is not
  used afterwards) together with freshness of new objects.
\<close>

section \<open>Calls\<close>

datatype lmdb_call =
    EnvNew nat | EnvSetMapSize nat js | EnvSetMaxDbs nat js | EnvOpen nat js | EnvClose nat
  | EnvSync nat nat | EnvSyncDone nat | EnvGc nat
  | TxnNew nat js bool | TxnCommit nat | TxnAbort nat | TxnReset nat | TxnRenew nat | TxnGc nat
  | DbNew kv_type kv_type nat js "db_options option" | DbClose nat | DbGet nat js js
  | DbPut nat js js js | DbDel nat js js js | DbExists nat js js js | DbGc nat
  | CurNew kv_type kv_type nat js js | CurClose nat | CurDel nat | CurMove cursor_op nat
  | CurSeek nat "js list" | CurGte nat "js list" | CurKey nat | CurValue nat | CurGc nat

text \<open>\<open>EnvSyncDone i\<close>: the thread pool has run the queued request number
  \<open>i\<close> and the event loop calls back.  \<open>EnvGc\<close>, \<open>TxnGc\<close>,
  \<open>DbGc\<close>, \<open>CurGc\<close>: the garbage collector deletes the object.\<close>

definition sync_done :: "'e mdb \<Rightarrow> nat \<Rightarrow> 'e world \<Rightarrow> outcome \<times> 'e world" where
  "sync_done M i w =
     (if i < length (w_queue w)
      then (case sync_cb M (w_queue w ! i) (w_mdb w) of
              (d, e) \<Rightarrow>
                (case after_sync_cb d of
                   (_, Inl err) \<Rightarrow> Throw err
                 | (_, Inr j) \<Rightarrow> Return j,
                 w\<lparr>w_mdb := e, w_queue := take i (w_queue w) @ drop (Suc i) (w_queue w)\<rparr>))
      else (Undef, w))"

fun lmdb_run :: "'e mdb \<Rightarrow> v8 \<Rightarrow> (nat \<Rightarrow> bytes) \<Rightarrow> lmdb_call \<Rightarrow> 'e world \<Rightarrow> outcome \<times> 'e world" where
  "lmdb_run M V g (EnvNew a) w = env_ctor M a w"
| "lmdb_run M V g (EnvSetMapSize a x) w = env_setMapSize M a x w"
| "lmdb_run M V g (EnvSetMaxDbs a x) w = env_setMaxDbs M V a x w"
| "lmdb_run M V g (EnvOpen a x) w = env_open M V a x w"
| "lmdb_run M V g (EnvClose a) w = env_close M a w"
| "lmdb_run M V g (EnvSync a c) w = env_sync a c w"
| "lmdb_run M V g (EnvSyncDone i) w = sync_done M i w"
| "lmdb_run M V g (EnvGc a) w = (Return JUndefined, env_dtor M a w)"
| "lmdb_run M V g (TxnNew a x ro) w = txn_ctor M a x ro w"
| "lmdb_run M V g (TxnCommit a) w = txn_commit M a w"
| "lmdb_run M V g (TxnAbort a) w = txn_abort M a w"
| "lmdb_run M V g (TxnReset a) w = txn_reset M a w"
| "lmdb_run M V g (TxnRenew a) w = txn_renew M a w"
| "lmdb_run M V g (TxnGc a) w = (Return JUndefined, txn_dtor M a w)"
| "lmdb_run M V g (DbNew K T a x opts) w = lmdb_ctor M V K T a x opts w"
| "lmdb_run M V g (DbClose a) w = lmdb_close M a w"
| "lmdb_run M V g (DbGet a k t) w = lmdb_get M V g a k t w"
| "lmdb_run M V g (DbPut a k v t) w = lmdb_put M V a k v t w"
| "lmdb_run M V g (DbDel a k v t) w = lmdb_del M V a k v t w"
| "lmdb_run M V g (DbExists a k v t) w = lmdb_exists M V a k v t w"
| "lmdb_run M V g (DbGc a) w = (Return JUndefined, lmdb_dtor M a w)"
| "lmdb_run M V g (CurNew K T a d t) w = cursor_ctor M K T a d t w"
| "lmdb_run M V g (CurClose a) w = cursor_close M a w"
| "lmdb_run M V g (CurDel a) w = cursor_del M a w"
| "lmdb_run M V g (CurMove OP a) w = cursorOp M OP a w"
| "lmdb_run M V g (CurSeek a xs) w = cursor_seek M V a xs w"
| "lmdb_run M V g (CurGte a xs) w = cursor_gte M V a xs w"
| "lmdb_run M V g (CurKey a) w = cursor_key M g a w"
| "lmdb_run M V g (CurValue a) w = cursor_value M g a w"
| "lmdb_run M V g (CurGc a) w = (Return JUndefined, cursor_dtor M a w)"

definition env_idle :: "'e world \<Rightarrow> nat \<Rightarrow> bool" where
  "env_idle w a \<longleftrightarrow> (\<forall>ew. w_envs w a = Some ew \<longrightarrow> no_open_txns w (eo_env ew))"

fun lmdb_allowed :: "lmdb_call \<Rightarrow> 'e world \<Rightarrow> bool" where
  "lmdb_allowed (EnvNew a) w \<longleftrightarrow> w_envs w a = None"
| "lmdb_allowed (EnvOpen a x) w \<longleftrightarrow> env_idle w a \<and> (\<forall>ew. w_envs w a = Some ew \<longrightarrow> eo_read_lock ew = 0)"
| "lmdb_allowed (EnvClose a) w \<longleftrightarrow> env_idle w a"
| "lmdb_allowed (EnvGc a) w \<longleftrightarrow> env_idle w a"
| "lmdb_allowed (EnvSyncDone i) w \<longleftrightarrow> i < length (w_queue w) \<and> env_alive w (sy_dbenv (w_queue w ! i))"
| "lmdb_allowed (TxnNew a x ro) w \<longleftrightarrow> w_txns w a = None"
| "lmdb_allowed (TxnRenew a) w \<longleftrightarrow> (\<forall>tw. w_txns w a = Some tw \<longrightarrow> env_alive w (to_env tw))"
| "lmdb_allowed _ w \<longleftrightarrow> True"

definition lmdb_init :: "'e \<Rightarrow> 'e world" where
  "lmdb_init e = \<lparr>w_mdb = e, w_envs = Map.empty, w_txns = Map.empty, w_dbs = Map.empty, w_cursors = Map.empty, w_queue = []\<rparr>"

inductive lmdb_reach :: "'e mdb \<Rightarrow> v8 \<Rightarrow> (nat \<Rightarrow> bytes) \<Rightarrow> 'e \<Rightarrow> 'e world \<Rightarrow> bool"
  for M V g e0 where
  reach_init: "lmdb_reach M V g e0 (lmdb_init e0)"
| reach_step: "lmdb_reach M V g e0 w \<Longrightarrow> lmdb_allowed c w \<Longrightarrow> lmdb_run M V g c w = (out, w') \<Longrightarrow>
    out \<noteq> Undef \<Longrightarrow> out \<noteq> Hang \<Longrightarrow> lmdb_reach M V g e0 w'"

inductive_cases lmdb_reachE: "lmdb_reach M V g e0 w"

text \<open>A script: the outcomes and the final world, if every call is allowed and returns.\<close>

fun lmdb_script :: "'e mdb \<Rightarrow> v8 \<Rightarrow> (nat \<Rightarrow> bytes) \<Rightarrow> lmdb_call list \<Rightarrow> 'e world \<Rightarrow> (outcome list \<times> 'e world) option" where
  "lmdb_script M V g [] w = Some ([], w)"
| "lmdb_script M V g (c # cs) w =
     (case lmdb_run M V g c w of
        (out, w') \<Rightarrow>
          if out = Undef \<or> out = Hang then None
          else map_option (\<lambda>(os, w''). (out # os, w'')) (lmdb_script M V g cs w'))"

section \<open>The invariant holds in every reachable world\<close>

context lmdb_handles
begin

lemma safe_sync_done:
  assumes "safe w"
  shows "safe (snd (sync_done M i w))"
  using assms by (auto simp: sync_done_def sync_cb_def case_prod_beta frame_laws intro!: safe_same [OF assms])

lemma safe_run:
  assumes w: "safe w" and a: "lmdb_allowed c w"
  shows "safe (snd (lmdb_run M V g c w))"
proof (cases c)
  case (EnvOpen a x)
  then show ?thesis using w assms(2) by (auto simp: env_idle_def intro!: safe_env_open)
next
  case (EnvClose a)
  then show ?thesis using w assms(2) by (auto simp: env_idle_def intro!: safe_env_close)
next
  case (EnvGc a)
  then show ?thesis using w assms(2) by (auto simp: env_idle_def intro!: safe_env_dtor)
next
  case (TxnRenew a)
  then show ?thesis using w assms(2) by (auto intro!: safe_txn_renew)
qed (use w assms(2) in \<open>simp_all add: safe_env_ctor safe_env_methods safe_sync_done safe_txn_ctor safe_txn_end
       safe_txn_reset safe_lmdb_ctor safe_lmdb_close safe_lmdb_get safe_lmdb_put safe_lmdb_del safe_lmdb_exists
       safe_lmdb_dtor safe_cursor_handlers cursor_seek_def cursor_gte_def\<close>)

lemma safe_init: "txns e = Map.empty \<Longrightarrow> safe (lmdb_init e)"
proof -
  assume "txns e = Map.empty"
  moreover have "holds (lmdb_init e) h = None" for h by (cases h) (auto simp: lmdb_init_def)
  ultimately show ?thesis by (simp add: lmdb_inv_def owns_def envs_ok_def) (simp add: lmdb_init_def)
qed

lemma safe_reach:
  assumes "lmdb_reach M V g e0 w" and "txns e0 = Map.empty"
  shows "safe w"
  using assms by (induction rule: lmdb_reach.induct) (simp add: safe_init, metis safe_run snd_conv)

end


definition v8_demo :: v8 where
  "v8_demo = \<lparr>string_to_number = (\<lambda>s. None), object_to_string = (\<lambda>v. [91])\<rparr>"

definition demo_g :: "nat \<Rightarrow> bytes" where
  "demo_g n = replicate n 0"

definition demo_env :: ref_env where
  "demo_env = \<lparr>re_dbis = [], re_data = [], re_writer = 0, re_reader = False, re_mapsize = 1048576\<rparr>"

text \<open>After \<open>new Env(); env.open('a')\<close>, and after a write transaction was begun.\<close>

definition demo1 :: "ref_mdb world" where
  "demo1 = (lmdb_init ref_init)\<lparr>w_mdb := ref_init\<lparr>r_next_env := 1, r_envs := [1 \<mapsto> demo_env]\<rparr>,
     w_envs := [1 \<mapsto> \<lparr>eo_env = 1, eo_read_lock = 0\<rparr>]\<rparr>"

definition demo2 :: "ref_mdb world" where
  "demo2 = demo1\<lparr>w_mdb := ref_init\<lparr>r_next_env := 1, r_next_txn := 1, r_envs := [1 \<mapsto> demo_env\<lparr>re_writer := 1\<rparr>],
       r_txns := [1 \<mapsto> \<lparr>rt_env = 1, rt_ro = False, rt_active = True, rt_data = []\<rparr>]\<rparr>,
     w_txns := [2 \<mapsto> \<lparr>to_readonly = False, to_txn = 1, to_env = 1\<rparr>]\<rparr>"

lemma demo_run1: "lmdb_run ref_lmdb v8_demo demo_g (EnvNew 1) (lmdb_init ref_init) = (Return (JObject 1), demo1)"
  by (simp add: env_ctor_def ref_env_create_def lmdb_init_def ref_init_def demo1_def demo_env_def)

lemma demo_run2: "lmdb_run ref_lmdb v8_demo demo_g (EnvOpen 1 (JString [97])) demo1 = (Return JUndefined, demo1)"
  by (simp add: env_open_def with_env_def demo1_def)

lemma demo_run3: "lmdb_run ref_lmdb v8_demo demo_g (TxnNew 2 (JObject 1) False) demo1 = (Return (JObject 2), demo2)"
  by (simp add: txn_ctor_def ref_txn_begin_def demo1_def demo2_def demo_env_def lmdb_init_def ref_init_def)

lemma demo2_reach: "lmdb_reach ref_lmdb v8_demo demo_g ref_init demo2"
  by (rule reach_step [OF _ _ demo_run3], rule reach_step [OF _ _ demo_run2], rule reach_step [OF reach_init _ demo_run1])
    (auto simp: lmdb_init_def demo1_def env_idle_def no_open_txns_def)


end
