(* ===== verification/Kv_Order.thy ===== *)
theory Kv_Order
  imports Kv_Types
begin

text \<open>
  Three-way comparators as the engines use them, and finite sets kept as lists in comparator order.
  The locale \<open>weak_order\<close> is the contract a comparator owes to an engine
  (\<^verbatim>\<open>leveldb/comparator.h\<close>, \<^verbatim>\<open>mdb_set_compare\<close>);
  \<open>strict_order\<close> adds that only equal keys compare as equal.  The contract is discharged
  here for the numeric comparators that the binding installs.
\<close>

section \<open>Ordered lists\<close>

fun oset_insert :: "('a \<Rightarrow> 'a \<Rightarrow> int) \<Rightarrow> 'a \<Rightarrow> 'a list \<Rightarrow> 'a list" where
  "oset_insert cmp x [] = [x]"
| "oset_insert cmp x (y # ys) =
     (if cmp x y < 0 then x # y # ys
      else if cmp x y = 0 then x # ys
      else y # oset_insert cmp x ys)"

definition oset_delete :: "('a \<Rightarrow> 'a \<Rightarrow> int) \<Rightarrow> 'a \<Rightarrow> 'a list \<Rightarrow> 'a list" where
  "oset_delete cmp x xs = filter (\<lambda>y. cmp x y \<noteq> 0) xs"

definition oset_find :: "('a \<Rightarrow> 'a \<Rightarrow> int) \<Rightarrow> 'a \<Rightarrow> 'a list \<Rightarrow> 'a option" where
  "oset_find cmp x xs = find (\<lambda>y. cmp x y = 0) xs"

definition oset_lower :: "('a \<Rightarrow> 'a \<Rightarrow> int) \<Rightarrow> 'a \<Rightarrow> 'a list \<Rightarrow> 'a list" where
  "oset_lower cmp x xs = dropWhile (\<lambda>y. cmp y x < 0) xs"

definition oset_sorted :: "('a \<Rightarrow> 'a \<Rightarrow> int) \<Rightarrow> 'a list \<Rightarrow> bool" where
  "oset_sorted cmp xs \<longleftrightarrow> sorted_wrt (\<lambda>a b. cmp a b < 0) xs"

lemma oset_sorted_simps [simp]:
  "oset_sorted cmp []"
  "oset_sorted cmp (x # xs) \<longleftrightarrow> (\<forall>y \<in> set xs. cmp x y < 0) \<and> oset_sorted cmp xs"
  by (simp_all add: oset_sorted_def)

lemma oset_find_simps [simp]:
  "oset_find cmp x [] = None"
  "oset_find cmp x (y # ys) = (if cmp x y = 0 then Some y else oset_find cmp x ys)"
  by (simp_all add: oset_find_def)

lemma set_oset_insert_subset: "set (oset_insert cmp x xs) \<subseteq> insert x (set xs)"
  by (induction xs) auto

lemma oset_insert_mem [simp]: "x \<in> set (oset_insert cmp x xs)"
  by (induction xs) auto

lemma oset_find_Some: "oset_find cmp x xs = Some y \<Longrightarrow> y \<in> set xs \<and> cmp x y = 0"
  by (auto simp: oset_find_def find_Some_iff)

lemma oset_find_None: "oset_find cmp x xs = None \<longleftrightarrow> (\<forall>y \<in> set xs. cmp x y \<noteq> 0)"
  by (auto simp: oset_find_def find_None_iff)

section \<open>The comparator contract\<close>

locale weak_order =
  fixes cmp :: "'a \<Rightarrow> 'a \<Rightarrow> int"
    and ok :: "'a \<Rightarrow> bool"
  assumes cmp_swap: "ok a \<Longrightarrow> ok b \<Longrightarrow> sgn (cmp b a) = - sgn (cmp a b)"
    and cmp_trans: "ok a \<Longrightarrow> ok b \<Longrightarrow> ok c \<Longrightarrow> cmp a b \<le> 0 \<Longrightarrow> cmp b c \<le> 0 \<Longrightarrow> cmp a c \<le> 0"
begin

lemma cmp_self: "ok a \<Longrightarrow> cmp a a = 0"
  using cmp_swap [of a a] by (simp add: sgn_if split: if_splits)

lemma cmp_swap_signs:
  assumes "ok a" and "ok b"
  shows "cmp b a < 0 \<longleftrightarrow> cmp a b > 0" and "cmp b a = 0 \<longleftrightarrow> cmp a b = 0"
    and "cmp b a > 0 \<longleftrightarrow> cmp a b < 0"
  using cmp_swap [OF assms] by (auto simp: sgn_if split: if_splits)

lemma cmp_le_less:
  assumes ok: "ok a" "ok b" "ok c" and "cmp a b \<le> 0" and "cmp b c < 0"
  shows "cmp a c < 0"
proof (rule ccontr)
  assume "\<not> cmp a c < 0"
  then have "cmp c a \<le> 0" using cmp_swap_signs [of a c] ok by auto
  then have "cmp c b \<le> 0" using cmp_trans [of c a b] ok assms(4) by blast
  then show False using cmp_swap_signs [of b c] ok assms(5) by auto
qed

lemma cmp_less_le:
  assumes ok: "ok a" "ok b" "ok c" and "cmp a b < 0" and "cmp b c \<le> 0"
  shows "cmp a c < 0"
proof (rule ccontr)
  assume "\<not> cmp a c < 0"
  then have "cmp c a \<le> 0" using cmp_swap_signs [of a c] ok by auto
  then have "cmp b a \<le> 0" using cmp_trans [of b c a] ok assms(5) by blast
  then show False using cmp_swap_signs [of a b] ok assms(4) by auto
qed

lemma cmp_less_trans: "ok a \<Longrightarrow> ok b \<Longrightarrow> ok c \<Longrightarrow> cmp a b < 0 \<Longrightarrow> cmp b c < 0 \<Longrightarrow> cmp a c < 0"
  by (rule cmp_less_le [of a b c]) auto

lemma cmp_eq_cong: "ok a \<Longrightarrow> ok b \<Longrightarrow> ok c \<Longrightarrow> cmp a b = 0 \<Longrightarrow> cmp a c = 0 \<longleftrightarrow> cmp b c = 0"
  using cmp_trans [of a b c] cmp_trans [of b a c] cmp_trans [of c b a] cmp_trans [of c a b]
    cmp_swap_signs [of a b] cmp_swap_signs [of a c] cmp_swap_signs [of b c]
  by (smt (verit))

lemma oset_insert_sorted:
  "\<forall>y \<in> set xs. ok y \<Longrightarrow> ok x \<Longrightarrow> oset_sorted cmp xs \<Longrightarrow> oset_sorted cmp (oset_insert cmp x xs)"
proof (induction xs)
  case (Cons y ys)
  consider "cmp x y < 0" | "cmp x y = 0" | "cmp x y > 0" by linarith
  then show ?case
  proof cases
    case 1
    then show ?thesis using Cons.prems cmp_less_trans [of x y] by auto
  next
    case 2
    then show ?thesis using Cons.prems cmp_le_less [of x y] by auto
  next
    case 3
    then have "cmp y x < 0" using Cons.prems cmp_swap_signs [of x y] by auto
    moreover have "set (oset_insert cmp x ys) \<subseteq> insert x (set ys)" by (rule set_oset_insert_subset)
    ultimately show ?thesis using 3 Cons by auto
  qed
qed simp

lemma oset_find_less:
  assumes "\<forall>y \<in> set xs. ok y" and "ok x" and "\<forall>y \<in> set xs. cmp x y < 0"
  shows "oset_find cmp x xs = None"
  using assms by (auto simp: oset_find_None)

lemma oset_find_insert:
  "\<forall>y \<in> set xs. ok y \<Longrightarrow> ok x \<Longrightarrow> ok z \<Longrightarrow> oset_sorted cmp xs \<Longrightarrow>
    oset_find cmp z (oset_insert cmp x xs) = (if cmp z x = 0 then Some x else oset_find cmp z xs)"
proof (induction xs)
  case (Cons y ys)
  have sw: "cmp x z = 0 \<longleftrightarrow> cmp z x = 0" "cmp x y = 0 \<longleftrightarrow> cmp y x = 0"
    using Cons.prems cmp_swap_signs [of x z] cmp_swap_signs [of x y] by auto
  have eq: "cmp z x = 0 \<Longrightarrow> cmp z y = 0 \<longleftrightarrow> cmp x y = 0"
    using Cons.prems cmp_eq_cong [of z x y] by auto
  have eq': "cmp x y = 0 \<Longrightarrow> cmp z x = 0 \<longleftrightarrow> cmp z y = 0"
    using Cons.prems cmp_eq_cong [of x y z] cmp_swap_signs [of x z] cmp_swap_signs [of y z] by auto
  show ?case using Cons eq eq' by auto
qed simp

lemma oset_find_delete:
  "\<forall>y \<in> set xs. ok y \<Longrightarrow> ok x \<Longrightarrow> ok z \<Longrightarrow>
    oset_find cmp z (oset_delete cmp x xs) = (if cmp z x = 0 then None else oset_find cmp z xs)"
proof (induction xs)
  case (Cons y ys)
  have "cmp z x = 0 \<Longrightarrow> cmp z y = 0 \<longleftrightarrow> cmp x y = 0"
    using Cons.prems cmp_eq_cong [of z x y] by auto
  moreover have "cmp x y = 0 \<Longrightarrow> cmp z y = 0 \<Longrightarrow> cmp z x = 0"
    using Cons.prems cmp_eq_cong [of y x z] cmp_swap_signs [of x y] cmp_swap_signs [of y z]
      cmp_swap_signs [of x z] by auto
  ultimately show ?case using Cons by (auto simp: oset_delete_def)
qed (simp add: oset_delete_def)

lemma oset_lower_split:
  assumes "\<forall>y \<in> set xs. ok y" and "ok x" and "oset_sorted cmp xs"
  shows "y \<in> set (oset_lower cmp x xs) \<longleftrightarrow> y \<in> set xs \<and> cmp x y \<le> 0"
  using assms
proof (induction xs)
  case (Cons z zs)
  show ?case
  proof (cases "cmp z x < 0")
    case True
    then have "cmp x z > 0" using Cons.prems cmp_swap_signs [of z x] by auto
    with True Cons show ?thesis by (auto simp: oset_lower_def)
  next
    case False
    then have xz: "cmp x z \<le> 0" using Cons.prems cmp_swap_signs [of z x] by auto
    have "cmp x w \<le> 0" if "w \<in> set zs" for w
      using that xz Cons.prems cmp_trans [of x z w] by auto
    with False xz show ?thesis by (auto simp: oset_lower_def)
  qed
qed (simp add: oset_lower_def)

end

locale strict_order = weak_order +
  assumes cmp_zero: "ok a \<Longrightarrow> ok b \<Longrightarrow> cmp a b = 0 \<Longrightarrow> a = b"
begin

lemma cmp_zero_iff: "ok a \<Longrightarrow> ok b \<Longrightarrow> cmp a b = 0 \<longleftrightarrow> a = b"
  using cmp_zero cmp_self by blast

lemma oset_find_iff: "\<forall>y \<in> set xs. ok y \<Longrightarrow> ok x \<Longrightarrow> oset_find cmp x xs = (if x \<in> set xs then Some x else None)"
  by (induction xs) (auto simp: cmp_zero_iff)

lemma set_oset_insert: "\<forall>y \<in> set xs. ok y \<Longrightarrow> ok x \<Longrightarrow> set (oset_insert cmp x xs) = insert x (set xs)"
  by (induction xs) (auto simp: cmp_zero_iff)

end

section \<open>The numeric comparators meet the contract\<close>

definition num_cmp :: "num_kind \<Rightarrow> bytes \<Rightarrow> bytes \<Rightarrow> int" where
  "num_cmp k a b = (case lvl_rocks_Compare k a b of Some r \<Rightarrow> r | None \<Rightarrow> 0)"

definition num_key :: "num_kind \<Rightarrow> bytes \<Rightarrow> bool" where
  "num_key k a \<longleftrightarrow> length a = num_bytes k"

lemma lvl_rocks_Compare_keys:
  assumes "num_key k a" and "num_key k b"
  obtains i j where "number_of_mem k a = Some i" and "number_of_mem k b = Some j"
    and "lvl_rocks_Compare k a b = Some (number_compare i j)" and "i = j \<longleftrightarrow> a = b"
proof -
  from assms obtain i j where "number_of_mem k a = Some i" "number_of_mem k b = Some j"
    using number_of_mem_total [of k a] number_of_mem_total [of k b] by (auto simp: num_key_def)
  moreover from this have "i = j \<longleftrightarrow> a = b"
    using number_of_mem_inj [of k a i b] assms by (auto simp: num_key_def)
  ultimately show thesis using that by (auto simp: lvl_rocks_Compare_def)
qed

interpretation num_order: strict_order "num_cmp k" "num_key k" for k
proof unfold_locales
  fix a b assume "num_key k a" "num_key k b"
  then obtain i j where "number_of_mem k a = Some i" "number_of_mem k b = Some j"
    by (rule lvl_rocks_Compare_keys)
  then show "sgn (num_cmp k b a) = - sgn (num_cmp k a b)"
    by (simp add: num_cmp_def lvl_rocks_Compare_def number_compare_def)
next
  fix a b c assume "num_key k a" "num_key k b" "num_key k c"
  then obtain i j l where "number_of_mem k a = Some i" "number_of_mem k b = Some j" "number_of_mem k c = Some l"
    by (metis lvl_rocks_Compare_keys)
  moreover assume "num_cmp k a b \<le> 0" "num_cmp k b c \<le> 0"
  ultimately show "num_cmp k a c \<le> 0"
    by (simp add: num_cmp_def lvl_rocks_Compare_def number_compare_def split: if_splits)
next
  fix a b assume keys: "num_key k a" "num_key k b" and zero: "num_cmp k a b = 0"
  from keys obtain i j where "lvl_rocks_Compare k a b = Some (number_compare i j)" "i = j \<longleftrightarrow> a = b"
    by (rule lvl_rocks_Compare_keys)
  with zero show "a = b" by (simp add: num_cmp_def number_compare_def split: if_splits)
qed

end
