(* ===== verification/Kv_Codec.thy ===== *)
theory Kv_Codec
  imports Kv_Order
begin

text \<open>
  Correctness of the key and value classes of \<^verbatim>\<open>src/src/kv-types.h\<close> and
  \<^verbatim>\<open>kv-types.cpp\<close>: which JavaScript values come back unchanged from the engine,
  in which order the numeric keys are kept, and what happens to long hexadecimal values.
\<close>

section \<open>Values that survive storing\<close>

text \<open>The canonical values of a type: buffers; strings without a zero byte; lower-case
  hexadecimal texts of 2 to 1024 digits, an even number; integers of the numeric class, the 64-bit
  ones as decimal strings.\<close>

fun kv_canonical :: "kv_type \<Rightarrow> js \<Rightarrow> bool" where
  "kv_canonical Binary v = (case v of JBuffer b \<Rightarrow> True | _ \<Rightarrow> False)"
| "kv_canonical String v = (case v of JString s \<Rightarrow> 0 \<notin> set s | _ \<Rightarrow> False)"
| "kv_canonical Hex v =
     (case v of
        JString s \<Rightarrow> is_hex s \<and> map hex_lower s = s \<and> even (length s) \<and> 0 < length s \<and> length s \<le> 1024
      | _ \<Rightarrow> False)"
| "kv_canonical (Number Int64) v = (case v of JString s \<Rightarrow> num_in_range Int64 (atoll s) \<and> dec_int (atoll s) = s | _ \<Rightarrow> False)"
| "kv_canonical (Number k) v = (case v of JNumber i \<Rightarrow> num_in_range k i | _ \<Rightarrow> False)"

lemma number_of_js_range: "num_in_range k (number_of_js k V v)"
proof (cases k)
  case Int32
  have "0 \<le> Uint32Value V v" "Uint32Value V v < 2 ^ 32"
    by (auto simp: Uint32Value_def split: option.splits)
  from to_signed_range [of 32, OF _ this] show ?thesis
    by (simp add: Int32 Int32Value_def num_in_range_def)
next
  case UInt32
  then show ?thesis by (auto simp: Uint32Value_def num_in_range_def split: option.splits)
next
  case Int64
  then show ?thesis by (auto simp: atoll_def Let_def clamp64_def num_in_range_def)
qed

lemma canonical_number:
  assumes "kv_canonical (Number k) v"
  shows "number_v8value k (number_of_js k V v) = v"
proof (cases k)
  case Int32
  with assms obtain i where "v = JNumber i" "num_in_range Int32 i" by (auto split: js.splits)
  then show ?thesis using Int32 to_signed_mod [of 32 i]
    by (simp add: Int32Value_def Uint32Value_def ToNumber_def num_in_range_def)
next
  case UInt32
  with assms show ?thesis by (auto simp: Uint32Value_def ToNumber_def num_in_range_def split: js.splits)
next
  case Int64
  with assms obtain s where s: "v = JString s" "dec_int (atoll s) = s" by (cases v) auto
  have "0 \<notin> set s" using dec_int_no_zero [of "atoll s"] unfolding s(2) .
  then have t: "takeWhile (\<lambda>c. c \<noteq> 0) s = s" by (auto simp: takeWhile_eq_all_conv)
  show ?thesis by (simp add: Int64 ToString_def s t del: takeWhile_eq_all_conv)
qed

lemma kv_roundtrip_lemma:
  assumes "kv_canonical T v" and "kv_encode T V v = Some b" and "length (g 1025) = 1025"
  shows "kv_decode T g (b @ rest) (length b) = Some v"
proof (cases T)
  case Binary
  with assms show ?thesis
    by (auto simp: binary_of_js_def binary_of_mem_def binary_v8value_def split: js.splits)
next
  case String
  with assms obtain s where "v = JString s" "0 \<notin> set s" "b = s @ [0]"
    by (auto simp: string_of_js_def ToString_def Let_def split: js.splits)
  then show ?thesis using String by (simp add: string_v8value_def string_of_mem_def)
next
  case Hex
  with assms obtain s where s: "v = JString s" "is_hex s" "map hex_lower s = s" "even (length s)" "0 < length s" "length s \<le> 1024"
    by (auto split: js.splits)
  have b: "b = hex_parse s"
    using assms(2) Hex kv_encode_hex [of V v s] s is_hex_no_zero by (simp add: ToString_def)
  have "0 < length b" "length b \<le> 512" using s by (auto simp: b length_hex_parse elim!: evenE) (cases s; auto)
  then show ?thesis
    using Hex assms(3) s hex_text_parse [of s] kv_decode_hex [of "length b" g "b @ rest"] by (simp add: b)
next
  case (Number k)
  with assms show ?thesis using number_of_js_range [of k V v] canonical_number [of k v V] by auto
qed

text \<open>
  C2.  Round trip of every key and value class: the bytes a canonical value is stored as are decoded
  to the same value, whatever memory follows them in the engine's page.  For a string this needs the
  terminating zero that the encoder stores, for a hexadecimal value the 1025-byte output buffer.
\<close>

theorem kv_roundtrip:
  assumes "kv_canonical T v" and "kv_encode T V v = Some b" and "length (g 1025) = 1025"
  shows "kv_decode T g (b @ rest) (length b) = Some v"
  by (rule kv_roundtrip_lemma [where g = g, OF assms])

theorem kv_roundtrip_witness:
  "kv_decode Hex (\<lambda>n. replicate n 7) ([202, 254] @ [99]) (length [202 :: byte, 254]) = Some (JString [99, 97, 102, 101])"
proof -
  have "kv_canonical Hex (JString [99, 97, 102, 101])" by code_simp
  moreover have "kv_encode Hex (v8.make Map.empty (\<lambda>v. [])) (JString [99, 97, 102, 101]) = Some [202, 254]" by code_simp
  ultimately show ?thesis using kv_roundtrip [of Hex "JString [99, 97, 102, 101]" _ "[202, 254]" "\<lambda>n. replicate n 7" "[99]"]
    by simp
qed

text \<open>
  C3.  The comparators installed for numeric keys order the stored keys as the numbers they stand for:
  the answer is the sign of the difference, so iteration runs through the numbers in increasing order,
  negative ones included, although the keys are stored in little-endian two's complement.
\<close>

theorem number_comparator_order:
  assumes "kv_encode (Number k) V x = Some a" and "kv_encode (Number k) V y = Some b"
  shows "lvl_rocks_Compare k (a @ p) (b @ q) = Some (sgn (number_of_js k V x - number_of_js k V y))"
proof -
  have "number_of_mem k (a @ p) = Some (number_of_js k V x)" "number_of_mem k (b @ q) = Some (number_of_js k V y)"
    using assms number_of_js_range by auto
  then show ?thesis by (simp add: lvl_rocks_Compare_def number_compare_def)
qed

theorem number_comparator_order_witness:
  "lvl_rocks_Compare Int32 [255, 255, 255, 255] [1, 0, 0, 0] = Some (- 1)"
proof -
  let ?V = "v8.make Map.empty (\<lambda>v. [])"
  have "kv_encode (Number Int32) ?V (JNumber (- 1)) = Some [255, 255, 255, 255]"
    "kv_encode (Number Int32) ?V (JNumber 1) = Some [1, 0, 0, 0]"
    by (simp_all add: number_data_def Int32Value_def Uint32Value_def ToNumber_def to_signed_def le_encode_numeral)
  moreover have "number_of_js Int32 ?V (JNumber (- 1)) = - 1" "number_of_js Int32 ?V (JNumber 1) = 1"
    by (simp_all add: Int32Value_def Uint32Value_def ToNumber_def to_signed_def le_encode_numeral)
  ultimately show ?thesis using number_comparator_order [of Int32 ?V "JNumber (- 1)" "[255, 255, 255, 255]" "JNumber 1" "[1, 0, 0, 0]" "[]" "[]"]
    by simp
qed

section \<open>Long hexadecimal values\<close>

text \<open>
  C4.  Reading back a stored hexadecimal value succeeds without writing outside a buffer exactly when
  the value has at most 512 bytes.  From 513 bytes on the heap buffer of
  \<^verbatim>\<open>_size * 2\<close> bytes has no room for the zero that the last
  \<^verbatim>\<open>sprintf\<close> writes: every such value overruns the heap by one byte.
\<close>

theorem hex_decode_overrun:
  assumes "\<forall>n. length (g n) = n" and "0 < sz" and "sz \<le> length mem"
  shows "kv_decode Hex g mem sz = None \<longleftrightarrow> 512 < sz"
proof (cases "512 < sz")
  case True
  have "hex_print (g (sz * 2)) 0 (take sz mem) = None"
    using assms True by (auto simp: hex_print_None_iff min_def)
  then show ?thesis using assms True by (simp add: hex_v8value_def hex_of_mem_def hex_data_def Let_def)
next
  case False
  then show ?thesis using assms kv_decode_hex [of sz g mem] by simp
qed

theorem hex_decode_overrun_witness:
  "kv_decode Hex (\<lambda>n. replicate n 0) (replicate 600 0) 513 = None"
proof -
  have "\<forall>n. length (replicate n (0 :: byte)) = n" "513 \<le> length (replicate 600 (0 :: byte))"
    by (simp_all only: length_replicate) auto
  from hex_decode_overrun [of "\<lambda>n. replicate n 0", OF this(1) _ this(2)] show ?thesis by auto
qed

end
