(* ===== verification/Lmdb_Store.thy ===== *)
theory Lmdb_Store
  imports Lmdb_System Kv_Codec
begin

text \<open>
  What the database operations of the LMDB binding do to the stored data, from the contract
  \<open>lmdb_store\<close>: atomicity of \<^verbatim>\<open>put\<close> and
  \<^verbatim>\<open>del\<close>, reading committed data, isolation and publication of the caller's
  transactions, and the deadlock of a write outside an open write transaction.
\<close>

section \<open>Operations in a transaction of their own\<close>

text \<open>The content after key \<open>key\<close> of database \<open>d\<close> in environment
  \<open>p\<close> is set to \<open>x\<close> (\<open>None\<close>: removed).\<close>

definition content_set :: "(ptr \<Rightarrow> nat \<Rightarrow> bytes \<rightharpoonup> bytes) \<Rightarrow> ptr \<Rightarrow> nat \<Rightarrow> bytes \<Rightarrow> bytes option \<Rightarrow> ptr \<Rightarrow> nat \<Rightarrow> bytes \<rightharpoonup> bytes" where
  "content_set C p d key x = C(p := (C p)(d := (C p d)(key := x)))"

text \<open>Database object \<open>this\<close> is usable: its environment is open and its database is
  kept without duplicates.\<close>

definition db_ready :: "('e \<Rightarrow> ptr \<Rightarrow> nat \<Rightarrow> bool) \<Rightarrow> 'e world \<Rightarrow> nat \<Rightarrow> db_obj \<Rightarrow> env_obj \<Rightarrow> bool" where
  "db_ready plain w this dw ew \<longleftrightarrow>
     w_dbs w this = Some dw \<and> w_envs w (do_env dw) = Some ew \<and> eo_env ew \<noteq> 0 \<and>
     plain (w_mdb w) (eo_env ew) (do_dbi dw)"

text \<open>The library grants the shared read transaction of environment object \<open>ew\<close>.\<close>

definition readlock_ok :: "'e mdb \<Rightarrow> env_obj \<Rightarrow> 'e world \<Rightarrow> bool" where
  "readlock_ok M ew w \<longleftrightarrow>
     (if eo_read_lock ew \<noteq> 0 then fst (mdb_txn_renew M (eo_read_lock ew) (w_mdb w)) = 0
      else case mdb_txn_begin M (eo_env ew) True (w_mdb w) of Some (rc, t, e) \<Rightarrow> rc = 0 | None \<Rightarrow> False)"

context lmdb_store
begin

lemma txn_live:
  "lmdb_inv envs txns w \<Longrightarrow> w_txns w a = Some tw \<Longrightarrow> to_txn tw \<noteq> 0 \<Longrightarrow> txns (w_mdb w) (to_txn tw) = Some (to_env tw)"
  using inv_owns [of w "HTxn a"] by simp

lemma lock_live:
  "lmdb_inv envs txns w \<Longrightarrow> w_envs w a = Some ew \<Longrightarrow> eo_read_lock ew \<noteq> 0 \<Longrightarrow> txns (w_mdb w) (eo_read_lock ew) = Some (eo_env ew)"
  using inv_owns [of w "HEnv a"] by simp

lemma own_write:
  assumes inv: "lmdb_inv envs txns w" and r: "db_ready plain w this dw ew"
    and b: "mdb_txn_begin M (eo_env ew) False (w_mdb w) = Some (0, t, e1)"
  shows "txns e1 t = Some (eo_env ew)" and "plain e1 (eo_env ew) (do_dbi dw)" and "writer e1 t"
    and "view e1 t = com (w_mdb w) (eo_env ew)" and "com e1 = com (w_mdb w)"
proof -
  have env: "eo_env ew \<in> envs (w_mdb w)" using inv_env [OF inv] r by (auto simp: db_ready_def)
  show "txns e1 t = Some (eo_env ew)" using txn_begin [OF env b] by simp
  show "plain e1 (eo_env ew) (do_dbi dw)" "writer e1 t" "view e1 t = com (w_mdb w) (eo_env ew)" "com e1 = com (w_mdb w)"
    using begin_store [OF env b] r by (auto simp: db_ready_def)
qed

lemma own_write_commit:
  assumes "lmdb_inv envs txns w" and "db_ready plain w this dw ew"
    and b: "mdb_txn_begin M (eo_env ew) False (w_mdb w) = Some (0, t, e1)"
    and e2: "txns e2 = txns e1" "com e2 = com e1" "writer e2 = writer e1" "plain e2 = plain e1"
    and v: "view e2 t = (view e1 t)(do_dbi dw := (view e1 t (do_dbi dw))(key := x))"
    and c: "mdb_txn_commit M t e2 = (rc, e3)"
  shows "com e3 = (if rc = 0 then content_set (com (w_mdb w)) (eo_env ew) (do_dbi dw) key x else com (w_mdb w))"
    and "rc = 0 \<Longrightarrow> plain e3 (eo_env ew) (do_dbi dw)"
proof -
  note o = own_write [OF assms(1,2) b]
  show "plain e3 (eo_env ew) (do_dbi dw)" if "rc = 0"
    using commit_store [of e2 t "eo_env ew" e3] c that o e2 by simp
  show "com e3 = (if rc = 0 then content_set (com (w_mdb w)) (eo_env ew) (do_dbi dw) key x else com (w_mdb w))"
    using commit_store [of e2 t "eo_env ew" e3] commit_fail_store [OF c] c o e2 v
    by (cases "rc = 0") (simp_all add: content_set_def)
qed

lemma own_scope:
  assumes inv: "lmdb_inv envs txns w" and r: "db_ready plain w this dw ew" and arg: "\<not> IsObject targ"
    and s: "scope_write M targ (eo_env ew) w = Inr (tc, w1)"
  obtains (opened) t e1 where "mdb_txn_begin M (eo_env ew) False (w_mdb w) = Some (0, t, e1)" and "w1 = w\<lparr>w_mdb := e1\<rparr>"
      and "tc = \<lparr>ts_env = 0, ts_txn = t, ts_readonly = False, ts_created = True, ts_commit = False\<rparr>"
    | (failed) e1 where "com e1 = com (w_mdb w)" and "w1 = w\<lparr>w_mdb := e1\<rparr>"
      and "tc = \<lparr>ts_env = 0, ts_txn = 0, ts_readonly = False, ts_created = True, ts_commit = False\<rparr>"
proof -
  from s arg r obtain rc t e1 where b: "mdb_txn_begin M (eo_env ew) False (w_mdb w) = Some (rc, t, e1)"
    and "w1 = w\<lparr>w_mdb := e1\<rparr>"
    and "tc = \<lparr>ts_env = 0, ts_txn = (if rc = 0 then t else 0), ts_readonly = False, ts_created = True, ts_commit = False\<rparr>"
    by (cases "mdb_txn_begin M (eo_env ew) False (w_mdb w)") (auto simp: scope_write_def db_ready_def)
  then show thesis using opened failed begin_fail_store [OF b] by (cases "rc = 0") auto
qed

text \<open>An operation \<open>(rc, e2)\<close> run inside the scope: without \<open>commit()\<close>
  nothing changes; with it the change of one key is published if the library commits.\<close>

lemma own_abort:
  assumes "lmdb_inv envs txns w" and "db_ready plain w this dw ew" and "\<not> IsObject targ"
    and "scope_write M targ (eo_env ew) w = Inr (tc, w1)" and "com e2 = com (w_mdb w1)"
  shows "com (w_mdb (scope_dtor M tc (w1\<lparr>w_mdb := e2\<rparr>))) = com (w_mdb w)"
proof (cases rule: own_scope [OF assms(1-4), case_names opened failed])
  case (opened t e1)
  then show ?thesis using own_write(5) [OF assms(1,2) opened(1)] assms(5) abort_store [of t e2] by (simp add: scope_dtor_def)
next
  case (failed e1)
  then show ?thesis using assms(5) abort_store [of 0 e2] by (simp add: scope_dtor_def)
qed

lemma own_commit:
  assumes inv: "lmdb_inv envs txns w" and r: "db_ready plain w this dw ew" and "\<not> IsObject targ"
    and "scope_write M targ (eo_env ew) w = Inr (tc, w1)" and nz: "ts_txn tc \<noteq> 0"
    and e2: "txns e2 = txns (w_mdb w1)" "com e2 = com (w_mdb w1)" "writer e2 = writer (w_mdb w1)" "plain e2 = plain (w_mdb w1)"
    and v: "txns (w_mdb w1) (ts_txn tc) = Some (eo_env ew) \<Longrightarrow> plain (w_mdb w1) (eo_env ew) (do_dbi dw) \<Longrightarrow>
      view e2 (ts_txn tc) = (view (w_mdb w1) (ts_txn tc))(do_dbi dw := (view (w_mdb w1) (ts_txn tc) (do_dbi dw))(key := x))"
  shows "\<exists>t rc. mdb_txn_commit M t e2 = (rc, w_mdb (scope_dtor M (tc\<lparr>ts_commit := True\<rparr>) (w1\<lparr>w_mdb := e2\<rparr>))) \<and>
    txns e2 t = Some (eo_env ew) \<and>
    com (w_mdb (scope_dtor M (tc\<lparr>ts_commit := True\<rparr>) (w1\<lparr>w_mdb := e2\<rparr>))) =
      (if rc = 0 then content_set (com (w_mdb w)) (eo_env ew) (do_dbi dw) key x else com (w_mdb w)) \<and>
    (rc = 0 \<longrightarrow> plain (w_mdb (scope_dtor M (tc\<lparr>ts_commit := True\<rparr>) (w1\<lparr>w_mdb := e2\<rparr>))) (eo_env ew) (do_dbi dw))"
proof (cases rule: own_scope [OF assms(1-4), case_names opened failed])
  case (opened t e1)
  obtain rc e3 where c: "mdb_txn_commit M t e2 = (rc, e3)" by fastforce
  have "com e3 = (if rc = 0 then content_set (com (w_mdb w)) (eo_env ew) (do_dbi dw) key x else com (w_mdb w))"
    "rc = 0 \<Longrightarrow> plain e3 (eo_env ew) (do_dbi dw)"
    using own_write_commit [OF inv r opened(1) _ _ _ _ _ c, where x = x and key = key] own_write(1,2) [OF inv r opened(1)] opened e2 v
    by simp_all
  then show ?thesis using c opened e2 own_write(1) [OF inv r opened(1)]
    by (intro exI [of _ t] exI [of _ rc]) (simp add: scope_dtor_def)
next
  case (failed e1)
  with nz show ?thesis by simp
qed

lemma scope_write_frame:
  "scope_write M targ p w = Inr (tc, w1) \<Longrightarrow> w_dbs w1 = w_dbs w \<and> w_envs w1 = w_envs w"
  by (auto simp: scope_write_def split: if_splits option.splits)

lemma scope_write_commit_frame:
  "scope_write M targ p w = Inr (tc, w1) \<Longrightarrow>
    w_dbs (scope_dtor M (tc\<lparr>ts_commit := True\<rparr>) w2) = w_dbs w2 \<and> w_envs (scope_dtor M (tc\<lparr>ts_commit := True\<rparr>) w2) = w_envs w2"
  by (auto simp: scope_write_def scope_dtor_def split: if_splits option.splits)

lemma own_hang:
  "db_ready plain w this dw ew \<Longrightarrow> \<not> IsObject targ \<Longrightarrow> scope_write M targ (eo_env ew) w = Inl out \<Longrightarrow> out = Hang"
  by (auto simp: scope_write_def db_ready_def split: option.splits)

lemma put_own:
  assumes inv: "lmdb_inv envs txns w" and r: "db_ready plain w this dw ew" and arg: "\<not> IsObject targ"
    and k: "kv_encode (do_K dw) V karg = Some key" and v: "kv_encode (do_V dw) V varg = Some val"
    and run: "lmdb_put M V this karg varg targ w = (out, w')"
  shows "(out = Hang \<and> w' = w) \<or>
    (\<exists>rc. out = Throw (MdbError rc) \<and> com (w_mdb w') = com (w_mdb w)) \<or>
    (out = Return (JBool True) \<and>
      (\<exists>t e2 rc. mdb_txn_commit M t e2 = (rc, w_mdb w') \<and> txns e2 t = Some (eo_env ew) \<and>
         com (w_mdb w') =
           (if rc = 0 then content_set (com (w_mdb w)) (eo_env ew) (do_dbi dw) key (Some val) else com (w_mdb w)) \<and>
         (rc = 0 \<longrightarrow> plain (w_mdb w') (eo_env ew) (do_dbi dw)) \<and> w_dbs w' = w_dbs w \<and> w_envs w' = w_envs w))"
proof (cases "scope_write M targ (eo_env ew) w")
  case (Inl out1)
  then show ?thesis using run r k v own_hang [OF r arg Inl] by (simp add: lmdb_put_def db_ready_def)
next
  case (Inr q)
  then obtain tc w1 where s: "scope_write M targ (eo_env ew) w = Inr (tc, w1)" by (cases q) auto
  obtain rc e2 where p: "mdb_put M (ts_txn tc) (do_dbi dw) key val (w_mdb w1) = (rc, e2)" by fastforce
  have e2: "txns e2 = txns (w_mdb w1)" "com e2 = com (w_mdb w1)" "writer e2 = writer (w_mdb w1)" "plain e2 = plain (w_mdb w1)"
    using put_store [of "ts_txn tc" "do_dbi dw" key val "w_mdb w1"] put [of "ts_txn tc" "do_dbi dw" key val "w_mdb w1"]
    by (simp_all add: p)
  show ?thesis
  proof (cases "rc = 0")
    case True
    then have nz: "ts_txn tc \<noteq> 0" using put_null [of "do_dbi dw" key val "w_mdb w1"] p by (cases "ts_txn tc") auto
    have "out = Return (JBool True)" "w' = scope_dtor M (tc\<lparr>ts_commit := True\<rparr>) (w1\<lparr>w_mdb := e2\<rparr>)"
      using run r k v s p True by (auto simp: lmdb_put_def db_ready_def)
    moreover have "w_dbs w' = w_dbs w" "w_envs w' = w_envs w"
      using calculation scope_write_frame [OF s] by (simp_all add: scope_write_commit_frame [OF s])
    ultimately show ?thesis using own_commit [OF inv r arg s nz e2 put_view] p True by blast
  next
    case False
    then have "out = Throw (MdbError rc)" "w' = scope_dtor M tc (w1\<lparr>w_mdb := e2\<rparr>)"
      using run r k v s p by (auto simp: lmdb_put_def db_ready_def)
    then show ?thesis using own_abort [OF inv r arg s e2(2)] by blast
  qed
qed

lemma del_own:
  assumes inv: "lmdb_inv envs txns w" and r: "db_ready plain w this dw ew" and arg: "\<not> IsObject targ"
    and k: "kv_encode (do_K dw) V karg = Some key" and v: "kv_encode (do_V dw) V varg = Some val"
    and run: "lmdb_del M V this karg varg targ w = (out, w')"
  shows "(out = Hang \<and> w' = w) \<or>
    ((out = Return (JBool False) \<or> (\<exists>rc. out = Throw (MdbError rc))) \<and> com (w_mdb w') = com (w_mdb w)) \<or>
    (out = Return (JBool True) \<and>
      (\<exists>t e2 rc. mdb_txn_commit M t e2 = (rc, w_mdb w') \<and> txns e2 t = Some (eo_env ew) \<and>
         com (w_mdb w') =
           (if rc = 0 then content_set (com (w_mdb w)) (eo_env ew) (do_dbi dw) key None else com (w_mdb w)) \<and>
         (rc = 0 \<longrightarrow> plain (w_mdb w') (eo_env ew) (do_dbi dw)) \<and> w_dbs w' = w_dbs w \<and> w_envs w' = w_envs w))"
proof (cases "scope_write M targ (eo_env ew) w")
  case (Inl out1)
  then show ?thesis using run r k v own_hang [OF r arg Inl] by (simp add: lmdb_del_def db_ready_def)
next
  case (Inr q)
  then obtain tc w1 where s: "scope_write M targ (eo_env ew) w = Inr (tc, w1)" by (cases q) auto
  obtain rc e2 where p: "mdb_del M (ts_txn tc) (do_dbi dw) key val (w_mdb w1) = (rc, e2)" by fastforce
  have e2: "txns e2 = txns (w_mdb w1)" "com e2 = com (w_mdb w1)" "writer e2 = writer (w_mdb w1)" "plain e2 = plain (w_mdb w1)"
    using del_store [of "ts_txn tc" "do_dbi dw" key val "w_mdb w1"] del [of "ts_txn tc" "do_dbi dw" key val "w_mdb w1"]
    by (simp_all add: p)
  show ?thesis
  proof (cases "rc = 0")
    case True
    then have nz: "ts_txn tc \<noteq> 0" using del_null [of "do_dbi dw" key val "w_mdb w1"] p by (cases "ts_txn tc") auto
    have "out = Return (JBool True)" "w' = scope_dtor M (tc\<lparr>ts_commit := True\<rparr>) (w1\<lparr>w_mdb := e2\<rparr>)"
      using run r k v s p True by (auto simp: lmdb_del_def db_ready_def MDB_NOTFOUND_def)
    moreover have "w_dbs w' = w_dbs w" "w_envs w' = w_envs w"
      using calculation scope_write_frame [OF s] by (simp_all add: scope_write_commit_frame [OF s])
    ultimately show ?thesis using own_commit [OF inv r arg s nz e2 del_view] p True by blast
  next
    case False
    then have "out = Return (JBool False) \<or> out = Throw (MdbError rc)" "w' = scope_dtor M tc (w1\<lparr>w_mdb := e2\<rparr>)"
      using run r k v s p by (auto simp: lmdb_del_def db_ready_def Let_def split: if_splits)
    then show ?thesis using own_abort [OF inv r arg s e2(2)] by blast
  qed
qed

subsection \<open>Reading\<close>

lemma own_read:
  assumes inv: "lmdb_inv envs txns w" and r: "db_ready plain w this dw ew" and arg: "\<not> IsObject targ"
    and ok: "readlock_ok M ew w"
  obtains tc w1 where "scope_read M targ (do_env dw) w = Inr (tc, w1)"
    and "txns (w_mdb w1) (ts_txn tc) = Some (eo_env ew)" and "view (w_mdb w1) (ts_txn tc) = com (w_mdb w) (eo_env ew)"
    and "com (w_mdb w1) = com (w_mdb w)" and "plain (w_mdb w1) = plain (w_mdb w)"
    and "\<And>x. scope_dtor M tc x = release_readlock M (do_env dw) x"
proof (cases "eo_read_lock ew = 0")
  case True
  have env: "w_envs w (do_env dw) = Some ew" "eo_env ew \<noteq> 0" "eo_env ew \<in> envs (w_mdb w)"
    using r inv_env [OF inv] by (auto simp: db_ready_def)
  obtain t e where b: "mdb_txn_begin M (eo_env ew) True (w_mdb w) = Some (0, t, e)"
    using ok True by (auto simp: readlock_ok_def split: option.splits)
  then show thesis using that True arg env txn_begin [OF env(3) b] begin_store [OF env(3) b]
    by (simp add: scope_read_def require_readlock_def scope_dtor_def)
next
  case False
  have env: "w_envs w (do_env dw) = Some ew" using r by (simp add: db_ready_def)
  have t: "txns (w_mdb w) (eo_read_lock ew) = Some (eo_env ew)"
    using lock_live [OF inv env False] .
  obtain e where b: "mdb_txn_renew M (eo_read_lock ew) (w_mdb w) = (0, e)"
    using ok False by (cases "mdb_txn_renew M (eo_read_lock ew) (w_mdb w)") (auto simp: readlock_ok_def)
  then show thesis using that False arg env t renew_store [OF t b] txn_renew [of "eo_read_lock ew" "w_mdb w"]
    by (simp add: scope_read_def require_readlock_def scope_dtor_def)
qed

lemma get_own:
  assumes inv: "lmdb_inv envs txns w" and r: "db_ready plain w this dw ew" and arg: "\<not> IsObject targ"
    and ok: "readlock_ok M ew w" and k: "kv_encode (do_K dw) V karg = Some key"
    and run: "lmdb_get M V g this karg targ w = (out, w')"
  shows "com (w_mdb w') = com (w_mdb w) \<and>
    ((\<exists>rc. out = Throw (MdbError rc)) \<or>
     (case com (w_mdb w) (eo_env ew) (do_dbi dw) key of
        None \<Rightarrow> out = Return JNull
      | Some b \<Rightarrow> \<exists>page. out = decode_outcome (do_V dw) g \<lparr>mv_data = b @ page, mv_size = length b\<rparr>))"
proof (rule own_read [OF inv r arg ok])
  fix tc w1
  assume s: "scope_read M targ (do_env dw) w = Inr (tc, w1)"
    and t: "txns (w_mdb w1) (ts_txn tc) = Some (eo_env ew)" and v: "view (w_mdb w1) (ts_txn tc) = com (w_mdb w) (eo_env ew)"
    and c: "com (w_mdb w1) = com (w_mdb w)" and p: "plain (w_mdb w1) = plain (w_mdb w)"
    and d: "\<And>x. scope_dtor M tc x = release_readlock M (do_env dw) x"
  obtain rc mv where g: "mdb_get M (ts_txn tc) (do_dbi dw) key (w_mdb w1) = (rc, mv)" by fastforce
  have out: "out = (if rc = MDB_NOTFOUND then Return JNull else if rc \<noteq> 0 then Throw (MdbError rc) else decode_outcome (do_V dw) g mv)"
    and w': "w' = release_readlock M (do_env dw) w1"
    using run r k s g d by (auto simp: lmdb_get_def db_ready_def)
  have com: "com (w_mdb w') = com (w_mdb w)"
    using c reset_store unfolding w' by (auto simp: release_readlock_def split: option.splits)
  note gv = get_view [OF t _ g]
  have page: "\<exists>page. mv = \<lparr>mv_data = b @ page, mv_size = length b\<rparr>"
    if "b = take (mv_size mv) (mv_data mv)" "mv_size mv \<le> length (mv_data mv)" for b
    using that by (intro exI [of _ "drop (mv_size mv) (mv_data mv)"]) (cases mv, simp)
  show ?thesis
    using com out gv v p r page by (auto simp: db_ready_def MDB_NOTFOUND_def split: if_splits) metis
qed

subsection \<open>Operations inside a transaction of the caller\<close>

lemma put_in_txn:
  assumes inv: "lmdb_inv envs txns w" and r: "db_ready plain w this dw ew"
    and a: "w_txns w a = Some tw" "to_txn tw \<noteq> 0" "to_env tw = eo_env ew"
    and k: "kv_encode (do_K dw) V karg = Some key" and v: "kv_encode (do_V dw) V varg = Some val"
    and run: "lmdb_put M V this karg varg (JObject a) w = (Return (JBool True), w')"
  shows "com (w_mdb w') = com (w_mdb w)" and "w_txns w' = w_txns w" and "txns (w_mdb w') = txns (w_mdb w)"
    and "writer (w_mdb w') = writer (w_mdb w)"
    and "view (w_mdb w') (to_txn tw) =
      (view (w_mdb w) (to_txn tw))(do_dbi dw := (view (w_mdb w) (to_txn tw) (do_dbi dw))(key \<mapsto> val))"
proof -
  have t: "txns (w_mdb w) (to_txn tw) = Some (eo_env ew)"
    using txn_live [OF inv a(1,2)] a by simp
  obtain rc e where p: "mdb_put M (to_txn tw) (do_dbi dw) key val (w_mdb w) = (rc, e)" by fastforce
  have rc: "rc = 0" and w': "w' = w\<lparr>w_mdb := e\<rparr>"
    using run r a k v p by (auto simp: lmdb_put_def scope_write_def scope_dtor_def db_ready_def Let_def split: if_splits)
  show "com (w_mdb w') = com (w_mdb w)" "w_txns w' = w_txns w" "txns (w_mdb w') = txns (w_mdb w)" "writer (w_mdb w') = writer (w_mdb w)"
    using put_store [of "to_txn tw" "do_dbi dw" key val "w_mdb w"] put [of "to_txn tw" "do_dbi dw" key val "w_mdb w"]
    by (simp_all add: w' p)
  show "view (w_mdb w') (to_txn tw) =
      (view (w_mdb w) (to_txn tw))(do_dbi dw := (view (w_mdb w) (to_txn tw) (do_dbi dw))(key \<mapsto> val))"
    using put_view [OF t _ p [unfolded rc]] r by (simp add: w' db_ready_def)
qed

lemma commit_publishes:
  assumes inv: "lmdb_inv envs txns w" and a: "w_txns w a = Some tw" "to_txn tw \<noteq> 0"
    and wr: "writer (w_mdb w) (to_txn tw)" and run: "txn_commit M a w = (Return JUndefined, w')"
  shows "com (w_mdb w') = (com (w_mdb w))(to_env tw := view (w_mdb w) (to_txn tw))"
proof -
  have t: "txns (w_mdb w) (to_txn tw) = Some (to_env tw)"
    using txn_live [OF inv a(1,2)] a by simp
  obtain rc e where c: "mdb_txn_commit M (to_txn tw) (w_mdb w) = (rc, e)" by fastforce
  have "rc = 0" "w_mdb w' = e" using run a c by (auto simp: txn_commit_def split: if_splits)
  then show ?thesis using commit_store [OF t wr] c by simp
qed

lemma write_blocks:
  assumes inv: "lmdb_inv envs txns w" and r: "db_ready plain w this dw ew"
    and a: "w_txns w a = Some tw" "to_txn tw \<noteq> 0" "to_env tw = eo_env ew"
    and wr: "writer (w_mdb w) (to_txn tw)"
  shows "mdb_txn_begin M (eo_env ew) False (w_mdb w) = None"
proof -
  have "txns (w_mdb w) (to_txn tw) = Some (eo_env ew)"
    using txn_live [OF inv a(1,2)] a by simp
  moreover have "eo_env ew \<in> envs (w_mdb w)" using inv_env [OF inv] r by (auto simp: db_ready_def)
  ultimately show ?thesis using begin_blocks wr by blast
qed

subsection \<open>Sequences of operations\<close>

definition commits_succeed :: bool where
  "commits_succeed \<longleftrightarrow> (\<forall>t e. txns e t \<noteq> None \<longrightarrow> fst (mdb_txn_commit M t e) = 0)"

lemma commits_rc:
  "commits_succeed \<Longrightarrow> mdb_txn_commit M t e = (rc, e') \<Longrightarrow> txns e t = Some p \<Longrightarrow> rc = 0"
  unfolding commits_succeed_def by (metis fst_conv option.distinct(1))

lemma put_then_ready:
  assumes inv: "lmdb_inv envs txns w" and r: "db_ready plain w this dw ew" and arg: "\<not> IsObject targ"
    and k: "kv_encode (do_K dw) V karg = Some key" and v: "kv_encode (do_V dw) V varg = Some val" and c: "commits_succeed"
    and run: "lmdb_put M V this karg varg targ w = (Return (JBool True), w1)"
  shows "lmdb_inv envs txns w1" and "db_ready plain w1 this dw ew"
    and "com (w_mdb w1) = content_set (com (w_mdb w)) (eo_env ew) (do_dbi dw) key (Some val)"
proof -
  show "lmdb_inv envs txns w1" using safe_lmdb_put [OF inv, of V this karg varg targ] run by simp
  from put_own [OF inv r arg k v run]
  show "db_ready plain w1 this dw ew" "com (w_mdb w1) = content_set (com (w_mdb w)) (eo_env ew) (do_dbi dw) key (Some val)"
    using r by (auto simp: db_ready_def dest: commits_rc [OF c])
qed

lemma del_then_ready:
  assumes inv: "lmdb_inv envs txns w" and r: "db_ready plain w this dw ew" and arg: "\<not> IsObject targ"
    and k: "kv_encode (do_K dw) V karg = Some key" and v: "kv_encode (do_V dw) V varg = Some val" and c: "commits_succeed"
    and run: "lmdb_del M V this karg varg targ w = (Return (JBool True), w1)"
  shows "lmdb_inv envs txns w1" and "db_ready plain w1 this dw ew"
    and "com (w_mdb w1) = content_set (com (w_mdb w)) (eo_env ew) (do_dbi dw) key None"
proof -
  show "lmdb_inv envs txns w1" using safe_lmdb_del [OF inv, of V this karg varg targ] run by simp
  from del_own [OF inv r arg k v run]
  show "db_ready plain w1 this dw ew" "com (w_mdb w1) = content_set (com (w_mdb w)) (eo_env ew) (do_dbi dw) key None"
    using r by (auto simp: db_ready_def dest: commits_rc [OF c])
qed

lemma get_stored:
  assumes "lmdb_inv envs txns w" and "db_ready plain w this dw ew" and "\<not> IsObject targ"
    and "readlock_ok M ew w" and "kv_encode (do_K dw) V karg = Some key"
    and "lmdb_get M V g this karg targ w = (out, w')" and "length (g 1025) = 1025"
    and "com (w_mdb w) (eo_env ew) (do_dbi dw) key = Some val" and "kv_encode (do_V dw) V varg = Some val"
    and "kv_canonical (do_V dw) varg"
  shows "out = Return varg \<or> (\<exists>rc. out = Throw (MdbError rc))"
proof -
  have "kv_decode (do_V dw) g (val @ page) (length val) = Some varg" for page
    by (rule kv_roundtrip_lemma [where g = g, OF assms(10,9,7)])
  then show ?thesis using get_own [OF assms(1-6)] assms(8) by (auto simp: decode_outcome_def)
qed

end

section \<open>Properties\<close>



text \<open>
  C7.  Isolation and publication: a \<^verbatim>\<open>put\<close> inside the caller's transaction
  leaves the committed data alone; committing that transaction publishes the value, aborting it
  discards it.
\<close>

theorem lmdb_txn_isolation:
  assumes "lmdb_store M envs txns com view writer plain" and "lmdb_inv envs txns w"
    and "db_ready plain w this dw ew" and "w_txns w a = Some tw" and "to_txn tw \<noteq> 0" and "to_env tw = eo_env ew"
    and "writer (w_mdb w) (to_txn tw)"
    and "kv_encode (do_K dw) V karg = Some key" and "kv_encode (do_V dw) V varg = Some val"
    and "lmdb_put M V this karg varg (JObject a) w = (Return (JBool True), w1)"
  shows "com (w_mdb w1) = com (w_mdb w) \<and>
    (\<forall>w2. txn_commit M a w1 = (Return JUndefined, w2) \<longrightarrow> com (w_mdb w2) (eo_env ew) (do_dbi dw) key = Some val) \<and>
    (\<forall>out w2. txn_abort M a w1 = (out, w2) \<longrightarrow> com (w_mdb w2) = com (w_mdb w))"
proof -
  note L = assms(1)
  note p = lmdb_store.put_in_txn [OF L assms(2-6,8-10)]
  have inv: "lmdb_inv envs txns w1"
    using lmdb_handles.safe_lmdb_put [OF lmdb_store.axioms(1) [OF L] assms(2), of V this karg varg "JObject a"] assms(10) by simp
  have a: "w_txns w1 a = Some tw" "writer (w_mdb w1) (to_txn tw)" using p assms(4,7) by simp_all
  have "com (w_mdb w2) (eo_env ew) (do_dbi dw) key = Some val" if "txn_commit M a w1 = (Return JUndefined, w2)" for w2
    using lmdb_store.commit_publishes [OF L inv a(1) assms(5) a(2) that] p(5) assms(6) by simp
  moreover have "com (w_mdb w2) = com (w_mdb w)" if "txn_abort M a w1 = (out, w2)" for out w2
    using that a(1) p(1) assms(5) lmdb_store.abort_store [OF L, of "to_txn tw" "w_mdb w1"] by (auto simp: txn_abort_def)
  ultimately show ?thesis using p(1) by blast
qed


section \<open>Concrete runs on the reference library\<close>

text \<open>A world with one open environment, object 1, and a database of string keys and 32-bit
  values, object 3; in \<open>shop_txn\<close> also an open write transaction, object 2.\<close>

definition shop_dbi :: ref_dbi where
  "shop_dbi = \<lparr>rd_name = [100], rd_dup = False, rd_cmp = bytewise, rd_dcmp = bytewise\<rparr>"

definition shop_db :: db_obj where
  "shop_db = \<lparr>do_K = String, do_V = Number Int32, do_dbi = 0, do_env = 1, do_cur = 0\<rparr>"

definition shop_env :: env_obj where
  "shop_env = \<lparr>eo_env = 1, eo_read_lock = 0\<rparr>"

definition shop_ref :: "ptr \<Rightarrow> content list \<Rightarrow> ref_env" where
  "shop_ref writer data = \<lparr>re_dbis = [shop_dbi], re_data = data, re_writer = writer, re_reader = False, re_mapsize = 1048576\<rparr>"

definition shop :: "nat \<Rightarrow> content list \<Rightarrow> ref_mdb world" where
  "shop n data =
     \<lparr>w_mdb = \<lparr>r_next_env = 1, r_next_txn = n, r_next_cur = 0, r_envs = [1 \<mapsto> shop_ref 0 data], r_txns = Map.empty, r_curs = Map.empty\<rparr>,
      w_envs = [1 \<mapsto> shop_env], w_txns = Map.empty, w_dbs = [3 \<mapsto> shop_db], w_cursors = Map.empty, w_queue = []\<rparr>"

definition shop_txn :: "content list \<Rightarrow> ref_mdb world" where
  "shop_txn data =
     (shop 1 [[]])\<lparr>w_mdb := \<lparr>r_next_env = 1, r_next_txn = 1, r_next_cur = 0, r_envs = [1 \<mapsto> shop_ref 1 [[]]],
         r_txns = [1 \<mapsto> \<lparr>rt_env = 1, rt_ro = False, rt_active = True, rt_data = data\<rparr>], r_curs = Map.empty\<rparr>,
       w_txns := [2 \<mapsto> \<lparr>to_readonly = False, to_txn = 1, to_env = 1\<rparr>]\<rparr>"

lemmas shop_defs = shop_def shop_txn_def shop_ref_def shop_env_def shop_db_def shop_dbi_def

lemma shop_inv: "lmdb_inv ref_envs ref_txns (shop n data)"
proof -
  have "holds (shop n data) h = None" for h by (cases h) (auto simp: shop_defs)
  moreover have "ref_txns (w_mdb (shop n data)) t = None" for t by (simp add: shop_def ref_txns_def)
  ultimately show ?thesis
    by (auto simp: lmdb_inv_def owns_def envs_ok_def) (auto simp: shop_defs ref_envs_def split: if_splits)
qed

lemma shop_txn_inv: "lmdb_inv ref_envs ref_txns (shop_txn data)"
proof -
  have h: "holds (shop_txn data) h = (if h = HTxn 2 then Some (1, 1) else None)" for h by (cases h) (auto simp: shop_defs)
  have t: "ref_txns (w_mdb (shop_txn data)) t = (if t = 1 then Some 1 else None)" for t by (simp add: shop_txn_def ref_txns_def)
  have "owns (holds (shop_txn data)) (ref_txns (w_mdb (shop_txn data)))"
    by (rule ownsI) (auto simp: h t split: if_splits)
  then show ?thesis
    by (auto simp: lmdb_inv_def envs_ok_def) (auto simp: shop_defs ref_envs_def split: if_splits)
qed

lemma shop_ready:
  "db_ready ref_plain (shop n data) 3 shop_db shop_env"
  "db_ready ref_plain (shop_txn data) 3 shop_db shop_env"
  by (simp_all add: db_ready_def shop_defs ref_plain_def)

lemma shop_encode:
  "kv_encode (do_K shop_db) v8_demo (JString [97]) = Some [97, 0]"
  "kv_encode (do_V shop_db) v8_demo (JNumber 5) = Some [5, 0, 0, 0]"
  by (simp_all add: shop_db_def string_of_js_def ToString_def Let_def number_data_def Int32Value_def Uint32Value_def
      ToNumber_def to_signed_def le_encode_numeral)

lemmas ref_run_defs = ref_txn_begin_def ref_put_def ref_update_def ref_dbi_of_def ref_txn_commit_def ref_txn_end_def
  ref_release_def content_put_def content_size_def ref_get_def ref_txn_reset_def

lemma shop_put: "lmdb_put ref_lmdb v8_demo 3 (JString [97]) (JNumber 5) JUndefined (shop 0 [[]]) =
    (Return (JBool True), shop 1 [[([97, 0], [5, 0, 0, 0])]])"
proof -
  have "w_dbs (shop 0 [[]]) 3 = Some shop_db" "w_envs (shop 0 [[]]) (do_env shop_db) = Some shop_env" by (simp_all add: shop_defs)
  then show ?thesis using shop_encode
    by (simp add: lmdb_put_def scope_write_def scope_dtor_def ref_run_defs Let_def) (simp add: shop_defs scope_dtor_def ref_run_defs Let_def)
qed

lemma shop_txn_put: "lmdb_put ref_lmdb v8_demo 3 (JString [97]) (JNumber 5) (JObject 2) (shop_txn [[]]) =
    (Return (JBool True), shop_txn [[([97, 0], [5, 0, 0, 0])]])"
proof -
  have "w_dbs (shop_txn [[]]) 3 = Some shop_db" "w_envs (shop_txn [[]]) (do_env shop_db) = Some shop_env"
    by (simp_all add: shop_defs)
  then show ?thesis using shop_encode
    by (simp add: lmdb_put_def scope_write_def scope_dtor_def ref_run_defs Let_def)
      (simp add: shop_defs scope_dtor_def ref_run_defs Let_def)
qed


lemma shop_readlock: "readlock_ok ref_lmdb shop_env (shop n data)"
  by (simp add: readlock_ok_def shop_defs ref_txn_begin_def Let_def)

lemma ref_commits: "\<forall>t e. ref_txns e t \<noteq> None \<longrightarrow> fst (mdb_txn_commit ref_lmdb t e) = 0"
  by (auto simp: ref_txns_def ref_txn_commit_def split: if_splits)

lemma shop_get:
  "fst (lmdb_get ref_lmdb v8_demo demo_g 3 (JString [97]) JUndefined (shop 1 [[([97, 0], [5, 0, 0, 0])]])) \<noteq> Throw (MdbError rc)"
proof -
  let ?w = "shop 1 [[([97, 0], [5, 0, 0, 0])]]"
  have "w_dbs ?w 3 = Some shop_db" "w_envs ?w (do_env shop_db) = Some shop_env" by (simp_all add: shop_defs)
  then show ?thesis using shop_encode
    by (simp add: lmdb_get_def scope_read_def require_readlock_def ref_run_defs shop_env_def Let_def)
      (simp add: shop_defs ref_run_defs decode_outcome_def val_of_def mdb_codes split: option.splits)
qed


theorem lmdb_txn_isolation_witness:
  "ref_com (w_mdb (shop_txn [[([97, 0], [5, 0, 0, 0])]])) = ref_com (w_mdb (shop_txn [[]])) \<and>
   fst (txn_commit ref_lmdb 2 (shop_txn [[([97, 0], [5, 0, 0, 0])]])) = Return JUndefined \<and>
   ref_com (w_mdb (snd (txn_commit ref_lmdb 2 (shop_txn [[([97, 0], [5, 0, 0, 0])]])))) 1 0 [97, 0] = Some [5, 0, 0, 0]"
proof -
  let ?w1 = "shop_txn [[([97, 0], [5, 0, 0, 0])]]"
  have a: "w_txns (shop_txn [[]]) 2 = Some \<lparr>to_readonly = False, to_txn = 1, to_env = 1\<rparr>" by (simp add: shop_txn_def)
  have wr: "ref_writer (w_mdb (shop_txn [[]])) 1" by (simp add: shop_txn_def shop_ref_def ref_writer_def)
  have c: "fst (txn_commit ref_lmdb 2 ?w1) = Return JUndefined"
    by (simp add: txn_commit_def shop_txn_def ref_txn_commit_def)
  obtain w2 where w2: "txn_commit ref_lmdb 2 ?w1 = (Return JUndefined, w2)"
    using c by (cases "txn_commit ref_lmdb 2 ?w1") auto
  show ?thesis
    using lmdb_txn_isolation [OF ref_store.lmdb_store_axioms shop_txn_inv shop_ready(2) a _ _ _ shop_encode shop_txn_put] wr w2
    by (simp add: shop_env_def shop_db_def)
qed


end
