(* ===== verification/Lvl_Coding.thy ===== *)
theory Lvl_Coding
  imports Kv_Prelude
begin

text \<open>
  LevelDB's integer coding, \<^verbatim>\<open>src/3rd-party/leveldb/leveldb-1.18/util/coding.cc\<close>
  and \<^verbatim>\<open>coding.h\<close>: fixed-width integers, varints and length-prefixed slices.
  A slice is the list of its bytes; a routine that advances its input returns the rest.
  \<^verbatim>\<open>Get\<close> routines return \<open>None\<close> where the C++ returns
  \<^verbatim>\<open>NULL\<close> or \<^verbatim>\<open>false\<close>.
\<close>

unbundle bit_operations_syntax

type_synonym u32 = "32 word"
type_synonym u64 = "64 word"

section \<open>Fixed-width integers\<close>

text \<open>\<open>le\<close> is \<^verbatim>\<open>port::kLittleEndian\<close>: on a little-endian host
  the memory image of the integer is copied, otherwise its bytes are extracted.\<close>

definition EncodeFixed32 :: "bool \<Rightarrow> u32 \<Rightarrow> bytes" where
  "EncodeFixed32 le value =
     (if le then le_encode 4 (unat value)
      else [ucast (value AND 0xff), ucast (drop_bit 8 value AND 0xff),
            ucast (drop_bit 16 value AND 0xff), ucast (drop_bit 24 value AND 0xff)])"

definition EncodeFixed64 :: "bool \<Rightarrow> u64 \<Rightarrow> bytes" where
  "EncodeFixed64 le value =
     (if le then le_encode 8 (unat value)
      else [ucast (value AND 0xff), ucast (drop_bit 8 value AND 0xff),
            ucast (drop_bit 16 value AND 0xff), ucast (drop_bit 24 value AND 0xff),
            ucast (drop_bit 32 value AND 0xff), ucast (drop_bit 40 value AND 0xff),
            ucast (drop_bit 48 value AND 0xff), ucast (drop_bit 56 value AND 0xff)])"

text \<open>The decoders read from a pointer without a bounds check: \<open>None\<close> when fewer bytes
  are there.\<close>

definition DecodeFixed32 :: "bool \<Rightarrow> bytes \<Rightarrow> u32 option" where
  "DecodeFixed32 le ptr =
     (if length ptr < 4 then None
      else Some (if le then of_nat (le_decode (take 4 ptr))
                 else ucast (ptr ! 0) OR push_bit 8 (ucast (ptr ! 1)) OR
                      push_bit 16 (ucast (ptr ! 2)) OR push_bit 24 (ucast (ptr ! 3))))"

definition DecodeFixed64 :: "bool \<Rightarrow> bytes \<Rightarrow> u64 option" where
  "DecodeFixed64 le ptr =
     (if le then (if length ptr < 8 then None else Some (of_nat (le_decode (take 8 ptr))))
      else case (DecodeFixed32 le ptr, DecodeFixed32 le (drop 4 ptr)) of
             (Some lo, Some hi) \<Rightarrow> Some (push_bit 32 (ucast hi) OR ucast lo)
           | _ \<Rightarrow> None)"

definition PutFixed32 :: "bytes \<Rightarrow> u32 \<Rightarrow> bytes" where
  "PutFixed32 dst value = dst @ EncodeFixed32 True value"

definition PutFixed64 :: "bytes \<Rightarrow> u64 \<Rightarrow> bytes" where
  "PutFixed64 dst value = dst @ EncodeFixed64 True value"

section \<open>Varints\<close>

definition EncodeVarint32 :: "u32 \<Rightarrow> bytes" where
  "EncodeVarint32 v =
     (if v < push_bit 7 1 then [ucast v]
      else if v < push_bit 14 1 then [ucast (v OR 128), ucast (drop_bit 7 v)]
      else if v < push_bit 21 1 then [ucast (v OR 128), ucast (drop_bit 7 v OR 128), ucast (drop_bit 14 v)]
      else if v < push_bit 28 1
      then [ucast (v OR 128), ucast (drop_bit 7 v OR 128), ucast (drop_bit 14 v OR 128), ucast (drop_bit 21 v)]
      else [ucast (v OR 128), ucast (drop_bit 7 v OR 128), ucast (drop_bit 14 v OR 128),
            ucast (drop_bit 21 v OR 128), ucast (drop_bit 28 v)])"

definition PutVarint32 :: "bytes \<Rightarrow> u32 \<Rightarrow> bytes" where
  "PutVarint32 dst v = dst @ EncodeVarint32 v"

function EncodeVarint64 :: "u64 \<Rightarrow> bytes" where
  "EncodeVarint64 v =
     (if v \<ge> 128 then ucast ((v AND 127) OR 128) # EncodeVarint64 (drop_bit 7 v) else [ucast v])"
  by pat_completeness auto
termination
proof (relation "measure unat")
  fix v :: u64 assume "v \<ge> 128"
  then have "128 \<le> unat v" by (simp add: word_le_nat_alt)
  moreover have "unat (drop_bit 7 v) = unat v div 128" unfolding unat_drop_bit_eq by (simp add: drop_bit_eq_div)
  ultimately show "(drop_bit 7 v, v) \<in> measure unat" by simp
qed simp

declare EncodeVarint64.simps [simp del]

definition PutVarint64 :: "bytes \<Rightarrow> u64 \<Rightarrow> bytes" where
  "PutVarint64 dst v = dst @ EncodeVarint64 v"

definition PutLengthPrefixedSlice :: "bytes \<Rightarrow> bytes \<Rightarrow> bytes" where
  "PutLengthPrefixedSlice dst value = PutVarint32 dst (of_nat (length value)) @ value"

function VarintLength :: "u64 \<Rightarrow> nat" where
  "VarintLength v = (if v \<ge> 128 then Suc (VarintLength (drop_bit 7 v)) else 1)"
  by pat_completeness auto
termination
proof (relation "measure unat")
  fix v :: u64 assume "v \<ge> 128"
  then have "128 \<le> unat v" by (simp add: word_le_nat_alt)
  moreover have "unat (drop_bit 7 v) = unat v div 128" unfolding unat_drop_bit_eq by (simp add: drop_bit_eq_div)
  ultimately show "(drop_bit 7 v, v) \<in> measure unat" by simp
qed simp

declare VarintLength.simps [simp del]

fun varint32_loop :: "nat \<Rightarrow> u32 \<Rightarrow> bytes \<Rightarrow> (u32 \<times> bytes) option" where
  "varint32_loop shift result [] = None"
| "varint32_loop shift result (c # p) =
     (if shift \<le> 28
      then let byte = (ucast c :: u32)
           in if byte AND 128 \<noteq> 0 then varint32_loop (shift + 7) (result OR push_bit shift (byte AND 127)) p
              else Some (result OR push_bit shift byte, p)
      else None)"

definition GetVarint32PtrFallback :: "bytes \<Rightarrow> (u32 \<times> bytes) option" where
  "GetVarint32PtrFallback p = varint32_loop 0 0 p"

definition GetVarint32 :: "bytes \<Rightarrow> (u32 \<times> bytes) option" where
  "GetVarint32 input =
     (case input of
        c # p \<Rightarrow> (let result = (ucast c :: u32) in if result AND 128 = 0 then Some (result, p) else GetVarint32PtrFallback input)
      | [] \<Rightarrow> GetVarint32PtrFallback input)"

fun varint64_loop :: "nat \<Rightarrow> u64 \<Rightarrow> bytes \<Rightarrow> (u64 \<times> bytes) option" where
  "varint64_loop shift result [] = None"
| "varint64_loop shift result (c # p) =
     (if shift \<le> 63
      then let byte = (ucast c :: u64)
           in if byte AND 128 \<noteq> 0 then varint64_loop (shift + 7) (result OR push_bit shift (byte AND 127)) p
              else Some (result OR push_bit shift byte, p)
      else None)"

definition GetVarint64 :: "bytes \<Rightarrow> (u64 \<times> bytes) option" where
  "GetVarint64 input = varint64_loop 0 0 input"

text \<open>Both versions of \<^verbatim>\<open>GetLengthPrefixedSlice\<close> check the remaining length
  and return the slice and the rest.\<close>

definition GetLengthPrefixedSlice :: "bytes \<Rightarrow> (bytes \<times> bytes) option" where
  "GetLengthPrefixedSlice input =
     (case GetVarint32 input of
        None \<Rightarrow> None
      | Some (len, rest) \<Rightarrow>
          if length rest \<ge> unat len then Some (take (unat len) rest, drop (unat len) rest) else None)"

section \<open>Bytes of words\<close>

lemma unat_shift: "unat (drop_bit k (v :: 'a::len word)) = unat v div 2 ^ k"
  unfolding unat_drop_bit_eq by (simp add: drop_bit_eq_div)

lemma ucast_drop_byte: "(ucast (drop_bit k (w :: 'a::len word)) :: byte) = of_nat (unat w div 2 ^ k)"
  by (metis of_nat_unat unat_drop_bit_eq drop_bit_eq_div)

lemma ucast_and_255: "8 \<le> LENGTH('a) \<Longrightarrow> (ucast (x AND 0xff :: 'a::len word) :: byte) = ucast x" 
proof (rule bit_word_eqI)
  fix n assume l: "8 \<le> LENGTH('a)" and  "n < LENGTH(8)"
  then have n: "n < 8" by simp
  have "bit (mask 8 :: 'a word) n" using n l by (intro bit_mask_iff [THEN iffD2]) (simp add: possible_bit_word)
  moreover have "mask 8 = (0xff :: 'a word)" by (simp add: mask_eq_exp_minus_1)
  ultimately have "bit (0xff :: 'a word) n" by (simp only:)
  then show "bit (ucast (x AND 0xff) :: byte) n = bit (ucast x :: byte) n"
    using n l by (simp add: bit_ucast_iff bit_and_iff)
qed

lemma of_nat_7: "(of_nat n :: 'a::len word) = of_nat (n mod 128) OR push_bit 7 (of_nat (n div 128))"
proof (rule bit_word_eqI)
  fix i assume i: "i < LENGTH('a)"
  have "n mod 128 = take_bit 7 n" "n div 128 = drop_bit 7 n" by (simp_all add: take_bit_eq_mod drop_bit_eq_div)
  then show "bit (of_nat n :: 'a word) i = bit (of_nat (n mod 128) OR push_bit 7 (of_nat (n div 128)) :: 'a word) i"
    using i by (auto simp: bit_or_iff bit_push_bit_iff bit_of_nat_iff bit_take_bit_iff bit_drop_bit_eq possible_bit_word)
qed

lemma nat_or_128: "n < 128 \<Longrightarrow> n + 128 = n OR (128 :: nat)"
proof (rule disjunctive_add)
  fix i assume n: "n < 128"
  have "(128 :: nat) = 2 ^ 7" by simp
  then have "bit (128 :: nat) i = (i = 7)" using bit_exp_iff [of 7 i, where 'a = nat] by auto
  moreover have "take_bit 7 n = n" using n by (simp add: take_bit_eq_mod)
  then have "\<not> bit n 7" by (metis bit_take_bit_iff less_irrefl)
  ultimately show "\<not> bit n i \<or> \<not> bit (128 :: nat) i" by auto
qed

lemma nat_and_128: "n < 128 \<Longrightarrow> n AND (128 :: nat) = 0"
proof (rule bit_eqI)
  fix i assume n: "n < 128"
  have "(128 :: nat) = 2 ^ 7" by simp
  then have "bit (128 :: nat) i = (i = 7)" using bit_exp_iff [of 7 i, where 'a = nat] by auto
  moreover have "take_bit 7 n = n" using n by (simp add: take_bit_eq_mod)
  then have "\<not> bit n 7" by (metis bit_take_bit_iff less_irrefl)
  ultimately show "bit (n AND (128 :: nat)) i = bit 0 i" by (auto simp: bit_and_iff)
qed

lemma nat_and_127: "n AND (127 :: nat) = n mod 128"
proof -
  have "n AND mask 7 = n mod 2 ^ 7" by (simp only: take_bit_eq_mask [symmetric] take_bit_eq_mod)
  moreover have "mask 7 = (127 :: nat)" "(2 :: nat) ^ 7 = 128" by (simp_all add: mask_eq_exp_minus_1)
  ultimately show ?thesis by (simp only:)
qed

lemma unat_and_127: "unat ((v :: u64) AND 127) = unat v mod 128"
  using nat_and_127 [of "unat v"] by (simp add: unsigned_and_eq)

lemma ucast_of_nat_byte:
  assumes "m < 256" and "8 \<le> LENGTH('a)"
  shows "(ucast (of_nat m :: byte) :: 'a::len word) = of_nat m"
  using assms by (metis of_nat_unat unat_of_nat_byte mod_less)

lemma varint_byte_more:
  assumes "n < 128" and l: "8 \<le> LENGTH('a)"
  shows "(ucast (of_nat (n + 128) :: byte) :: 'a::len word) AND 128 \<noteq> 0"
    and "(ucast (of_nat (n + 128) :: byte) :: 'a::len word) AND 127 = of_nat n"
proof -
  have u: "(ucast (of_nat (n + 128) :: byte) :: 'a word) = of_nat (n + 128)"
    by (rule ucast_of_nat_byte) (use assms in auto)
  have "(n + 128) AND 128 = (128 :: nat)"
    unfolding nat_or_128 [OF assms(1)] by (rule bit_eqI) (auto simp: bit_and_iff bit_or_iff)
  then have "(of_nat (n + 128) AND 128 :: 'a word) = 128" by (metis of_nat_and_eq of_nat_numeral)
  moreover have "(128 :: 'a word) \<noteq> 0"
  proof -
    have "(2 :: nat) ^ 8 \<le> 2 ^ LENGTH('a)" using l by (intro power_increasing) auto
    then have "unat (of_nat 128 :: 'a word) = 128" unfolding unat_of_nat by (intro mod_less) simp
    then show ?thesis by (metis of_nat_numeral unat_0 zero_neq_numeral)
  qed
  ultimately show "(ucast (of_nat (n + 128) :: byte) :: 'a word) AND 128 \<noteq> 0" unfolding u by simp
  have "(n + 128) AND 127 = n" using assms by (simp add: nat_and_127)
  then show "(ucast (of_nat (n + 128) :: byte) :: 'a word) AND 127 = of_nat n"
    unfolding u by (metis of_nat_and_eq of_nat_numeral)
qed

lemma varint_byte_last:
  assumes "n < 128" and "8 \<le> LENGTH('a)"
  shows "(ucast (of_nat n :: byte) :: 'a::len word) AND 128 = 0" and "(ucast (of_nat n :: byte) :: 'a word) = of_nat n"
proof -
  show u: "(ucast (of_nat n :: byte) :: 'a word) = of_nat n" by (rule ucast_of_nat_byte) (use assms in auto)
  show "(ucast (of_nat n :: byte) :: 'a word) AND 128 = 0"
    using of_nat_and_eq [of n 128, where 'a = "'a word"] unfolding u nat_and_128 [OF assms(1)] by simp
qed

section \<open>Fixed-width integers: both hosts agree\<close>

lemma EncodeFixed32_le [simp, codec_simps]: "EncodeFixed32 le v = le_encode 4 (unat v)"
proof -
  have "[ucast v, ucast (drop_bit 8 v), ucast (drop_bit 16 v), ucast (drop_bit 24 v)] = le_encode 4 (unat v)"
    by (simp only: ucast_drop_byte le_encode_numeral) (simp add: le_encode_numeral div_mult2_eq [symmetric])
  then show ?thesis by (simp add: EncodeFixed32_def ucast_and_255)
qed

lemma EncodeFixed64_le [simp, codec_simps]: "EncodeFixed64 le v = le_encode 8 (unat v)"
proof -
  have "[ucast v, ucast (drop_bit 8 v), ucast (drop_bit 16 v), ucast (drop_bit 24 v), ucast (drop_bit 32 v),
      ucast (drop_bit 40 v), ucast (drop_bit 48 v), ucast (drop_bit 56 v)] = le_encode 8 (unat v)"
    by (simp only: ucast_drop_byte le_encode_numeral) (simp add: le_encode_numeral div_mult2_eq [symmetric])
  then show ?thesis by (simp add: EncodeFixed64_def ucast_and_255)
qed

lemma unat_u32_less: "unat (v :: u32) < 256 ^ 4"
  using unsigned_less [of v] by simp

lemma unat_u64_less: "unat (v :: u64) < 256 ^ 8"
  using unsigned_less [of v] by simp

lemma DecodeFixed32_Encode [simp, codec_simps]: "DecodeFixed32 True (le_encode 4 (unat v) @ rest) = Some v"
  by (simp add: DecodeFixed32_def unat_u32_less del: power_numeral)

lemma DecodeFixed64_Encode [simp, codec_simps]: "DecodeFixed64 True (le_encode 8 (unat v) @ rest) = Some v"
  by (simp add: DecodeFixed64_def unat_u64_less del: power_numeral)

section \<open>Varints\<close>

text \<open>The common meaning of the two encoders: groups of seven bits, low group first.\<close>

function varint :: "nat \<Rightarrow> bytes" where
  "varint n = (if n \<ge> 128 then of_nat (n mod 128 + 128) # varint (n div 128) else [of_nat n])"
  by pat_completeness auto
termination by (relation "measure id") auto

declare varint.simps [simp del]

lemma bit_128_byte: "bit (128 :: byte) n \<longleftrightarrow> n = 7"
proof -
  have "(128 :: byte) = 2 ^ 7" by simp
  then show ?thesis using bit_exp_iff [of 7 n, where 'a = byte] by (auto simp: possible_bit_word)
qed

lemma ucast_or_128:
  assumes "8 \<le> LENGTH('a)"
  shows "(ucast (x OR 128 :: 'a::len word) :: byte) = of_nat (unat x mod 128 + 128)"
proof -
  have "(ucast (x OR 128) :: byte) = ucast x OR 128"
    using assms by (intro bit_word_eqI) (auto simp: bit_ucast_iff bit_or_iff)
  also have "(ucast x :: byte) = of_nat (unat x mod 128) OR push_bit 7 (of_nat (unat x div 128))"
    using of_nat_7 [of "unat x", where 'a = 8] by simp
  also have "\<dots> OR 128 = of_nat (unat x mod 128) OR (128 :: byte)"
  proof (rule bit_word_eqI)
    fix n assume "n < LENGTH(8)"
    then consider "n = 7" | "n < 7" by fastforce
    then show "bit ((of_nat (unat x mod 128) OR push_bit 7 (of_nat (unat x div 128))) OR 128 :: byte) n =
        bit (of_nat (unat x mod 128) OR (128 :: byte)) n"
      using bit_128_byte [of n] by cases (auto simp: bit_or_iff bit_push_bit_iff)
  qed
  also have "\<dots> = of_nat (unat x mod 128 OR 128)" by (simp only: of_nat_or_eq of_nat_numeral)
  finally show ?thesis using nat_or_128 [of "unat x mod 128"] by simp
qed

lemma EncodeVarint32_varint [codec_simps]: "EncodeVarint32 v = varint (unat v)"
proof -
  note s = varint.simps [of "unat v"] varint.simps [of "unat v div 128"] varint.simps [of "unat v div 16384"]
    varint.simps [of "unat v div 2097152"] varint.simps [of "unat v div 268435456"]
  have d: "unat v div 128 div 128 = unat v div 16384" "unat v div 16384 div 128 = unat v div 2097152"
    "unat v div 2097152 div 128 = unat v div 268435456"
    by (simp_all add: div_mult2_eq [symmetric])
  have l: "128 \<le> unat v div 128 \<longleftrightarrow> 16384 \<le> unat v" "128 \<le> unat v div 16384 \<longleftrightarrow> 2097152 \<le> unat v"
    "128 \<le> unat v div 2097152 \<longleftrightarrow> 268435456 \<le> unat v" "\<not> 128 \<le> unat v div 268435456"
    using unat_u32_less [of v] by (simp_all add: less_eq_div_iff_mult_less_eq)
  have p: "v < push_bit 7 1 \<longleftrightarrow> unat v < 128" "v < push_bit 14 1 \<longleftrightarrow> unat v < 16384"
    "v < push_bit 21 1 \<longleftrightarrow> unat v < 2097152" "v < push_bit 28 1 \<longleftrightarrow> unat v < 268435456"
    by (simp_all add: word_less_nat_alt)
  have b: "(ucast (drop_bit k v) :: byte) = of_nat (unat v div 2 ^ k)"
    "(ucast (drop_bit k v OR 128) :: byte) = of_nat (unat v div 2 ^ k mod 128 + 128)" for k
    by (simp only: ucast_drop_byte) (simp add: ucast_or_128 unat_shift)
  have b0: "(ucast v :: byte) = of_nat (unat v)" "(ucast (v OR 128) :: byte) = of_nat (unat v mod 128 + 128)"
    by (simp_all add: ucast_or_128)
  show ?thesis
    by (simp only: EncodeVarint32_def p b b0 s d l power_numeral) (auto simp: not_less split: if_splits)
qed

lemma EncodeVarint64_varint [codec_simps]: "EncodeVarint64 v = varint (unat v)"
proof (induction v rule: EncodeVarint64.induct)
  case (1 v)
  have "(ucast ((v AND 127) OR 128) :: byte) = of_nat (unat v mod 128 + 128)"
    by (simp add: ucast_or_128 unat_and_127)
  moreover have "unat (drop_bit 7 v) = unat v div 128" by (simp add: unat_shift)
  moreover have "v \<ge> 128 \<longleftrightarrow> 128 \<le> unat v" by (simp add: word_le_nat_alt)
  ultimately show ?case using 1 EncodeVarint64.simps [of v] varint.simps [of "unat v"] by simp
qed

lemma varint_not_Nil [simp]: "varint n \<noteq> []"
  by (subst varint.simps) simp

text \<open>The two decoding loops differ in the width and the largest shift only.\<close>

fun varint_loop :: "nat \<Rightarrow> nat \<Rightarrow> 'a::len word \<Rightarrow> bytes \<Rightarrow> ('a word \<times> bytes) option" where
  "varint_loop m shift result [] = None"
| "varint_loop m shift result (c # p) =
     (if shift \<le> m
      then if (ucast c :: 'a word) AND 128 \<noteq> 0 then varint_loop m (shift + 7) (result OR push_bit shift (ucast c AND 127)) p
           else Some (result OR push_bit shift (ucast c), p)
      else None)"

lemma varint32_loop_eq: "varint32_loop shift result p = varint_loop 28 shift result p"
  by (induction p arbitrary: shift result) (auto simp: Let_def)

lemma varint64_loop_eq: "varint64_loop shift result p = varint_loop 63 shift result p"
  by (induction p arbitrary: shift result) (auto simp: Let_def)

lemma varint_loop_varint:
  assumes "n < 2 ^ (LENGTH('a) - s)" and "7 dvd s" and "s \<le> m" and l: "8 \<le> LENGTH('a)"
    and step: "\<And>s. 7 dvd s \<Longrightarrow> s + 7 < LENGTH('a) \<Longrightarrow> s + 7 \<le> m"
  shows "varint_loop m s (r :: 'a::len word) (varint n @ rest) = Some (r OR push_bit s (of_nat n), rest)"
  using assms(1-3)
proof (induction n arbitrary: s r rule: varint.induct)
  case (1 n)
  show ?case
  proof (cases "n \<ge> 128")
    case True
    then have "(2 :: nat) ^ 7 < 2 ^ (LENGTH('a) - s)" using 1(2) by simp
    then have "7 < LENGTH('a) - s" by (simp only: power_strict_increasing_iff)
    then have s: "s + 7 < LENGTH('a)" by simp
    then have s7: "s + 7 \<le> m" "7 dvd s + 7" using 1(3) step by auto
    have "n div 128 < 2 ^ (LENGTH('a) - (s + 7))"
    proof -
      have "LENGTH('a) - s = (LENGTH('a) - (s + 7)) + 7" using s by simp
      then have "(2 :: nat) ^ (LENGTH('a) - s) = 2 ^ (LENGTH('a) - (s + 7)) * 128" by (simp only: power_add) simp
      then show ?thesis using 1(2) by (simp add: less_mult_imp_div_less)
    qed
    from 1(1) [OF True this s7(2,1)]
    have "varint_loop m (s + 7) (r OR push_bit s (of_nat (n mod 128))) (varint (n div 128) @ rest) =
        Some ((r OR push_bit s (of_nat (n mod 128))) OR push_bit (s + 7) (of_nat (n div 128)), rest)" .
    moreover have "push_bit s (of_nat (n mod 128)) OR push_bit (s + 7) (of_nat (n div 128)) = push_bit s (of_nat n :: 'a word)"
      by (subst of_nat_7 [of n]) (simp only: push_bit_or push_bit_push_bit)
    ultimately show ?thesis
      using True 1(4) varint_byte_more [of "n mod 128", where 'a = 'a] l
      by (subst varint.simps) (simp add: or.assoc)
  next
    case False
    then show ?thesis using 1(4) varint_byte_last [of n, where 'a = 'a] l
      by (subst varint.simps) simp
  qed
qed

lemma varint_step: "7 dvd s \<Longrightarrow> s + 7 < 32 \<Longrightarrow> s + 7 \<le> (28 :: nat)" "7 dvd s \<Longrightarrow> s + 7 < 64 \<Longrightarrow> s + 7 \<le> (63 :: nat)"
  by presburger+

lemma GetVarint32_varint [simp, codec_simps]: "GetVarint32 (varint (unat v) @ rest) = Some (v, rest)"
proof -
  have f: "GetVarint32PtrFallback (varint (unat v) @ rest) = Some (v, rest)"
    using varint_loop_varint [of "unat v" 0 28 "0 :: u32" rest] varint_step(1) unat_u32_less [of v]
    by (simp add: GetVarint32PtrFallback_def varint32_loop_eq)
  show ?thesis
  proof (cases "unat v \<ge> 128")
    case True
    obtain c p where c: "varint (unat v) = c # p" by (cases "varint (unat v)") auto
    then have "c = of_nat (unat v mod 128 + 128)" using True by (subst (asm) varint.simps) simp
    then have "(ucast c :: u32) AND 128 \<noteq> 0" using varint_byte_more(1) [of "unat v mod 128", where 'a = 32] by simp
    then show ?thesis using f by (simp add: GetVarint32_def c Let_def)
  next
    case False
    then have "varint (unat v) = [of_nat (unat v)]" by (subst varint.simps) simp
    then show ?thesis using False varint_byte_last [of "unat v", where 'a = 32] by (simp add: GetVarint32_def Let_def)
  qed
qed

lemma GetVarint64_varint [simp, codec_simps]: "GetVarint64 (varint (unat v) @ rest) = Some (v, rest)"
  using varint_loop_varint [of "unat v" 0 63 "0 :: u64" rest] varint_step(2) unat_u64_less [of v]
  by (simp add: GetVarint64_def varint64_loop_eq)

lemma VarintLength_varint: "VarintLength v = length (varint (unat v))"
proof (induction v rule: VarintLength.induct)
  case (1 v)
  have "unat (drop_bit 7 v) = unat v div 128" by (simp only: unat_shift) simp
  moreover have "v \<ge> 128 \<longleftrightarrow> 128 \<le> unat v" by (simp add: word_le_nat_alt)
  ultimately show ?case using 1 VarintLength.simps [of v] varint.simps [of "unat v"] by simp
qed

lemma length_varint_le:
  assumes "n < 2 ^ (7 * k)" and "0 < k"
  shows "length (varint n) \<le> k"
  using assms
proof (induction k arbitrary: n)
  case (Suc k)
  show ?case
  proof (cases "n \<ge> 128")
    case True
    have "k \<noteq> 0"
    proof
      assume "k = 0" with Suc.prems True show False by simp
    qed
    moreover have "n div 128 < 2 ^ (7 * k)"
      using Suc.prems(1) by (simp add: power_add less_mult_imp_div_less mult.commute)
    ultimately show ?thesis using True Suc.IH [of "n div 128"] by (subst varint.simps) simp
  next
    case False
    then show ?thesis by (subst varint.simps) simp
  qed
qed simp

lemma GetLengthPrefixedSlice_Put [simp, codec_simps]:
  assumes "length s < 2 ^ 32"
  shows "GetLengthPrefixedSlice (varint (length s) @ s @ rest) = Some (s, rest)"
proof -
  have "unat (of_nat (length s) :: u32) = length s" using assms by (simp add: unat_of_nat)
  then show ?thesis using GetVarint32_varint [of "of_nat (length s)" "s @ rest"]
    by (simp add: GetLengthPrefixedSlice_def del: GetVarint32_varint)
qed

section \<open>Properties\<close>

lemma of_nat_split:
  assumes "x < 2 ^ k"
  shows "(of_nat (x + 2 ^ k * m) :: 'a::len word) = of_nat x OR push_bit k (of_nat m)"
proof (rule bit_word_eqI)
  fix i assume i: "i < LENGTH('a)"
  define n where "n = x + 2 ^ k * m"
  have n: "x = take_bit k n" "m = drop_bit k n"
    using assms by (simp_all add: n_def take_bit_eq_mod drop_bit_eq_div)
  have "bit (of_nat x :: 'a word) i = (i < k \<and> bit n i)"
    using i by (subst n(1)) (auto simp: bit_of_nat_iff bit_take_bit_iff possible_bit_word)
  moreover have "bit (push_bit k (of_nat m) :: 'a word) i = (k \<le> i \<and> bit n i)"
    using i by (subst n(2)) (auto simp: bit_push_bit_iff bit_of_nat_iff bit_drop_bit_eq possible_bit_word)
  ultimately show "bit (of_nat (x + 2 ^ k * m) :: 'a word) i = bit (of_nat x OR push_bit k (of_nat m) :: 'a word) i"
    unfolding n_def [symmetric] using i by (auto simp: bit_or_iff bit_of_nat_iff possible_bit_word)
qed

lemma of_nat_split8: "(of_nat (unat (b :: byte) + 256 * m) :: 'a::len word) = ucast b OR push_bit 8 (of_nat m)"
  using of_nat_split [of "unat b" 8 m, where 'a = 'a] unat_byte_less [of b] by simp

lemma DecodeFixed32_hosts: "DecodeFixed32 le ptr = DecodeFixed32 le' ptr"
proof (cases "length ptr < 4")
  case False
  then obtain a b c d rest where p: "ptr = a # b # c # d # rest"
    by (auto simp: not_less numeral_eq_Suc Suc_le_length_iff)
  have "(of_nat (le_decode [a, b, c, d]) :: u32) =
      ucast a OR push_bit 8 (ucast b OR push_bit 8 (ucast c OR push_bit 8 (ucast d OR push_bit 8 (of_nat 0))))"
    by (simp only: le_decode.simps of_nat_split8)
  also have "\<dots> = ucast a OR push_bit 8 (ucast b) OR push_bit 16 (ucast c) OR push_bit 24 (ucast d)"
    by (simp add: push_bit_or or.assoc push_bit_push_bit)
  finally show ?thesis by (cases le; cases le') (simp_all add: DecodeFixed32_def p)
qed (simp add: DecodeFixed32_def)

lemma le_decode_append: "le_decode (a @ b) = le_decode a + 256 ^ length a * le_decode b"
  by (induction a) (simp_all add: algebra_simps)

lemma DecodeFixed64_hosts: "DecodeFixed64 le ptr = DecodeFixed64 le' ptr"
proof -
  have "DecodeFixed64 False ptr = DecodeFixed64 True ptr"
  proof (cases "length ptr < 8")
    case True
    then show ?thesis by (auto simp: DecodeFixed64_def DecodeFixed32_def split: option.splits)
  next
    case False
    define x y where "x = le_decode (take 4 ptr)" and "y = le_decode (take 4 (drop 4 ptr))"
    have len: "length (take 4 ptr) = 4" "length (take 4 (drop 4 ptr)) = 4" using False by auto
    have b: "x < 2 ^ 32" "y < 2 ^ 32"
      using le_decode_less [of "take 4 ptr"] le_decode_less [of "take 4 (drop 4 ptr)"] len by (simp_all add: x_def y_def)
    have "take 8 ptr = take 4 ptr @ take 4 (drop 4 ptr)" by (simp flip: take_add)
    then have "le_decode (take 8 ptr) = x + 2 ^ 32 * y"
      using len by (simp only: le_decode_append x_def y_def) simp
    then have "(of_nat (le_decode (take 8 ptr)) :: u64) = of_nat x OR push_bit 32 (of_nat y)"
      by (simp only: of_nat_split [OF b(1)])
    moreover have "DecodeFixed32 False ptr = Some (of_nat x)" "DecodeFixed32 False (drop 4 ptr) = Some (of_nat y)"
      using False unfolding DecodeFixed32_hosts [of False _ True] by (simp_all add: DecodeFixed32_def x_def y_def)
    moreover have "(ucast (of_nat z :: u32) :: u64) = of_nat z" if "z < 2 ^ 32" for z
    proof -
      have "unat (of_nat z :: u32) = z" using that by (simp add: unat_of_nat)
      then show ?thesis by (metis of_nat_unat)
    qed
    ultimately show ?thesis using False b by (simp add: DecodeFixed64_def or.commute)
  qed
  then show ?thesis by (cases le; cases le') simp_all
qed

text \<open>
  C9.  Everything LevelDB's coding routines write is read back, followed by any other bytes and with the
  rest of the input returned: fixed 32- and 64-bit integers, on hosts of either byte order and across
  them, varints of both widths and length-prefixed slices.
\<close>

theorem coding_roundtrip:
  "DecodeFixed32 le (EncodeFixed32 le' v @ rest) = Some v \<and>
   DecodeFixed64 le (EncodeFixed64 le' u @ rest) = Some u \<and>
   GetVarint32 (PutVarint32 [] v @ rest) = Some (v, rest) \<and>
   GetVarint64 (PutVarint64 [] u @ rest) = Some (u, rest) \<and>
   (length s < 2 ^ 32 \<longrightarrow> GetLengthPrefixedSlice (PutLengthPrefixedSlice [] s @ rest) = Some (s, rest))"
proof -
  have "DecodeFixed32 le (EncodeFixed32 le' v @ rest) = Some v"
    by (simp add: DecodeFixed32_hosts [of le _ True])
  moreover have "DecodeFixed64 le (EncodeFixed64 le' u @ rest) = Some u"
    by (simp add: DecodeFixed64_hosts [of le _ True])
  moreover have "GetLengthPrefixedSlice (PutLengthPrefixedSlice [] s @ rest) = Some (s, rest)" if "length s < 2 ^ 32"
  proof -
    have "unat (of_nat (length s) :: u32) = length s" using that by (simp add: unat_of_nat)
    then show ?thesis using that by (simp add: PutLengthPrefixedSlice_def PutVarint32_def EncodeVarint32_varint)
  qed
  ultimately show ?thesis
    by (simp add: PutVarint32_def PutVarint64_def EncodeVarint32_varint EncodeVarint64_varint)
qed

theorem coding_roundtrip_witness:
  "GetLengthPrefixedSlice (PutLengthPrefixedSlice [] [7, 8] @ [9]) = Some ([7, 8], [9])"
  using coding_roundtrip [of True True 0 "[9]" 0 "[7, 8]"] by simp

text \<open>
  C10.  The buffers of \<^verbatim>\<open>PutVarint32\<close> and
  \<^verbatim>\<open>PutVarint64\<close> (5 and 10 bytes) are large enough for every value, and
  \<^verbatim>\<open>VarintLength\<close> is the number of bytes written.
\<close>

theorem varint_buffers:
  "length (EncodeVarint32 v) \<le> 5 \<and> length (EncodeVarint64 u) \<le> 10 \<and> VarintLength u = length (EncodeVarint64 u)"
proof -
  have "unat v < 2 ^ (7 * 5)" "unat u < 2 ^ (7 * 10)" using unat_u32_less [of v] unat_u64_less [of u] by simp_all
  then show ?thesis using length_varint_le [of "unat v" 5] length_varint_le [of "unat u" 10]
    by (simp add: EncodeVarint32_varint EncodeVarint64_varint VarintLength_varint)
qed

end
