(* ===== verification/Lvl_Status.thy ===== *)
theory Lvl_Status
  imports Lvl_Coding
begin

text \<open>
  LevelDB's \<^verbatim>\<open>Status\<close>, \<^verbatim>\<open>util/status.cc\<close> and
  \<^verbatim>\<open>include/leveldb/status.h\<close>, with its representation as a byte array:
  \<open>None\<close> is the \<^verbatim>\<open>NULL\<close> state of success.
\<close>

type_synonym status = "bytes option"

definition ascii :: "string \<Rightarrow> bytes" where
  "ascii s = map of_char s"

datatype Code = kOk | kNotFound | kCorruption | kNotSupported | kInvalidArgument | kIOError

fun code_num :: "Code \<Rightarrow> byte" where
  "code_num kOk = 0"
| "code_num kNotFound = 1"
| "code_num kCorruption = 2"
| "code_num kNotSupported = 3"
| "code_num kInvalidArgument = 4"
| "code_num kIOError = 5"

definition Status_OK :: status where "Status_OK = None"

definition Status_new :: "Code \<Rightarrow> bytes \<Rightarrow> bytes \<Rightarrow> status" where
  "Status_new code msg msg2 =
     (let len1 = (of_nat (length msg) :: u32);
          len2 = (of_nat (length msg2) :: u32);
          size = len1 + (if len2 \<noteq> 0 then 2 + len2 else 0)
      in Some (le_encode 4 (unat size) @ [code_num code] @ take (unat len1) msg @
               (if len2 \<noteq> 0 then ascii '': '' @ take (unat len2) msg2 else [])))"

definition Status_NotFound :: "bytes \<Rightarrow> bytes \<Rightarrow> status" where
  "Status_NotFound msg msg2 = Status_new kNotFound msg msg2"

definition Status_Corruption :: "bytes \<Rightarrow> bytes \<Rightarrow> status" where
  "Status_Corruption msg msg2 = Status_new kCorruption msg msg2"

definition Status_NotSupported :: "bytes \<Rightarrow> bytes \<Rightarrow> status" where
  "Status_NotSupported msg msg2 = Status_new kNotSupported msg msg2"

definition Status_InvalidArgument :: "bytes \<Rightarrow> bytes \<Rightarrow> status" where
  "Status_InvalidArgument msg msg2 = Status_new kInvalidArgument msg msg2"

definition Status_IOError :: "bytes \<Rightarrow> bytes \<Rightarrow> status" where
  "Status_IOError msg msg2 = Status_new kIOError msg msg2"

definition status_ok :: "status \<Rightarrow> bool" where
  "status_ok s \<longleftrightarrow> s = None"

definition status_code :: "status \<Rightarrow> byte" where
  "status_code s = (case s of None \<Rightarrow> 0 | Some state \<Rightarrow> state ! 4)"

definition IsNotFound :: "status \<Rightarrow> bool" where "IsNotFound s \<longleftrightarrow> status_code s = code_num kNotFound"
definition IsCorruption :: "status \<Rightarrow> bool" where "IsCorruption s \<longleftrightarrow> status_code s = code_num kCorruption"
definition IsIOError :: "status \<Rightarrow> bool" where "IsIOError s \<longleftrightarrow> status_code s = code_num kIOError"

text \<open>The length field, copied from the host's memory image of a \<^verbatim>\<open>uint32_t\<close>.\<close>

definition status_length :: "bytes \<Rightarrow> nat" where
  "status_length state = le_decode (take 4 state)"

definition CopyState :: "bytes \<Rightarrow> bytes" where
  "CopyState state = take (status_length state + 5) state"

text \<open>No constructor stores a code outside of the enumeration, so the branch
  \<^verbatim>\<open>default\<close>, which formats the number, is only reached by memory corruption;
  it is the last branch here.\<close>

definition status_type :: "byte \<Rightarrow> bytes" where
  "status_type c =
     (if c = code_num kOk then ascii ''OK''
      else if c = code_num kNotFound then ascii ''NotFound: ''
      else if c = code_num kCorruption then ascii ''Corruption: ''
      else if c = code_num kNotSupported then ascii ''Not implemented: ''
      else if c = code_num kInvalidArgument then ascii ''Invalid argument: ''
      else if c = code_num kIOError then ascii ''IO error: ''
      else ascii ''Unknown code('' @
        (if sint c < 0 then ascii ''-'' else []) @ dec_nat (nat \<bar>sint c\<bar>) @ ascii ''): '')"

definition status_ToString :: "status \<Rightarrow> bytes" where
  "status_ToString s =
     (case s of
        None \<Rightarrow> ascii ''OK''
      | Some state \<Rightarrow> status_type (status_code s) @ take (status_length state) (drop 5 state))"

section \<open>Properties\<close>

lemma status_code_new [simp]: "status_code (Status_new c msg msg2) = code_num c"
  by (simp add: Status_new_def status_code_def Let_def nth_append)

lemma code_num_eq [simp]: "code_num c = code_num d \<longleftrightarrow> c = d"
  by (cases c; cases d) simp_all

text \<open>The message of an error.\<close>

definition status_message :: "bytes \<Rightarrow> bytes \<Rightarrow> bytes" where
  "status_message msg msg2 = msg @ (if msg2 = [] then [] else ascii '': '' @ msg2)"

lemma length_ascii [simp]: "length (ascii s) = length s"
  by (simp add: ascii_def)

lemma Status_new_eq:
  assumes "length (status_message msg msg2) < 2 ^ 32"
  shows "Status_new c msg msg2 = Some (le_encode 4 (length (status_message msg msg2)) @ [code_num c] @ status_message msg msg2)"
proof -
  have l: "length msg < 2 ^ 32" "length msg2 < 2 ^ 32" using assms by (auto simp: status_message_def split: if_splits)
  then have u: "unat (of_nat (length msg) :: u32) = length msg" "unat (of_nat (length msg2) :: u32) = length msg2"
    by (simp_all add: unat_of_nat)
  then have z: "(of_nat (length msg2) :: u32) = 0 \<longleftrightarrow> msg2 = []" by (metis length_0_conv unat_eq_zero unsigned_0)
  define n where "n = length (status_message msg msg2)"
  have "of_nat (length msg) + (if (of_nat (length msg2) :: u32) \<noteq> 0 then 2 + of_nat (length msg2) else 0) = (of_nat n :: u32)"
    unfolding n_def z by (auto simp: status_message_def)
  moreover have "unat (of_nat n :: u32) = n" using assms by (simp add: unat_of_nat n_def)
  ultimately show ?thesis by (auto simp: Status_new_def Let_def u z status_message_def)
      (simp_all add: n_def status_message_def)
qed

text \<open>
  C17.  An error status keeps its code and message: \<^verbatim>\<open>ToString\<close> prints the
  code's name and the messages joined by a colon, copying the state copies all of it, and a status is
  reported as not found, as a corruption or as an input/output error exactly when it was made as one.
\<close>

theorem status_tostring:
  assumes "length (status_message msg msg2) < 2 ^ 32"
  shows "status_ToString (Status_new c msg msg2) = status_type (code_num c) @ status_message msg msg2 \<and>
    map_option CopyState (Status_new c msg msg2) = Status_new c msg msg2 \<and> \<not> status_ok (Status_new c msg msg2) \<and>
    IsNotFound (Status_new c msg msg2) = (c = kNotFound) \<and> IsCorruption (Status_new c msg msg2) = (c = kCorruption) \<and>
    IsIOError (Status_new c msg msg2) = (c = kIOError)"
proof -
  define m where "m = status_message msg msg2"
  have len: "status_length (le_encode 4 (length m) @ code_num c # m) = length m"
    using assms by (simp add: status_length_def le_decode_encode m_def)
  have code: "status_code (Some (le_encode 4 (length m) @ code_num c # m)) = code_num c"
    by (simp add: status_code_def nth_append)
  have "drop 5 (le_encode 4 (length m) @ code_num c # m) = m" by simp
  then show ?thesis
    using len code unfolding Status_new_eq [OF assms] m_def [symmetric]
    by (cases c) (simp_all add: status_ToString_def CopyState_def status_ok_def IsNotFound_def IsCorruption_def IsIOError_def)
qed

theorem status_tostring_witness:
  "status_ToString (Status_IOError (ascii ''a'') (ascii ''bad'')) = ascii ''IO error: a: bad''"
  using status_tostring [of "ascii ''a''" "ascii ''bad''" kIOError]
  by (simp add: status_message_def Status_IOError_def status_type_def ascii_def)

end
