(* ===== verification/Lvl_Format.thy ===== *)
theory Lvl_Format
  imports Lvl_Coding Kv_Codec
begin

text \<open>
  Keys of LevelDB, under \<^verbatim>\<open>src/3rd-party/leveldb/leveldb-1.18\<close>: slices
  (\<^verbatim>\<open>include/leveldb/slice.h\<close>), comparators
  (\<^verbatim>\<open>util/comparator.cc\<close>), internal keys and the internal comparator
  (\<^verbatim>\<open>db/dbformat.h\<close>, \<^verbatim>\<open>db/dbformat.cc\<close>).  The
  contract of a comparator is the locale \<open>comparator_laws\<close>; it is met by the bytewise
  comparator and by the numeric comparators of the binding, and handed on from a user comparator to
  the internal one.
\<close>

section \<open>Slices\<close>

fun memcmp :: "bytes \<Rightarrow> bytes \<Rightarrow> nat \<Rightarrow> int" where
  "memcmp (a # as) (b # bs) (Suc n) = (if a < b then - 1 else if b < a then 1 else memcmp as bs n)"
| "memcmp _ _ _ = 0"

definition slice_compare :: "bytes \<Rightarrow> bytes \<Rightarrow> int" where
  "slice_compare a b =
     (let min_len = (if length a < length b then length a else length b);
          r = memcmp a b min_len
      in if r = 0
         then if length a < length b then - 1 else if length a > length b then 1 else r
         else r)"

definition starts_with :: "bytes \<Rightarrow> bytes \<Rightarrow> bool" where
  "starts_with a x \<longleftrightarrow> length a \<ge> length x \<and> memcmp a x (length x) = 0"

definition remove_prefix :: "nat \<Rightarrow> bytes \<Rightarrow> bytes" where
  "remove_prefix n s = drop n s"

section \<open>Comparators\<close>

record comparator =
  cm_Name :: string
  cm_Compare :: "bytes \<Rightarrow> bytes \<Rightarrow> int"
  cm_FindShortestSeparator :: "bytes \<Rightarrow> bytes \<Rightarrow> bytes"
  cm_FindShortSuccessor :: "bytes \<Rightarrow> bytes"

text \<open>The loops of \<^verbatim>\<open>FindShortestSeparator\<close> and
  \<^verbatim>\<open>FindShortSuccessor\<close>.  In the first, \<open>n\<close> is what is left of
  \<^verbatim>\<open>min_length\<close>.\<close>

fun diff_index :: "bytes \<Rightarrow> bytes \<Rightarrow> nat \<Rightarrow> nat" where
  "diff_index (a # as) (b # bs) (Suc n) = (if a = b then Suc (diff_index as bs n) else 0)"
| "diff_index _ _ _ = 0"

definition Bytewise_FindShortestSeparator :: "bytes \<Rightarrow> bytes \<Rightarrow> bytes" where
  "Bytewise_FindShortestSeparator start limit =
     (let min_length = min (length start) (length limit);
          d = diff_index start limit min_length
      in if d \<ge> min_length then start
         else
           let diff_byte = start ! d
           in if diff_byte < 0xff \<and> unat diff_byte + 1 < unat (limit ! d)
              then take (d + 1) (start[d := diff_byte + 1])
              else start)"

fun Bytewise_FindShortSuccessor :: "bytes \<Rightarrow> bytes" where
  "Bytewise_FindShortSuccessor [] = []"
| "Bytewise_FindShortSuccessor (byte # key) =
     (if byte \<noteq> 0xff then [byte + 1] else byte # Bytewise_FindShortSuccessor key)"

definition BytewiseComparator :: comparator where
  "BytewiseComparator =
     \<lparr>cm_Name = ''leveldb.BytewiseComparator'', cm_Compare = slice_compare,
      cm_FindShortestSeparator = Bytewise_FindShortestSeparator,
      cm_FindShortSuccessor = Bytewise_FindShortSuccessor\<rparr>"

text \<open>The comparator the binding installs for numeric keys,
  \<^verbatim>\<open>lvl_rocks_comparator\<close> of \<^verbatim>\<open>src/src/kv-types.h\<close>,
  whose two shortening functions do nothing.\<close>

definition number_comparator :: "num_kind \<Rightarrow> comparator" where
  "number_comparator k =
     \<lparr>cm_Name = type_name (Number k), cm_Compare = num_cmp k,
      cm_FindShortestSeparator = (\<lambda>start limit. start), cm_FindShortSuccessor = (\<lambda>key. key)\<rparr>"

section \<open>Internal keys\<close>

datatype ValueType = kTypeDeletion | kTypeValue

fun value_type_num :: "ValueType \<Rightarrow> u64" where
  "value_type_num kTypeDeletion = 0"
| "value_type_num kTypeValue = 1"

definition kValueTypeForSeek :: ValueType where
  "kValueTypeForSeek = kTypeValue"

definition kMaxSequenceNumber :: u64 where
  "kMaxSequenceNumber = push_bit 56 1 - 1"

record parsed_internal_key =
  pik_user_key :: bytes
  pik_sequence :: u64
  pik_type :: ValueType

definition PackSequenceAndType :: "u64 \<Rightarrow> ValueType \<Rightarrow> u64" where
  "PackSequenceAndType seq t = push_bit 8 seq OR value_type_num t"

definition AppendInternalKey :: "bytes \<Rightarrow> parsed_internal_key \<Rightarrow> bytes" where
  "AppendInternalKey result key =
     PutFixed64 (result @ pik_user_key key) (PackSequenceAndType (pik_sequence key) (pik_type key))"

definition InternalKey :: "bytes \<Rightarrow> u64 \<Rightarrow> ValueType \<Rightarrow> bytes" where
  "InternalKey user_key s t = AppendInternalKey [] \<lparr>pik_user_key = user_key, pik_sequence = s, pik_type = t\<rparr>"

definition InternalKeyEncodingLength :: "parsed_internal_key \<Rightarrow> nat" where
  "InternalKeyEncodingLength key = length (pik_user_key key) + 8"

text \<open>The last eight bytes; on shorter keys, which the assertions exclude, the read is out of
  bounds and the value unspecified.\<close>

definition internal_tag :: "bytes \<Rightarrow> u64" where
  "internal_tag key = the (DecodeFixed64 True (drop (length key - 8) key))"

definition ExtractUserKey :: "bytes \<Rightarrow> bytes" where
  "ExtractUserKey internal_key = take (length internal_key - 8) internal_key"

definition ParseInternalKey :: "bytes \<Rightarrow> parsed_internal_key option" where
  "ParseInternalKey internal_key =
     (if length internal_key < 8 then None
      else
        let num = internal_tag internal_key;
            c = (ucast (num AND 0xff) :: byte)
        in if c \<le> 1
           then Some \<lparr>pik_user_key = ExtractUserKey internal_key, pik_sequence = drop_bit 8 num,
                      pik_type = (if c = 0 then kTypeDeletion else kTypeValue)\<rparr>
           else None)"

definition InternalKey_Compare :: "comparator \<Rightarrow> bytes \<Rightarrow> bytes \<Rightarrow> int" where
  "InternalKey_Compare C akey bkey =
     (let r = cm_Compare C (ExtractUserKey akey) (ExtractUserKey bkey)
      in if r = 0
         then let anum = internal_tag akey; bnum = internal_tag bkey
              in if anum > bnum then - 1 else if anum < bnum then 1 else r
         else r)"

definition InternalKey_FindShortestSeparator :: "comparator \<Rightarrow> bytes \<Rightarrow> bytes \<Rightarrow> bytes" where
  "InternalKey_FindShortestSeparator C start limit =
     (let user_start = ExtractUserKey start;
          user_limit = ExtractUserKey limit;
          tmp = cm_FindShortestSeparator C user_start user_limit
      in if length tmp < length user_start \<and> cm_Compare C user_start tmp < 0
         then PutFixed64 tmp (PackSequenceAndType kMaxSequenceNumber kValueTypeForSeek)
         else start)"

definition InternalKey_FindShortSuccessor :: "comparator \<Rightarrow> bytes \<Rightarrow> bytes" where
  "InternalKey_FindShortSuccessor C key =
     (let user_key = ExtractUserKey key;
          tmp = cm_FindShortSuccessor C user_key
      in if length tmp < length user_key \<and> cm_Compare C user_key tmp < 0
         then PutFixed64 tmp (PackSequenceAndType kMaxSequenceNumber kValueTypeForSeek)
         else key)"

definition InternalKeyComparator :: "comparator \<Rightarrow> comparator" where
  "InternalKeyComparator C =
     \<lparr>cm_Name = ''leveldb.InternalKeyComparator'', cm_Compare = InternalKey_Compare C,
      cm_FindShortestSeparator = InternalKey_FindShortestSeparator C,
      cm_FindShortSuccessor = InternalKey_FindShortSuccessor C\<rparr>"

text \<open>\<^verbatim>\<open>LookupKey\<close>: the three slices into its buffer.  The buffer has
  \<^verbatim>\<open>needed = usize + 13\<close> bytes or the 200 bytes of
  \<^verbatim>\<open>space_\<close>.\<close>

record lookup_key =
  lk_memtable_key :: bytes
  lk_internal_key :: bytes
  lk_user_key :: bytes
  lk_capacity :: nat

definition LookupKey :: "bytes \<Rightarrow> u64 \<Rightarrow> lookup_key" where
  "LookupKey user_key s =
     (let usize = length user_key;
          needed = usize + 13;
          klength = EncodeVarint32 (of_nat (usize + 8));
          rest = user_key @ EncodeFixed64 True (PackSequenceAndType s kValueTypeForSeek)
      in \<lparr>lk_memtable_key = klength @ rest, lk_internal_key = rest,
          lk_user_key = take (length rest - 8) rest,
          lk_capacity = (if needed \<le> 200 then 200 else needed)\<rparr>)"

section \<open>The comparator contract\<close>

locale comparator_laws = strict_order "cm_Compare C" ok
  for C :: comparator and ok :: "bytes \<Rightarrow> bool" +
  assumes separator_ok: "ok start \<Longrightarrow> ok limit \<Longrightarrow> ok (cm_FindShortestSeparator C start limit)"
    and separator: "ok start \<Longrightarrow> ok limit \<Longrightarrow> cm_Compare C start limit < 0 \<Longrightarrow>
      cm_Compare C start (cm_FindShortestSeparator C start limit) \<le> 0 \<and>
      cm_Compare C (cm_FindShortestSeparator C start limit) limit < 0"
    and separator_self: "ok start \<Longrightarrow> cm_FindShortestSeparator C start start = start"
    and successor: "ok key \<Longrightarrow> ok (cm_FindShortSuccessor C key) \<and> cm_Compare C key (cm_FindShortSuccessor C key) \<le> 0"

subsection \<open>The bytewise comparator\<close>

fun bytes_cmp :: "bytes \<Rightarrow> bytes \<Rightarrow> int" where
  "bytes_cmp [] [] = 0"
| "bytes_cmp [] (b # bs) = - 1"
| "bytes_cmp (a # as) [] = 1"
| "bytes_cmp (a # as) (b # bs) = (if a < b then - 1 else if b < a then 1 else bytes_cmp as bs)"

lemma slice_compare_Nil [simp]:
  "slice_compare [] [] = 0" "slice_compare [] (b # bs) = - 1" "slice_compare (a # as) [] = 1"
  by (simp_all add: slice_compare_def)

lemma slice_compare_Cons [simp]:
  "slice_compare (a # as) (b # bs) = (if a < b then - 1 else if b < a then 1 else slice_compare as bs)"
  by (simp add: slice_compare_def Let_def)

lemma slice_compare_lex: "slice_compare a b = bytes_cmp a b"
  by (induction a b rule: bytes_cmp.induct) auto

lemma bytes_cmp_swap: "bytes_cmp b a = - bytes_cmp a b"
  by (induction a b rule: bytes_cmp.induct) auto

lemma bytes_cmp_range: "bytes_cmp a b \<in> {- 1, 0, 1}"
  by (induction a b rule: bytes_cmp.induct) auto

lemma bytes_cmp_zero: "bytes_cmp a b = 0 \<longleftrightarrow> a = b"
  by (induction a b rule: bytes_cmp.induct) auto

lemma bytes_cmp_trans: "bytes_cmp a b \<le> 0 \<Longrightarrow> bytes_cmp b c \<le> 0 \<Longrightarrow> bytes_cmp a c \<le> 0"
proof (induction a b arbitrary: c rule: bytes_cmp.induct)
  case (2 b bs)
  then show ?case by (cases c) auto
next
  case (4 a as b bs)
  then show ?case by (cases c) (auto split: if_splits)
next
  case 1
  then show ?case by simp
qed simp

lemma separator_rec [simp]:
  "Bytewise_FindShortestSeparator [] limit = []"
  "Bytewise_FindShortestSeparator start [] = start"
  "Bytewise_FindShortestSeparator (a # as) (b # bs) =
     (if a = b then a # Bytewise_FindShortestSeparator as bs
      else if a < 0xff \<and> unat a + 1 < unat b then [a + 1] else a # as)"
  by (simp_all add: Bytewise_FindShortestSeparator_def Let_def)

lemma byte_succ:
  fixes a :: byte
  assumes "a \<noteq> 0xff"
  shows "unat (a + 1) = unat a + 1" and "a < a + 1"
proof -
  have "unat a \<noteq> 255" using assms by (auto simp: word_unat_eq_iff)
  then have "unat a + 1 < 256" using unat_byte_less [of a] by linarith
  then show "unat (a + 1) = unat a + 1" by (simp add: unat_word_ariths)
  then show "a < a + 1" by (simp add: word_less_nat_alt)
qed

lemma bytewise_separator:
  "bytes_cmp start limit < 0 \<Longrightarrow>
    bytes_cmp start (Bytewise_FindShortestSeparator start limit) \<le> 0 \<and>
    bytes_cmp (Bytewise_FindShortestSeparator start limit) limit < 0"
proof (induction start limit rule: bytes_cmp.induct)
  case (4 a as b bs)
  have "a < a + 1 \<and> a + 1 < b" if "a < 0xff" "unat a + 1 < unat b"
  proof -
    have "a \<noteq> 0xff" using that(1) by auto
    from byte_succ [OF this] that(2) show ?thesis by (simp add: word_less_nat_alt)
  qed
  with 4 show ?case by (auto simp: bytes_cmp_zero [of as as, THEN iffD2])
qed auto

lemma separator_self_bytewise: "Bytewise_FindShortestSeparator s s = s"
  by (induction s) auto

lemma bytewise_successor: "bytes_cmp key (Bytewise_FindShortSuccessor key) \<le> 0"
  by (induction key) (auto simp: byte_succ)

interpretation bytewise: comparator_laws BytewiseComparator "\<lambda>_. True"
proof unfold_locales
  fix a b :: bytes
  show "sgn (cm_Compare BytewiseComparator b a) = - sgn (cm_Compare BytewiseComparator a b)"
    by (simp add: BytewiseComparator_def slice_compare_lex bytes_cmp_swap [of b a])
next
  fix a b c :: bytes
  assume "cm_Compare BytewiseComparator a b \<le> 0" "cm_Compare BytewiseComparator b c \<le> 0"
  then show "cm_Compare BytewiseComparator a c \<le> 0"
    using bytes_cmp_trans by (auto simp: BytewiseComparator_def slice_compare_lex)
next
  fix a b :: bytes assume "cm_Compare BytewiseComparator a b = 0"
  then show "a = b" by (simp add: BytewiseComparator_def slice_compare_lex bytes_cmp_zero)
qed (auto simp: BytewiseComparator_def slice_compare_lex bytewise_separator bytewise_successor separator_self_bytewise)

interpretation numeric: comparator_laws "number_comparator k" "num_key k" for k
proof -
  have eq: "cm_Compare (number_comparator k) = num_cmp k" by (simp add: number_comparator_def)
  have o: "strict_order (cm_Compare (number_comparator k)) (num_key k)" unfolding eq by unfold_locales
  show "comparator_laws (number_comparator k) (num_key k)"
    by (rule comparator_laws.intro [OF o], unfold_locales) (auto simp: number_comparator_def num_order.cmp_self)
qed

section \<open>Internal keys\<close>

lemma pack_nat:
  assumes "s \<le> kMaxSequenceNumber"
  shows "unat (PackSequenceAndType s t) = 256 * unat s + unat (value_type_num t)"
    and "unat s < 2 ^ 56"
proof -
  have "unat kMaxSequenceNumber = 72057594037927935" by (simp add: kMaxSequenceNumber_def)
  then show s: "unat s < 2 ^ 56" using assms unfolding word_le_nat_alt by simp
  have t: "unat (value_type_num t) < 2 ^ 8" by (cases t) auto
  have "PackSequenceAndType s t = of_nat (unat (value_type_num t) + 2 ^ 8 * unat s)"
    by (simp only: of_nat_split [OF t]) (simp add: PackSequenceAndType_def or.commute)
  then show "unat (PackSequenceAndType s t) = 256 * unat s + unat (value_type_num t)"
    using s t by (simp add: unat_of_nat del: of_nat_add of_nat_mult)
qed

lemma internal_tag_append [simp]: "internal_tag (u @ le_encode 8 (unat v)) = v"
  using DecodeFixed64_Encode [of v "[]"] by (simp add: internal_tag_def)

lemma ExtractUserKey_append [simp]: "length t = 8 \<Longrightarrow> ExtractUserKey (u @ t) = u"
  by (simp add: ExtractUserKey_def)

lemma InternalKey_eq: "InternalKey u s t = u @ le_encode 8 (unat (PackSequenceAndType s t))"
  by (simp add: InternalKey_def AppendInternalKey_def PutFixed64_def)

lemma InternalKey_parts [simp]:
  "ExtractUserKey (InternalKey u s t) = u" "internal_tag (InternalKey u s t) = PackSequenceAndType s t"
  "length (InternalKey u s t) = length u + 8"
  by (simp_all add: InternalKey_eq)

definition internal_ok :: "(bytes \<Rightarrow> bool) \<Rightarrow> bytes \<Rightarrow> bool" where
  "internal_ok ok k \<longleftrightarrow> 8 \<le> length k \<and> ok (ExtractUserKey k)"

lemma internal_key_split:
  assumes "8 \<le> length k"
  shows "k = ExtractUserKey k @ le_encode 8 (unat (internal_tag k))"
proof -
  define t where "t = drop (length k - 8) k"
  have t: "length t = 8" using assms by (simp add: t_def)
  then have "DecodeFixed64 True t = Some (of_nat (le_decode t))" by (simp add: DecodeFixed64_def)
  then have "internal_tag k = of_nat (le_decode t)" by (simp add: internal_tag_def t_def)
  moreover have "le_decode t < 256 ^ 8" using le_decode_less [of t] t by simp
  ultimately have "unat (internal_tag k) = le_decode t" by (simp add: unat_of_nat)
  then have "le_encode 8 (unat (internal_tag k)) = t" using le_encode_decode [of t] t by simp
  then show ?thesis by (simp add: ExtractUserKey_def t_def)
qed

context comparator_laws
begin

abbreviation icmp :: "bytes \<Rightarrow> bytes \<Rightarrow> int" where
  "icmp \<equiv> InternalKey_Compare C"

lemma icmp_cases:
  "icmp a b =
     (if cm_Compare C (ExtractUserKey a) (ExtractUserKey b) \<noteq> 0 then cm_Compare C (ExtractUserKey a) (ExtractUserKey b)
      else if internal_tag a > internal_tag b then - 1 else if internal_tag a < internal_tag b then 1 else 0)"
  by (simp add: InternalKey_Compare_def Let_def)

lemma icmp_less_iff:
  assumes "internal_ok ok a" and "internal_ok ok b"
  shows "icmp a b < 0 \<longleftrightarrow>
    cm_Compare C (ExtractUserKey a) (ExtractUserKey b) < 0 \<or>
    (ExtractUserKey a = ExtractUserKey b \<and> internal_tag a > internal_tag b)"
  using assms cmp_zero_iff [of "ExtractUserKey a" "ExtractUserKey b"] by (auto simp: icmp_cases internal_ok_def)

lemma internal_strict_order: "strict_order icmp (internal_ok ok)"
proof unfold_locales
  fix a b assume "internal_ok ok a" "internal_ok ok b"
  then show "sgn (icmp b a) = - sgn (icmp a b)"
    using cmp_swap [of "ExtractUserKey a" "ExtractUserKey b"]
    by (auto simp: icmp_cases internal_ok_def sgn_if split: if_splits)
next
  fix a b c assume ok: "internal_ok ok a" "internal_ok ok b" "internal_ok ok c" and le: "icmp a b \<le> 0" "icmp b c \<le> 0"
  let ?a = "ExtractUserKey a" and ?b = "ExtractUserKey b" and ?c = "ExtractUserKey c"
  have k: "ok ?a" "ok ?b" "ok ?c" using ok by (auto simp: internal_ok_def)
  have u: "cm_Compare C ?a ?b \<le> 0" "cm_Compare C ?b ?c \<le> 0" using le by (auto simp: icmp_cases split: if_splits)
  show "icmp a c \<le> 0"
  proof (cases "cm_Compare C ?a ?b = 0 \<and> cm_Compare C ?b ?c = 0")
    case True
    then have "?a = ?b" "?b = ?c" using cmp_zero_iff k by auto
    then show ?thesis using le cmp_self [OF k(1)] by (auto simp: icmp_cases split: if_splits)
  next
    case False
    then have "cm_Compare C ?a ?c < 0" using u cmp_less_le [OF k] cmp_le_less [OF k] by force
    then show ?thesis by (simp add: icmp_cases)
  qed
next
  fix a b assume ok: "internal_ok ok a" "internal_ok ok b" and z: "icmp a b = 0"
  have "ExtractUserKey a = ExtractUserKey b" "internal_tag a = internal_tag b"
    using z ok cmp_zero_iff [of "ExtractUserKey a" "ExtractUserKey b"] by (auto simp: icmp_cases internal_ok_def split: if_splits)
  then show "a = b" using internal_key_split [of a] internal_key_split [of b] ok by (simp add: internal_ok_def)
qed

lemma internal_laws: "comparator_laws (InternalKeyComparator C) (internal_ok ok)"
proof -
  have eq: "cm_Compare (InternalKeyComparator C) = icmp" by (simp add: InternalKeyComparator_def)
  have o: "strict_order (cm_Compare (InternalKeyComparator C)) (internal_ok ok)"
    unfolding eq by (rule internal_strict_order)
  let ?sep = "cm_FindShortestSeparator C" and ?succ = "cm_FindShortSuccessor C"
  have tail: "internal_ok ok (PutFixed64 t x)" "ExtractUserKey (PutFixed64 t x) = t" if "ok t" for t x
    using that by (auto simp: internal_ok_def PutFixed64_def)
  show ?thesis
  proof (rule comparator_laws.intro [OF o], unfold_locales)
    fix start limit assume "internal_ok ok start" "internal_ok ok limit"
    then show "internal_ok ok (cm_FindShortestSeparator (InternalKeyComparator C) start limit)"
      using tail(1) separator_ok
      by (auto simp: InternalKeyComparator_def InternalKey_FindShortestSeparator_def Let_def internal_ok_def)
  next
    fix start limit assume ok: "internal_ok ok start" "internal_ok ok limit"
      and less: "cm_Compare (InternalKeyComparator C) start limit < 0"
    let ?s = "ExtractUserKey start" and ?l = "ExtractUserKey limit"
    have k: "ok ?s" "ok ?l" using ok by (auto simp: internal_ok_def)
    have self: "icmp start start = 0" using cmp_self [OF k(1)] by (simp add: icmp_cases)
    show "cm_Compare (InternalKeyComparator C) start (cm_FindShortestSeparator (InternalKeyComparator C) start limit) \<le> 0 \<and>
      cm_Compare (InternalKeyComparator C) (cm_FindShortestSeparator (InternalKeyComparator C) start limit) limit < 0"
    proof (cases "length (?sep ?s ?l) < length ?s \<and> cm_Compare C ?s (?sep ?s ?l) < 0")
      case True
      have "?s \<noteq> ?l" using True separator_self [OF k(1)] by auto
      then have "cm_Compare C ?s ?l < 0" using less icmp_less_iff [OF ok] by (simp add: eq)
      then have "cm_Compare C (?sep ?s ?l) ?l < 0" using separator k by blast
      then show ?thesis
        using True tail(2) [OF separator_ok [OF k]]
        by (auto simp: InternalKeyComparator_def InternalKey_FindShortestSeparator_def Let_def icmp_cases)
    next
      case False
      then show ?thesis using less self
        by (auto simp: InternalKeyComparator_def InternalKey_FindShortestSeparator_def Let_def)
    qed
  next
    fix start assume "internal_ok ok start"
    then show "cm_FindShortestSeparator (InternalKeyComparator C) start start = start"
      using separator_self by (auto simp: InternalKeyComparator_def InternalKey_FindShortestSeparator_def Let_def internal_ok_def)
  next
    fix key assume ok: "internal_ok ok key"
    let ?k = "ExtractUserKey key"
    have k: "ok ?k" using ok by (simp add: internal_ok_def)
    then have "icmp key key = 0" using cmp_self by (simp add: icmp_cases)
    then show "internal_ok ok (cm_FindShortSuccessor (InternalKeyComparator C) key) \<and>
        cm_Compare (InternalKeyComparator C) key (cm_FindShortSuccessor (InternalKeyComparator C) key) \<le> 0"
      using tail [of "?succ ?k"] successor [OF k] ok
      by (auto simp: InternalKeyComparator_def InternalKey_FindShortSuccessor_def Let_def icmp_cases)
  qed
qed

end

lemma ParseInternalKey_append:
  assumes "pik_sequence key \<le> kMaxSequenceNumber"
  shows "ParseInternalKey (AppendInternalKey [] key) = Some key \<and>
    length (AppendInternalKey [] key) = InternalKeyEncodingLength key"
proof -
  define v where "v = PackSequenceAndType (pik_sequence key) (pik_type key)"
  have u: "unat v = 256 * unat (pik_sequence key) + unat (value_type_num (pik_type key))"
    using pack_nat [OF assms] by (simp add: v_def)
  have t: "unat (value_type_num (pik_type key)) < 256" by (cases "pik_type key") auto
  have "drop_bit 8 v = pik_sequence key"
    by (rule word_unat_eq_iff [THEN iffD2]) (use u t in \<open>simp add: unat_shift\<close>)
  moreover have "(ucast (v AND 0xff) :: byte) = of_nat (unat (value_type_num (pik_type key)))"
  proof -
    have "(ucast (v AND 0xff) :: byte) = ucast v" by (rule ucast_and_255) simp
    also have "\<dots> = of_nat (unat v)" by simp
    finally show ?thesis using t by (simp add: u of_nat_byte_eq_iff del: of_nat_unat of_nat_add of_nat_mult)
  qed
  moreover have "AppendInternalKey [] key = pik_user_key key @ le_encode 8 (unat v)"
    by (simp add: AppendInternalKey_def PutFixed64_def v_def)
  ultimately show ?thesis
    by (cases "pik_type key") (simp_all add: ParseInternalKey_def InternalKeyEncodingLength_def Let_def)
qed

section \<open>Properties\<close>

text \<open>
  C11.  The internal comparator keeps the contract of its user comparator: on internal keys it is a strict
  total order, its separator of two keys lies between them, and its short successor is not smaller
  than the key.  So index blocks built from shortened keys route every lookup to the right block, for
  the bytewise comparator and for the numeric comparators of the binding alike.
\<close>

theorem internal_comparator_laws:
  assumes "comparator_laws C ok"
  shows "comparator_laws (InternalKeyComparator C) (internal_ok ok)"
  using comparator_laws.internal_laws [OF assms] .

theorem internal_comparator_laws_witness:
  "comparator_laws (InternalKeyComparator BytewiseComparator) (internal_ok (\<lambda>_. True)) \<and>
   comparator_laws (InternalKeyComparator (number_comparator Int32)) (internal_ok (num_key Int32))"
  using internal_comparator_laws [OF bytewise.comparator_laws_axioms]
    internal_comparator_laws [OF numeric.comparator_laws_axioms [of Int32]] by blast



end
