(* ===== verification/Lvl_WriteBatch.thy ===== *)
theory Lvl_WriteBatch
  imports Lvl_Status Lvl_Format
begin

text \<open>
  Write batches, \<^verbatim>\<open>db/write_batch.cc\<close> and
  \<^verbatim>\<open>db/write_batch_internal.h\<close>.  A batch is its
  \<^verbatim>\<open>rep_\<close>: an eight-byte sequence number, a four-byte count and the records.  A
  handler is a record of two state transformers.
\<close>

definition kHeader :: nat where "kHeader = 12"

definition WriteBatch_Clear :: bytes where
  "WriteBatch_Clear = replicate kHeader 0"

text \<open>The accessors of the header are used on batches of at least
  \<^verbatim>\<open>kHeader\<close> bytes only; on shorter ones they would read and write out of bounds.\<close>

definition batch_Count :: "bytes \<Rightarrow> u32" where
  "batch_Count rep = the (DecodeFixed32 True (drop 8 rep))"

definition batch_SetCount :: "bytes \<Rightarrow> u32 \<Rightarrow> bytes" where
  "batch_SetCount rep n = take 8 rep @ EncodeFixed32 True n @ drop 12 rep"

definition batch_Sequence :: "bytes \<Rightarrow> u64" where
  "batch_Sequence rep = the (DecodeFixed64 True rep)"

definition batch_SetSequence :: "bytes \<Rightarrow> u64 \<Rightarrow> bytes" where
  "batch_SetSequence rep s = EncodeFixed64 True s @ drop 8 rep"

definition WriteBatch_Put :: "bytes \<Rightarrow> bytes \<Rightarrow> bytes \<Rightarrow> bytes" where
  "WriteBatch_Put rep key value =
     PutLengthPrefixedSlice
       (PutLengthPrefixedSlice (batch_SetCount rep (batch_Count rep + 1) @ [ucast (value_type_num kTypeValue)]) key) value"

definition WriteBatch_Delete :: "bytes \<Rightarrow> bytes \<Rightarrow> bytes" where
  "WriteBatch_Delete rep key =
     PutLengthPrefixedSlice (batch_SetCount rep (batch_Count rep + 1) @ [ucast (value_type_num kTypeDeletion)]) key"

definition batch_SetContents :: "bytes \<Rightarrow> bytes" where
  "batch_SetContents contents = contents"

definition batch_Append :: "bytes \<Rightarrow> bytes \<Rightarrow> bytes" where
  "batch_Append dst src = batch_SetCount dst (batch_Count dst + batch_Count src) @ drop kHeader src"

record 'h handler =
  h_Put :: "bytes \<Rightarrow> bytes \<Rightarrow> 'h \<Rightarrow> 'h"
  h_Delete :: "bytes \<Rightarrow> 'h \<Rightarrow> 'h"

lemma varint32_loop_shorter: "varint32_loop shift r p = Some (v, q) \<Longrightarrow> length q < length p"
  by (induction p arbitrary: shift r) (auto simp: Let_def less_SucI split: if_splits)

lemma GetVarint32_shorter: "GetVarint32 p = Some (v, q) \<Longrightarrow> length q < length p"
  by (auto simp: GetVarint32_def GetVarint32PtrFallback_def Let_def split: list.splits if_splits dest: varint32_loop_shorter)

lemma GetLengthPrefixedSlice_shorter: "GetLengthPrefixedSlice p = Some (s, q) \<Longrightarrow> length q < length p"
  by (fastforce simp: GetLengthPrefixedSlice_def split: option.splits if_splits dest: GetVarint32_shorter)

text \<open>The loop of \<^verbatim>\<open>Iterate\<close>.  The result is the state of the handler, and
  the status of an early return or the number of records found.\<close>

function Iterate_loop :: "'h handler \<Rightarrow> bytes \<Rightarrow> u32 \<Rightarrow> 'h \<Rightarrow> 'h \<times> (status + u32)" where
  "Iterate_loop H input found h =
     (case input of
        [] \<Rightarrow> (h, Inr found)
      | tag # input1 \<Rightarrow>
          if tag = ucast (value_type_num kTypeValue)
          then (case GetLengthPrefixedSlice input1 of
                  None \<Rightarrow> (h, Inl (Status_Corruption (ascii ''bad WriteBatch Put'') []))
                | Some (key, input2) \<Rightarrow>
                    (case GetLengthPrefixedSlice input2 of
                       None \<Rightarrow> (h, Inl (Status_Corruption (ascii ''bad WriteBatch Put'') []))
                     | Some (value, input3) \<Rightarrow> Iterate_loop H input3 (found + 1) (h_Put H key value h)))
          else if tag = ucast (value_type_num kTypeDeletion)
          then (case GetLengthPrefixedSlice input1 of
                  None \<Rightarrow> (h, Inl (Status_Corruption (ascii ''bad WriteBatch Delete'') []))
                | Some (key, input2) \<Rightarrow> Iterate_loop H input2 (found + 1) (h_Delete H key h))
          else (h, Inl (Status_Corruption (ascii ''unknown WriteBatch tag'') [])))"
  by pat_completeness auto
termination
  by (relation "measure (\<lambda>(H, input, found, h). length input)") (auto dest!: GetLengthPrefixedSlice_shorter)

declare Iterate_loop.simps [simp del]

definition WriteBatch_Iterate :: "'h handler \<Rightarrow> bytes \<Rightarrow> 'h \<Rightarrow> 'h \<times> status" where
  "WriteBatch_Iterate H rep h =
     (if length rep < kHeader then (h, Status_Corruption (ascii ''malformed WriteBatch (too small)'') [])
      else case Iterate_loop H (drop kHeader rep) 0 h of
             (h', Inl status) \<Rightarrow> (h', status)
           | (h', Inr found) \<Rightarrow>
               if found \<noteq> batch_Count rep then (h', Status_Corruption (ascii ''WriteBatch has wrong count'') [])
               else (h', Status_OK))"

section \<open>Batches as lists of operations\<close>

datatype batch_op = PutOp bytes bytes | DeleteOp bytes

fun op_add :: "bytes \<Rightarrow> batch_op \<Rightarrow> bytes" where
  "op_add rep (PutOp key value) = WriteBatch_Put rep key value"
| "op_add rep (DeleteOp key) = WriteBatch_Delete rep key"

fun op_handle :: "'h handler \<Rightarrow> batch_op \<Rightarrow> 'h \<Rightarrow> 'h" where
  "op_handle H (PutOp key value) h = h_Put H key value h"
| "op_handle H (DeleteOp key) h = h_Delete H key h"

fun op_small :: "batch_op \<Rightarrow> bool" where
  "op_small (PutOp key value) \<longleftrightarrow> length key < 2 ^ 32 \<and> length value < 2 ^ 32"
| "op_small (DeleteOp key) \<longleftrightarrow> length key < 2 ^ 32"

fun op_bytes :: "batch_op \<Rightarrow> bytes" where
  "op_bytes (PutOp key value) = 1 # varint (length key) @ key @ varint (length value) @ value"
| "op_bytes (DeleteOp key) = 0 # varint (length key) @ key"

definition batch_bytes :: "u64 \<Rightarrow> u32 \<Rightarrow> batch_op list \<Rightarrow> bytes" where
  "batch_bytes s n ops = le_encode 8 (unat s) @ le_encode 4 (unat n) @ concat (map op_bytes ops)"

lemma batch_bytes_parts [simp]:
  "batch_Count (batch_bytes s n ops) = n" "batch_Sequence (batch_bytes s n ops) = s"
  "batch_SetCount (batch_bytes s n ops) m = batch_bytes s m ops"
  "batch_SetSequence (batch_bytes s n ops) t = batch_bytes t n ops"
  "drop kHeader (batch_bytes s n ops) = concat (map op_bytes ops)" "kHeader \<le> length (batch_bytes s n ops)"
  by (simp_all add: batch_bytes_def batch_Count_def batch_Sequence_def batch_SetCount_def batch_SetSequence_def kHeader_def)

lemma le_encode_zero: "le_encode n 0 = replicate n 0"
  by (induction n) simp_all

lemma Clear_bytes: "WriteBatch_Clear = batch_bytes 0 0 []"
  by (simp add: WriteBatch_Clear_def batch_bytes_def kHeader_def le_encode_zero replicate_add [symmetric])

lemma varint_of_nat [simp]: "n < 2 ^ 32 \<Longrightarrow> varint (unat (of_nat n :: u32)) = varint n"
  by (simp add: unat_of_nat)

lemma op_add_bytes: "op_small op \<Longrightarrow> op_add (batch_bytes s n ops) op = batch_bytes s (n + 1) (ops @ [op])"
  by (cases op)
    (simp_all add: WriteBatch_Put_def WriteBatch_Delete_def PutLengthPrefixedSlice_def PutVarint32_def EncodeVarint32_varint,
     simp_all add: batch_bytes_def)

lemma op_adds_bytes:
  "list_all op_small os \<Longrightarrow> foldl op_add (batch_bytes s n ops) os = batch_bytes s (n + of_nat (length os)) (ops @ os)"
  by (induction os arbitrary: n ops) (simp_all add: op_add_bytes algebra_simps)

lemma Append_bytes: "batch_Append (batch_bytes s n ops) (batch_bytes t m os) = batch_bytes s (n + m) (ops @ os)"
  by (simp add: batch_Append_def) (simp add: batch_bytes_def)

lemma Iterate_loop_Nil: "Iterate_loop H [] found h = (h, Inr found)"
  by (subst Iterate_loop.simps) simp

lemma Iterate_loop_op:
  assumes "op_small op"
  shows "Iterate_loop H (op_bytes op @ rest) found h = Iterate_loop H rest (found + 1) (op_handle H op h)"
  using assms by (cases op) (subst Iterate_loop.simps, simp)+

lemma Iterate_loop_bytes:
  "list_all op_small ops \<Longrightarrow> Iterate_loop H (concat (map op_bytes ops) @ rest) found h =
    Iterate_loop H rest (found + of_nat (length ops)) (fold (op_handle H) ops h)"
  by (induction ops arbitrary: found h) (simp_all add: Iterate_loop_op algebra_simps)

lemma Iterate_bytes:
  assumes "list_all op_small ops"
  shows "WriteBatch_Iterate H (batch_bytes s (of_nat (length ops)) ops) h = (fold (op_handle H) ops h, Status_OK)"
  using Iterate_loop_bytes [OF assms, of H "[]" 0 h] batch_bytes_parts(6) [of s "of_nat (length ops)" ops]
  by (simp add: WriteBatch_Iterate_def Iterate_loop_Nil del: batch_bytes_parts(6))

section \<open>Truncated batches\<close>

lemma varint32_loop_extend: "varint32_loop shift r p = Some (v, q) \<Longrightarrow> varint32_loop shift r (p @ t) = Some (v, q @ t)"
  by (induction shift r p rule: varint32_loop.induct) (auto simp: Let_def split: if_splits)

lemma GetVarint32_extend: "GetVarint32 p = Some (v, q) \<Longrightarrow> GetVarint32 (p @ t) = Some (v, q @ t)"
  by (auto simp: GetVarint32_def GetVarint32PtrFallback_def Let_def split: list.splits if_splits dest: varint32_loop_extend)

lemma GetLengthPrefixedSlice_extend:
  "GetLengthPrefixedSlice p = Some (s, q) \<Longrightarrow> GetLengthPrefixedSlice (p @ t) = Some (s, q @ t)"
proof -
  assume g: "GetLengthPrefixedSlice p = Some (s, q)"
  then obtain len rest where v: "GetVarint32 p = Some (len, rest)" "unat len \<le> length rest"
      "s = take (unat len) rest" "q = drop (unat len) rest"
    by (auto simp: GetLengthPrefixedSlice_def split: option.splits if_splits)
  from GetVarint32_extend [OF v(1)] v(2-4) show ?thesis by (simp add: GetLengthPrefixedSlice_def)
qed

text \<open>A slice whose encoding has lost its end is not decoded.\<close>

lemma slice_truncated:
  assumes "length s < 2 ^ 32" and "p @ t = varint (length s) @ s" and "t \<noteq> []"
  shows "GetLengthPrefixedSlice p = None"
proof (cases "GetLengthPrefixedSlice p")
  case (Some sq)
  then have "GetLengthPrefixedSlice (p @ t) = Some (fst sq, snd sq @ t)"
    using GetLengthPrefixedSlice_extend [of p "fst sq" "snd sq" t] by simp
  then have "snd sq @ t = []" using GetLengthPrefixedSlice_Put [OF assms(1), of "[]"] assms(2) by simp
  then show ?thesis using assms(3) by simp
qed

lemma op_truncated:
  assumes "op_small op" and "(c # p) @ t = op_bytes op" and "t \<noteq> []"
  shows "\<exists>m. snd (Iterate_loop H (c # p) found h) = Inl (Status_Corruption m [])"
proof (cases op)
  case (PutOp key val)
  have c: "c = 1" "p @ t = varint (length key) @ key @ varint (length val) @ val" using assms(2) PutOp by auto
  show ?thesis
  proof (cases "GetLengthPrefixedSlice p")
    case None
    then show ?thesis using c by (subst Iterate_loop.simps) auto
  next
    case (Some kq)
    then have "GetLengthPrefixedSlice (p @ t) = Some (fst kq, snd kq @ t)"
      using GetLengthPrefixedSlice_extend [of p "fst kq" "snd kq" t] by simp
    then have "snd kq @ t = varint (length val) @ val"
      using GetLengthPrefixedSlice_Put [of key "varint (length val) @ val"] assms(1) PutOp c(2) by simp
    then have "GetLengthPrefixedSlice (snd kq) = None" using slice_truncated [of val "snd kq" t] assms(1,3) PutOp by simp
    then show ?thesis using c Some by (subst Iterate_loop.simps) (auto split: prod.splits)
  qed
next
  case (DeleteOp key)
  then have c: "c = 0" "p @ t = varint (length key) @ key" using assms(2) by auto
  then have "GetLengthPrefixedSlice p = None" using slice_truncated [of key p t] assms(1,3) DeleteOp by simp
  then show ?thesis using c by (subst Iterate_loop.simps) auto
qed

lemma ops_truncated:
  assumes "list_all op_small ops" and "p @ t = concat (map op_bytes ops)" and "t \<noteq> []"
  shows "(\<exists>m. snd (Iterate_loop H p found h) = Inl (Status_Corruption m [])) \<or>
    (\<exists>m<length ops. snd (Iterate_loop H p found h) = Inr (found + of_nat m))"
  using assms
proof (induction ops arbitrary: p found h)
  case (Cons op ops)
  have "p @ t = op_bytes op @ concat (map op_bytes ops)" using Cons.prems(2) by simp
  then obtain q where "p = op_bytes op @ q \<and> q @ t = concat (map op_bytes ops) \<or> p @ q = op_bytes op \<and> t = q @ concat (map op_bytes ops)"
    by (auto simp: append_eq_append_conv2)
  then consider (whole) "p = op_bytes op @ q" "q @ t = concat (map op_bytes ops)" | (nothing) "p = []"
    | (part) c p' where "p = c # p'" "p @ q = op_bytes op" "q \<noteq> []"
    using Cons.prems(3) by (cases p; cases "q = []") auto
  then show ?case
  proof cases
    case whole
    then have "Iterate_loop H p found h = Iterate_loop H q (found + 1) (op_handle H op h)"
      using Cons.prems(1) by (simp add: Iterate_loop_op)
    moreover have "found + 1 + of_nat m = found + of_nat (Suc m)" for m by simp
    ultimately show ?thesis using Cons.IH [OF _ whole(2) Cons.prems(3), of "found + 1" "op_handle H op h"] Cons.prems(1)
      by (metis Suc_less_eq length_Cons list.pred_inject(2))
  next
    case nothing
    then show ?thesis by (auto simp: Iterate_loop_Nil intro: exI [of _ 0])
  next
    case part
    then show ?thesis using op_truncated [of op c p' q H found h] Cons.prems(1) by auto
  qed
qed simp

lemma DecodeFixed32_append: "4 \<le> length q \<Longrightarrow> DecodeFixed32 True (q @ t) = DecodeFixed32 True q"
  by (simp add: DecodeFixed32_def not_less)

section \<open>Properties\<close>

text \<open>
  C18.  Iterating over a batch replays exactly the operations that were put into it, in order, and reports
  success, with the sequence number set afterwards or not; appending a batch to another replays the
  operations of both.
\<close>

theorem write_batch_roundtrip:
  assumes "list_all op_small ops" and "list_all op_small ops'"
  defines "b \<equiv> foldl op_add WriteBatch_Clear ops" and "b' \<equiv> foldl op_add WriteBatch_Clear ops'"
  shows "WriteBatch_Iterate H b h = (fold (op_handle H) ops h, Status_OK) \<and>
    WriteBatch_Iterate H (batch_SetSequence b s) h = (fold (op_handle H) ops h, Status_OK) \<and>
    batch_Sequence (batch_SetSequence b s) = s \<and> batch_Count b = of_nat (length ops) \<and>
    WriteBatch_Iterate H (batch_Append b b') h = (fold (op_handle H) (ops @ ops') h, Status_OK)"
  using assms(1,2) Iterate_bytes [of "ops @ ops'" H 0 h]
  by (simp add: b_def b'_def Clear_bytes op_adds_bytes Append_bytes Iterate_bytes)

text \<open>A handler that keeps the contents as a map.\<close>

definition map_handler :: "(bytes \<rightharpoonup> bytes) handler" where
  "map_handler = \<lparr>h_Put = (\<lambda>k v m. m(k \<mapsto> v)), h_Delete = (\<lambda>k m. m(k := None))\<rparr>"

theorem write_batch_roundtrip_witness:
  "WriteBatch_Iterate map_handler (WriteBatch_Delete (WriteBatch_Put (WriteBatch_Put WriteBatch_Clear [1] [2]) [3] [4]) [1])
     Map.empty = ([[3] \<mapsto> [4]], Status_OK)"
  using write_batch_roundtrip [of "[PutOp [1] [2], PutOp [3] [4], DeleteOp [1]]" "[]" map_handler Map.empty]
  by (auto simp: map_handler_def fun_eq_iff)

text \<open>
  C19.  A batch that has lost its end is reported: iterating over any shorter prefix of the contents of a
  batch, down to the header and below, returns a corruption status.
\<close>

theorem write_batch_truncated:
  assumes ops: "list_all op_small ops" "length ops < 2 ^ 31"
    and pre: "p @ t = foldl op_add WriteBatch_Clear ops" "t \<noteq> []"
  shows "IsCorruption (snd (WriteBatch_Iterate H p h))"
proof (cases "length p < kHeader")
  case True
  then show ?thesis by (simp add: WriteBatch_Iterate_def IsCorruption_def Status_Corruption_def)
next
  case False
  define n where "n = (of_nat (length ops) :: u32)"
  have b: "p @ t = batch_bytes 0 n ops" using pre(1) ops(1) by (simp add: Clear_bytes op_adds_bytes n_def)
  then have d: "drop kHeader p @ t = concat (map op_bytes ops)"
    using batch_bytes_parts(5) [of 0 n ops] False by (metis drop_append diff_is_0_eq' drop0 not_less)
  have "DecodeFixed32 True (drop 8 (p @ t)) = DecodeFixed32 True (drop 8 p)"
    using False DecodeFixed32_append [of "drop 8 p" t] by (simp add: kHeader_def)
  then have c: "batch_Count p = n"
    using batch_bytes_parts(1) [of 0 n ops] unfolding b [symmetric] by (simp add: batch_Count_def)
  have small: "of_nat m \<noteq> n" if "m < length ops" for m
  proof
    assume "of_nat m = n"
    then have "unat (of_nat m :: u32) = unat (of_nat (length ops) :: u32)" by (simp add: n_def)
    then show False using that ops(2) by (simp add: unat_of_nat)
  qed
  from ops_truncated [OF ops(1) d pre(2), of H 0 h] show ?thesis
    using False c small
    by (cases "Iterate_loop H (drop kHeader p) 0 h")
      (auto simp: WriteBatch_Iterate_def IsCorruption_def Status_Corruption_def)
qed

theorem write_batch_truncated_witness:
  "IsCorruption (snd (WriteBatch_Iterate map_handler (butlast (WriteBatch_Put WriteBatch_Clear [1] [2, 3])) Map.empty))"
proof -
  define b where "b = WriteBatch_Put WriteBatch_Clear [1] [2, 3]"
  have "b \<noteq> []" by (simp add: b_def WriteBatch_Put_def PutLengthPrefixedSlice_def)
  then have "butlast b @ [last b] = foldl op_add WriteBatch_Clear [PutOp [1] [2, 3]]" by (simp add: b_def)
  from write_batch_truncated [OF _ _ this] show ?thesis by (simp add: b_def)
qed

end
