(* ===== verification/Rocks_Batch.thy ===== *)
theory Rocks_Batch
  imports Lvl_WriteBatch
begin

text \<open>
  The write batches of RocksDB 3.7, \<^verbatim>\<open>db/write_batch.cc\<close>, and its statuses,
  \<^verbatim>\<open>util/status.cc\<close>.  The coding of integers and slices is that of LevelDB
  (\<open>Lvl_Coding\<close>).  A record carries the column family it is for, and besides puts and deletes there are merges and
  blobs that only go to the log.
\<close>

section \<open>Statuses\<close>

datatype RCode = rkOk | rkNotFound | rkCorruption | rkNotSupported | rkInvalidArgument | rkIOError
  | rkMergeInProgress | rkIncomplete | rkShutdownInProgress | rkTimedOut

text \<open>The state is \<open>None\<close> for \<^verbatim>\<open>nullptr\<close>, else the array with the length of the
  message and the message.\<close>

record rstatus =
  rs_code :: RCode
  rs_state :: "bytes option"

definition RStatus_OK :: rstatus where "RStatus_OK = \<lparr>rs_code = rkOk, rs_state = None\<rparr>"

definition RStatus_code :: "RCode \<Rightarrow> rstatus" where "RStatus_code c = \<lparr>rs_code = c, rs_state = None\<rparr>"

definition RStatus_new :: "RCode \<Rightarrow> bytes \<Rightarrow> bytes \<Rightarrow> rstatus" where
  "RStatus_new code msg msg2 =
     (let len1 = (of_nat (length msg) :: u32);
          len2 = (of_nat (length msg2) :: u32);
          size = len1 + (if len2 \<noteq> 0 then 2 + len2 else 0)
      in \<lparr>rs_code = code,
          rs_state = Some (le_encode 4 (unat size) @ take (unat len1) msg @
            (if len2 \<noteq> 0 then ascii '': '' @ take (unat len2) msg2 else []))\<rparr>)"

definition RStatus_Corruption :: "bytes \<Rightarrow> rstatus" where "RStatus_Corruption msg = RStatus_new rkCorruption msg []"

definition rstatus_ok :: "rstatus \<Rightarrow> bool" where "rstatus_ok s \<longleftrightarrow> rs_code s = rkOk"
definition RIsNotFound :: "rstatus \<Rightarrow> bool" where "RIsNotFound s \<longleftrightarrow> rs_code s = rkNotFound"
definition RIsCorruption :: "rstatus \<Rightarrow> bool" where "RIsCorruption s \<longleftrightarrow> rs_code s = rkCorruption"

definition RCopyState :: "bytes \<Rightarrow> bytes" where
  "RCopyState state = take (status_length state + 4) state"

definition RStatus_copy :: "rstatus \<Rightarrow> rstatus" where
  "RStatus_copy s = \<lparr>rs_code = rs_code s, rs_state = map_option RCopyState (rs_state s)\<rparr>"

fun rstatus_type :: "RCode \<Rightarrow> bytes" where
  "rstatus_type rkOk = ascii ''OK''"
| "rstatus_type rkNotFound = ascii ''NotFound: ''"
| "rstatus_type rkCorruption = ascii ''Corruption: ''"
| "rstatus_type rkNotSupported = ascii ''Not implemented: ''"
| "rstatus_type rkInvalidArgument = ascii ''Invalid argument: ''"
| "rstatus_type rkIOError = ascii ''IO error: ''"
| "rstatus_type rkMergeInProgress = ascii ''Merge in progress: ''"
| "rstatus_type rkIncomplete = ascii ''Result incomplete: ''"
| "rstatus_type rkShutdownInProgress = ascii ''Shutdown in progress: ''"
| "rstatus_type rkTimedOut = ascii ''Operation timed out: ''"

definition rstatus_ToString :: "rstatus \<Rightarrow> bytes" where
  "rstatus_ToString s =
     (if rs_code s = rkOk then ascii ''OK''
      else rstatus_type (rs_code s) @
        (case rs_state s of None \<Rightarrow> [] | Some state \<Rightarrow> take (status_length state) (drop 4 state)))"

section \<open>Building a batch\<close>

datatype RValueType = rkTypeDeletion | rkTypeValue | rkTypeMerge | rkTypeLogData
  | rkTypeColumnFamilyDeletion | rkTypeColumnFamilyValue | rkTypeColumnFamilyMerge

fun rtype_num :: "RValueType \<Rightarrow> byte" where
  "rtype_num rkTypeDeletion = 0"
| "rtype_num rkTypeValue = 1"
| "rtype_num rkTypeMerge = 2"
| "rtype_num rkTypeLogData = 3"
| "rtype_num rkTypeColumnFamilyDeletion = 4"
| "rtype_num rkTypeColumnFamilyValue = 5"
| "rtype_num rkTypeColumnFamilyMerge = 6"

definition rocks_Clear :: bytes where "rocks_Clear = replicate kHeader 0"

definition rocks_Count :: "bytes \<Rightarrow> u32" where "rocks_Count rep = the (DecodeFixed32 True (drop 8 rep))"

definition rocks_SetCount :: "bytes \<Rightarrow> u32 \<Rightarrow> bytes" where
  "rocks_SetCount rep n = take 8 rep @ EncodeFixed32 True n @ drop 12 rep"

definition rocks_Sequence :: "bytes \<Rightarrow> u64" where "rocks_Sequence rep = the (DecodeFixed64 True rep)"

definition rocks_SetSequence :: "bytes \<Rightarrow> u64 \<Rightarrow> bytes" where
  "rocks_SetSequence rep s = EncodeFixed64 True s @ drop 8 rep"

definition rocks_Put :: "bytes \<Rightarrow> u32 \<Rightarrow> bytes \<Rightarrow> bytes \<Rightarrow> bytes" where
  "rocks_Put rep cf key val =
     (let rep1 = rocks_SetCount rep (rocks_Count rep + 1);
          rep2 = (if cf = 0 then rep1 @ [rtype_num rkTypeValue] else PutVarint32 (rep1 @ [rtype_num rkTypeColumnFamilyValue]) cf)
      in PutLengthPrefixedSlice (PutLengthPrefixedSlice rep2 key) val)"

definition rocks_Delete :: "bytes \<Rightarrow> u32 \<Rightarrow> bytes \<Rightarrow> bytes" where
  "rocks_Delete rep cf key =
     (let rep1 = rocks_SetCount rep (rocks_Count rep + 1);
          rep2 = (if cf = 0 then rep1 @ [rtype_num rkTypeDeletion] else PutVarint32 (rep1 @ [rtype_num rkTypeColumnFamilyDeletion]) cf)
      in PutLengthPrefixedSlice rep2 key)"

definition rocks_Merge :: "bytes \<Rightarrow> u32 \<Rightarrow> bytes \<Rightarrow> bytes \<Rightarrow> bytes" where
  "rocks_Merge rep cf key val =
     (let rep1 = rocks_SetCount rep (rocks_Count rep + 1);
          rep2 = (if cf = 0 then rep1 @ [rtype_num rkTypeMerge] else PutVarint32 (rep1 @ [rtype_num rkTypeColumnFamilyMerge]) cf)
      in PutLengthPrefixedSlice (PutLengthPrefixedSlice rep2 key) val)"

definition rocks_PutLogData :: "bytes \<Rightarrow> bytes \<Rightarrow> bytes" where
  "rocks_PutLogData rep blob = PutLengthPrefixedSlice (rep @ [rtype_num rkTypeLogData]) blob"

definition rocks_Append :: "bytes \<Rightarrow> bytes \<Rightarrow> bytes" where
  "rocks_Append dst src = rocks_SetCount dst (rocks_Count dst + rocks_Count src) @ drop kHeader src"

section \<open>Iterating over a batch\<close>

text \<open>The fields one record fills in, and what is left of the input.  On an error the input is not used again.\<close>

record batch_record =
  br_tag :: byte
  br_cf :: u32
  br_key :: bytes
  br_val :: bytes
  br_blob :: bytes

definition read_cf :: "bytes \<Rightarrow> byte \<Rightarrow> byte \<Rightarrow> bytes \<Rightarrow> rstatus + u32 \<times> bytes" where
  "read_cf input tag cf_tag msg =
     (if tag = cf_tag
      then (case GetVarint32 input of None \<Rightarrow> Inl (RStatus_Corruption msg) | Some r \<Rightarrow> Inr r)
      else Inr (0, input))"

definition ReadRecordFromWriteBatch :: "byte \<Rightarrow> bytes \<Rightarrow> rstatus + batch_record \<times> bytes" where
  "ReadRecordFromWriteBatch tag input =
     (if tag = rtype_num rkTypeColumnFamilyValue \<or> tag = rtype_num rkTypeValue then
        (case read_cf input tag (rtype_num rkTypeColumnFamilyValue) (ascii ''bad WriteBatch Put'') of
           Inl s \<Rightarrow> Inl s
         | Inr (cf, input1) \<Rightarrow>
             (case GetLengthPrefixedSlice input1 of
                None \<Rightarrow> Inl (RStatus_Corruption (ascii ''bad WriteBatch Put''))
              | Some (key, input2) \<Rightarrow>
                  (case GetLengthPrefixedSlice input2 of
                     None \<Rightarrow> Inl (RStatus_Corruption (ascii ''bad WriteBatch Put''))
                   | Some (val, input3) \<Rightarrow> Inr (\<lparr>br_tag = tag, br_cf = cf, br_key = key, br_val = val, br_blob = []\<rparr>, input3))))
      else if tag = rtype_num rkTypeColumnFamilyDeletion \<or> tag = rtype_num rkTypeDeletion then
        (case read_cf input tag (rtype_num rkTypeColumnFamilyDeletion) (ascii ''bad WriteBatch Delete'') of
           Inl s \<Rightarrow> Inl s
         | Inr (cf, input1) \<Rightarrow>
             (case GetLengthPrefixedSlice input1 of
                None \<Rightarrow> Inl (RStatus_Corruption (ascii ''bad WriteBatch Delete''))
              | Some (key, input2) \<Rightarrow> Inr (\<lparr>br_tag = tag, br_cf = cf, br_key = key, br_val = [], br_blob = []\<rparr>, input2)))
      else if tag = rtype_num rkTypeColumnFamilyMerge \<or> tag = rtype_num rkTypeMerge then
        (case read_cf input tag (rtype_num rkTypeColumnFamilyMerge) (ascii ''bad WriteBatch Merge'') of
           Inl s \<Rightarrow> Inl s
         | Inr (cf, input1) \<Rightarrow>
             (case GetLengthPrefixedSlice input1 of
                None \<Rightarrow> Inl (RStatus_Corruption (ascii ''bad WriteBatch Merge''))
              | Some (key, input2) \<Rightarrow>
                  (case GetLengthPrefixedSlice input2 of
                     None \<Rightarrow> Inl (RStatus_Corruption (ascii ''bad WriteBatch Merge''))
                   | Some (val, input3) \<Rightarrow> Inr (\<lparr>br_tag = tag, br_cf = cf, br_key = key, br_val = val, br_blob = []\<rparr>, input3))))
      else if tag = rtype_num rkTypeLogData then
        (case GetLengthPrefixedSlice input of
           None \<Rightarrow> Inl (RStatus_Corruption (ascii ''bad WriteBatch Blob''))
         | Some (blob, input1) \<Rightarrow> Inr (\<lparr>br_tag = tag, br_cf = 0, br_key = [], br_val = [], br_blob = blob\<rparr>, input1))
      else Inl (RStatus_Corruption (ascii ''unknown WriteBatch tag'')))"

lemma read_cf_shorter: "read_cf input tag t m = Inr (cf, rest) \<Longrightarrow> length rest \<le> length input"
  by (auto simp: read_cf_def split: if_splits option.splits dest: GetVarint32_shorter)

lemma ReadRecord_shorter: "ReadRecordFromWriteBatch tag input = Inr (r, rest) \<Longrightarrow> length rest < length input"
  by (fastforce simp: ReadRecordFromWriteBatch_def split: if_splits sum.splits option.splits
      dest: read_cf_shorter GetLengthPrefixedSlice_shorter)

text \<open>A handler: the first three report a status.\<close>

record 'h rhandler =
  rh_PutCF :: "u32 \<Rightarrow> bytes \<Rightarrow> bytes \<Rightarrow> 'h \<Rightarrow> rstatus \<times> 'h"
  rh_DeleteCF :: "u32 \<Rightarrow> bytes \<Rightarrow> 'h \<Rightarrow> rstatus \<times> 'h"
  rh_MergeCF :: "u32 \<Rightarrow> bytes \<Rightarrow> bytes \<Rightarrow> 'h \<Rightarrow> rstatus \<times> 'h"
  rh_LogData :: "bytes \<Rightarrow> 'h \<Rightarrow> 'h"
  rh_Continue :: "'h \<Rightarrow> bool"

text \<open>The \<^verbatim>\<open>switch\<close> of \<^verbatim>\<open>Iterate\<close> on one record: the status, whether
  the record counts, and the handler.  Its default branch cannot be reached, since reading the record has refused other tags.\<close>

definition handle_record :: "'h rhandler \<Rightarrow> batch_record \<Rightarrow> 'h \<Rightarrow> rstatus \<times> u32 \<times> 'h" where
  "handle_record H r h =
     (if br_tag r = rtype_num rkTypeColumnFamilyValue \<or> br_tag r = rtype_num rkTypeValue
      then (case rh_PutCF H (br_cf r) (br_key r) (br_val r) h of (s, h') \<Rightarrow> (s, 1, h'))
      else if br_tag r = rtype_num rkTypeColumnFamilyDeletion \<or> br_tag r = rtype_num rkTypeDeletion
      then (case rh_DeleteCF H (br_cf r) (br_key r) h of (s, h') \<Rightarrow> (s, 1, h'))
      else if br_tag r = rtype_num rkTypeColumnFamilyMerge \<or> br_tag r = rtype_num rkTypeMerge
      then (case rh_MergeCF H (br_cf r) (br_key r) (br_val r) h of (s, h') \<Rightarrow> (s, 1, h'))
      else (RStatus_OK, 0, rh_LogData H (br_blob r) h))"

function rocks_loop :: "'h rhandler \<Rightarrow> rstatus \<Rightarrow> bytes \<Rightarrow> u32 \<Rightarrow> 'h \<Rightarrow> rstatus \<times> u32 \<times> 'h" where
  "rocks_loop H s input found h =
     (if \<not> rstatus_ok s then (s, found, h)
      else case input of
             [] \<Rightarrow> (s, found, h)
           | tag # input1 \<Rightarrow>
               if \<not> rh_Continue H h then (s, found, h)
               else (case ReadRecordFromWriteBatch tag input1 of
                       Inl s' \<Rightarrow> (s', found, h)
                     | Inr (r, input2) \<Rightarrow>
                         (case handle_record H r h of (s', n, h') \<Rightarrow> rocks_loop H s' input2 (found + n) h')))"
  by pat_completeness auto
termination
  by (relation "measure (\<lambda>(H, s, input, found, h). length input)") (auto dest!: ReadRecord_shorter)

declare rocks_loop.simps [simp del]

text \<open>A status that is not OK ends the loop and is returned, whether reading the record or the handler reported it.\<close>

definition rocks_Iterate :: "'h rhandler \<Rightarrow> bytes \<Rightarrow> 'h \<Rightarrow> rstatus \<times> 'h" where
  "rocks_Iterate H rep h =
     (if length rep < kHeader then (RStatus_Corruption (ascii ''malformed WriteBatch (too small)''), h)
      else case rocks_loop H RStatus_OK (drop kHeader rep) 0 h of
             (s, found, h') \<Rightarrow>
               if \<not> rstatus_ok s then (s, h')
               else if found \<noteq> rocks_Count rep then (RStatus_Corruption (ascii ''WriteBatch has wrong count''), h')
               else (RStatus_OK, h'))"

section \<open>Batches as lists of operations\<close>

datatype cf_op = CfPut u32 bytes bytes | CfDelete u32 bytes | CfMerge u32 bytes bytes | CfLogData bytes

fun cf_add :: "bytes \<Rightarrow> cf_op \<Rightarrow> bytes" where
  "cf_add rep (CfPut cf key val) = rocks_Put rep cf key val"
| "cf_add rep (CfDelete cf key) = rocks_Delete rep cf key"
| "cf_add rep (CfMerge cf key val) = rocks_Merge rep cf key val"
| "cf_add rep (CfLogData blob) = rocks_PutLogData rep blob"

fun cf_small :: "cf_op \<Rightarrow> bool" where
  "cf_small (CfPut cf key val) \<longleftrightarrow> length key < 2 ^ 32 \<and> length val < 2 ^ 32"
| "cf_small (CfDelete cf key) \<longleftrightarrow> length key < 2 ^ 32"
| "cf_small (CfMerge cf key val) \<longleftrightarrow> length key < 2 ^ 32 \<and> length val < 2 ^ 32"
| "cf_small (CfLogData blob) \<longleftrightarrow> length blob < 2 ^ 32"

fun cf_counts :: "cf_op \<Rightarrow> bool" where
  "cf_counts (CfLogData blob) = False"
| "cf_counts _ = True"

fun cf_handle :: "'h rhandler \<Rightarrow> cf_op \<Rightarrow> 'h \<Rightarrow> rstatus \<times> 'h" where
  "cf_handle H (CfPut cf key val) h = rh_PutCF H cf key val h"
| "cf_handle H (CfDelete cf key) h = rh_DeleteCF H cf key h"
| "cf_handle H (CfMerge cf key val) h = rh_MergeCF H cf key val h"
| "cf_handle H (CfLogData blob) h = (RStatus_OK, rh_LogData H blob h)"

text \<open>Replaying operations on a handler, up to the first error.\<close>

fun cf_replay :: "'h rhandler \<Rightarrow> cf_op list \<Rightarrow> 'h \<Rightarrow> rstatus \<times> 'h" where
  "cf_replay H [] h = (RStatus_OK, h)"
| "cf_replay H (op # ops) h = (case cf_handle H op h of (s, h') \<Rightarrow> if rstatus_ok s then cf_replay H ops h' else (s, h'))"

definition cf_tag :: "u32 \<Rightarrow> RValueType \<Rightarrow> RValueType \<Rightarrow> bytes" where
  "cf_tag cf plain with_cf = (if cf = 0 then [rtype_num plain] else rtype_num with_cf # varint (unat cf))"

fun cf_bytes :: "cf_op \<Rightarrow> bytes" where
  "cf_bytes (CfPut cf key val) = cf_tag cf rkTypeValue rkTypeColumnFamilyValue @ varint (length key) @ key @ varint (length val) @ val"
| "cf_bytes (CfDelete cf key) = cf_tag cf rkTypeDeletion rkTypeColumnFamilyDeletion @ varint (length key) @ key"
| "cf_bytes (CfMerge cf key val) = cf_tag cf rkTypeMerge rkTypeColumnFamilyMerge @ varint (length key) @ key @ varint (length val) @ val"
| "cf_bytes (CfLogData blob) = rtype_num rkTypeLogData # varint (length blob) @ blob"

definition cf_batch :: "u64 \<Rightarrow> u32 \<Rightarrow> cf_op list \<Rightarrow> bytes" where
  "cf_batch s n ops = le_encode 8 (unat s) @ le_encode 4 (unat n) @ concat (map cf_bytes ops)"

definition cf_count :: "cf_op list \<Rightarrow> u32" where
  "cf_count ops = of_nat (length (filter cf_counts ops))"

lemma cf_batch_parts [simp]:
  "rocks_Count (cf_batch s n ops) = n" "rocks_Sequence (cf_batch s n ops) = s"
  "rocks_SetCount (cf_batch s n ops) m = cf_batch s m ops" "rocks_SetSequence (cf_batch s n ops) t = cf_batch t n ops"
  "drop kHeader (cf_batch s n ops) = concat (map cf_bytes ops)" "kHeader \<le> length (cf_batch s n ops)"
  by (simp_all add: cf_batch_def rocks_Count_def rocks_Sequence_def rocks_SetCount_def rocks_SetSequence_def kHeader_def)

lemma rocks_Clear_batch: "rocks_Clear = cf_batch 0 0 []"
  by (simp add: rocks_Clear_def cf_batch_def kHeader_def le_encode_zero replicate_add [symmetric])

lemma rocks_Append_batch: "rocks_Append (cf_batch s n ops) (cf_batch t m os) = cf_batch s (n + m) (ops @ os)"
  by (simp add: rocks_Append_def) (simp add: cf_batch_def)

lemma cf_add_batch:
  "cf_small op \<Longrightarrow> cf_add (cf_batch s n ops) op = cf_batch s (n + of_bool (cf_counts op)) (ops @ [op])"
  by (cases op)
    (simp_all add: rocks_Put_def rocks_Delete_def rocks_Merge_def rocks_PutLogData_def Let_def PutLengthPrefixedSlice_def PutVarint32_def
      EncodeVarint32_varint cf_tag_def, simp_all add: cf_batch_def cf_tag_def)

lemma cf_adds_batch:
  "list_all cf_small os \<Longrightarrow> foldl cf_add (cf_batch s n ops) os = cf_batch s (n + cf_count os) (ops @ os)"
  by (induction os arbitrary: n ops) (simp_all add: cf_add_batch cf_count_def algebra_simps)

lemma read_cf_tag:
  "read_cf (varint (unat cf) @ rest) t t m = Inr (cf, rest)" "t \<noteq> t' \<Longrightarrow> read_cf rest t t' m = Inr (0, rest)"
  by (simp_all add: read_cf_def)

lemma rocks_loop_op:
  assumes "cf_small op" and "rh_Continue H h" and "rstatus_ok s"
  shows "rocks_loop H s (cf_bytes op @ rest) found h =
    (case cf_handle H op h of (s', h') \<Rightarrow> rocks_loop H s' rest (found + of_bool (cf_counts op)) h')"
  using assms
  by (cases op)
    (subst rocks_loop.simps, simp add: cf_tag_def ReadRecordFromWriteBatch_def read_cf_tag handle_record_def split: prod.split)+

lemma rocks_loop_end: "\<not> rstatus_ok s \<Longrightarrow> rocks_loop H s input found h = (s, found, h)" "rocks_loop H s [] found h = (s, found, h)"
  by (subst rocks_loop.simps, simp)+

lemma RStatus_OK_ok [simp]: "rstatus_ok RStatus_OK"
  by (simp add: rstatus_ok_def RStatus_OK_def)

lemma rocks_loop_replay:
  assumes "list_all cf_small ops" and "\<And>h. rh_Continue H h" and "rstatus_ok s"
  shows "\<exists>s' n. rocks_loop H s (concat (map cf_bytes ops)) found h = (s', n, snd (cf_replay H ops h)) \<and>
    (if rstatus_ok (fst (cf_replay H ops h)) then rstatus_ok s' \<and> n = found + cf_count ops else s' = fst (cf_replay H ops h))"
  using assms(1,3)
proof (induction ops arbitrary: s found h)
  case Nil
  then show ?case by (simp add: rocks_loop_end cf_count_def)
next
  case (Cons op ops)
  obtain s1 h1 where c: "cf_handle H op h = (s1, h1)" by (metis prod.exhaust)
  show ?case
  proof (cases "rstatus_ok s1")
    case True
    from Cons.IH [OF _ True, of "found + of_bool (cf_counts op)" h1] Cons.prems
    show ?thesis using True rocks_loop_op [of op H h s] assms(2) c by (auto simp: cf_count_def algebra_simps split: if_splits)
  next
    case False
    then show ?thesis using Cons.prems rocks_loop_op [of op H h s] assms(2) c by (simp add: rocks_loop_end)
  qed
qed

lemma replay_ok: "rstatus_ok (fst (cf_replay H ops h)) \<Longrightarrow> fst (cf_replay H ops h) = RStatus_OK"
  by (induction ops arbitrary: h) (auto split: prod.splits if_splits)

lemma rocks_Iterate_batch:
  assumes "list_all cf_small ops" and "\<And>h. rh_Continue H h"
  shows "rocks_Iterate H (cf_batch t (cf_count ops) ops) h = cf_replay H ops h"
proof -
  obtain s n where l: "rocks_loop H RStatus_OK (concat (map cf_bytes ops)) 0 h = (s, n, snd (cf_replay H ops h))"
      "if rstatus_ok (fst (cf_replay H ops h)) then rstatus_ok s \<and> n = cf_count ops else s = fst (cf_replay H ops h)"
    using rocks_loop_replay [OF assms(1,2) RStatus_OK_ok, of 0 h] by auto
  have len: "\<not> length (cf_batch t (cf_count ops) ops) < kHeader" using cf_batch_parts(6) by (simp add: not_less)
  obtain s1 h1 where r: "cf_replay H ops h = (s1, h1)" by (metis prod.exhaust)
  show ?thesis
    using l replay_ok [of H ops h] len r unfolding rocks_Iterate_def by (cases "rstatus_ok s1") simp_all
qed

section \<open>Properties\<close>

text \<open>C38.  Iterating over a RocksDB batch replays the operations that were put into it, for whichever column families, in order: until the
  handler reports an error, which is then the result, with the handler as the operations before and with it left it.  The sequence
  number does not matter, blobs for the log are not counted, and appending a batch replays both.\<close>

theorem rocks_batch_roundtrip:
  assumes "list_all cf_small ops" and "list_all cf_small ops'" and "\<And>h. rh_Continue H h"
  defines "b \<equiv> foldl cf_add rocks_Clear ops" and "b' \<equiv> foldl cf_add rocks_Clear ops'"
  shows "rocks_Iterate H b h = cf_replay H ops h \<and> rocks_Iterate H (rocks_SetSequence b s) h = cf_replay H ops h \<and>
    rocks_Sequence (rocks_SetSequence b s) = s \<and> rocks_Count b = of_nat (length (filter cf_counts ops)) \<and>
    rocks_Iterate H (rocks_Append b b') h = cf_replay H (ops @ ops') h"
proof -
  have "cf_count ops + cf_count ops' = cf_count (ops @ ops')" by (simp add: cf_count_def)
  then show ?thesis
    using assms(1,2) rocks_Iterate_batch [OF _ assms(3), of ops _ h] rocks_Iterate_batch [OF _ assms(3), of "ops @ ops'" _ h]
    by (simp add: b_def b'_def rocks_Clear_batch cf_adds_batch rocks_Append_batch) (simp add: cf_count_def)
qed

definition cf_map_handler :: "(u32 \<Rightarrow> bytes \<rightharpoonup> bytes) rhandler" where
  "cf_map_handler =
     \<lparr>rh_PutCF = (\<lambda>cf k v m. (RStatus_OK, m(cf := (m cf)(k \<mapsto> v)))), rh_DeleteCF = (\<lambda>cf k m. (RStatus_OK, m(cf := (m cf)(k := None)))),
      rh_MergeCF = (\<lambda>cf k v m. (RStatus_code rkNotSupported, m)), rh_LogData = (\<lambda>b m. m), rh_Continue = (\<lambda>_. True)\<rparr>"

theorem rocks_batch_roundtrip_witness:
  "\<exists>m. rocks_Iterate cf_map_handler (rocks_Merge (rocks_Delete (rocks_Put (rocks_PutLogData (rocks_Put rocks_Clear 0 [1] [2]) [9]) 300 [1] [3]) 0 [1]) 0 [1] [4])
    (\<lambda>_. Map.empty) = (RStatus_code rkNotSupported, m) \<and> m 0 [1] = None \<and> m 300 [1] = Some [3]"
  using rocks_batch_roundtrip [of "[CfPut 0 [1] [2], CfLogData [9], CfPut 300 [1] [3], CfDelete 0 [1], CfMerge 0 [1] [4]]" "[]" cf_map_handler "\<lambda>_. Map.empty"]
  by (simp add: cf_map_handler_def RStatus_code_def rstatus_ok_def RStatus_OK_def)

text \<open>The codes that LevelDB has too.\<close>

fun shared_code :: "Code \<Rightarrow> RCode" where
  "shared_code kOk = rkOk"
| "shared_code kNotFound = rkNotFound"
| "shared_code kCorruption = rkCorruption"
| "shared_code kNotSupported = rkNotSupported"
| "shared_code kInvalidArgument = rkInvalidArgument"
| "shared_code kIOError = rkIOError"

lemma RStatus_new_eq:
  assumes "length (status_message msg msg2) < 2 ^ 32"
  shows "RStatus_new c msg msg2 = \<lparr>rs_code = c, rs_state = Some (le_encode 4 (length (status_message msg msg2)) @ status_message msg msg2)\<rparr>"
  using Status_new_eq [OF assms, of kIOError] by (simp add: Status_new_def RStatus_new_def Let_def)

text \<open>C39.  The two engines print an error in the same way: for the codes that both have, and messages that fit, the text of a
  RocksDB status is the text of the LevelDB status, although the one keeps the code in a field and the other in the array;
  copying a RocksDB status keeps its code and its text.\<close>

theorem rocks_status_text:
  assumes "length (status_message msg msg2) < 2 ^ 32" and "c \<noteq> kOk"
  shows "rstatus_ToString (RStatus_new (shared_code c) msg msg2) = status_ToString (Status_new c msg msg2) \<and>
    RStatus_copy (RStatus_new (shared_code c) msg msg2) = RStatus_new (shared_code c) msg msg2 \<and>
    (RIsNotFound (RStatus_new (shared_code c) msg msg2) \<longleftrightarrow> IsNotFound (Status_new c msg msg2)) \<and>
    (rstatus_ok (RStatus_new (shared_code c) msg msg2) \<longleftrightarrow> status_ok (Status_new c msg msg2))"
proof -
  define m where "m = status_message msg msg2"
  have l: "status_length (le_encode 4 (length m) @ m) = length m" "status_length (le_encode 4 (length m) @ code_num c # m) = length m"
    using assms(1) by (simp_all add: status_length_def le_decode_encode m_def)
  have "status_code (Some (le_encode 4 (length m) @ code_num c # m)) = code_num c" by (simp add: status_code_def nth_append)
  then show ?thesis
    unfolding Status_new_eq [OF assms(1)] RStatus_new_eq [OF assms(1)] m_def [symmetric] using l assms(2)
    by (cases c) (simp_all add: rstatus_ToString_def status_ToString_def status_type_def RStatus_copy_def RCopyState_def RIsNotFound_def IsNotFound_def
        rstatus_ok_def status_ok_def)
qed

theorem rocks_status_text_witness:
  "rstatus_ToString (RStatus_new rkIOError (ascii ''a'') (ascii ''bad'')) = ascii ''IO error: a: bad''"
  using rocks_status_text [of "ascii ''a''" "ascii ''bad''" kIOError]
  by (simp add: status_message_def Status_new_eq status_ToString_def status_length_def status_code_def nth_append status_type_def ascii_def le_decode_encode)

end
