(* ===== verification/Lvl_Random.thy ===== *)
theory Lvl_Random
  imports Lvl_Coding
begin

text \<open>
  The random number generator of LevelDB,
  \<^verbatim>\<open>src/3rd-party/leveldb/leveldb-1.18/util/random.h\<close>: a Lehmer generator with
  modulus \<open>2^31 - 1\<close>, computed without a division.
\<close>

definition Random :: "u32 \<Rightarrow> u32" where
  "Random s = (let seed = s AND 0x7fffffff in if seed = 0 \<or> seed = 2147483647 then 1 else seed)"

text \<open>The new seed, which is also the value returned.\<close>

definition Random_Next :: "u32 \<Rightarrow> u32" where
  "Random_Next seed =
     (let M = (2147483647 :: u64);
          A = (16807 :: u64);
          product = ucast seed * A;
          seed1 = (ucast (drop_bit 31 product + (product AND M)) :: u32)
      in if seed1 > ucast M then seed1 - ucast M else seed1)"

definition Random_Uniform :: "u32 \<Rightarrow> u32 \<Rightarrow> u32" where
  "Random_Uniform seed n = Random_Next seed mod n"

definition Random_OneIn :: "u32 \<Rightarrow> u32 \<Rightarrow> bool" where
  "Random_OneIn seed n \<longleftrightarrow> Random_Next seed mod n = 0"

definition seed_ok :: "u32 \<Rightarrow> bool" where
  "seed_ok s \<longleftrightarrow> 0 < unat s \<and> unat s < 2147483647"

lemma Random_ok: "seed_ok (Random s)"
proof -
  have "unat (s AND 0x7fffffff) \<le> 2147483647"
    using word_and_le1 [of s "0x7fffffff"] by (simp add: word_le_nat_alt)
  then show ?thesis by (auto simp: Random_def seed_ok_def Let_def word_unat_eq_iff)
qed

lemma unat_and_M: "unat ((p :: u64) AND 2147483647) = unat p mod 2147483648"
proof -
  have "unat p AND mask 31 = unat p mod 2 ^ 31" by (simp only: take_bit_eq_mask [symmetric] take_bit_eq_mod)
  moreover have "mask 31 = (2147483647 :: nat)" "(2 :: nat) ^ 31 = 2147483648" by (simp_all add: mask_eq_exp_minus_1)
  ultimately show ?thesis by (simp add: unsigned_and_eq)
qed

text \<open>The reduction without division: for a product below \<open>2^46\<close> the sum of the high
  and the low part is congruent to it, and one subtraction is enough.\<close>

lemma lehmer_reduce:
  fixes p :: nat
  assumes "p mod 2147483647 \<noteq> 0" and "p < 2 ^ 46"
  shows "(let q = p div 2147483648 + p mod 2147483648 in if q > 2147483647 then q - 2147483647 else q) = p mod 2147483647"
proof -
  define h l where "h = p div 2147483648" and "l = p mod 2147483648"
  have p: "p = h * 2147483647 + (h + l)" by (simp add: h_def l_def)
  have h: "h < 32768" using assms(2) by (simp add: h_def less_mult_imp_div_less)
  have l: "l < 2147483648" by (simp add: l_def)
  have m: "p mod 2147483647 = (h + l) mod 2147483647"
    using mod_mult_self3 [of h 2147483647 "h + l"] p by (simp only:)
  have ne: "h + l \<noteq> 2147483647" using assms(1) unfolding m by auto
  show ?thesis
  proof (cases "h + l > 2147483647")
    case True
    then have "(h + l) mod 2147483647 = h + l - 2147483647"
      using h l by (simp add: mod_if)
    then show ?thesis using True m by (simp add: h_def l_def Let_def)
  next
    case False
    then show ?thesis using ne m by (simp add: h_def l_def Let_def)
  qed
qed

lemma seed_step_nonzero:
  assumes "seed_ok s"
  shows "(unat s * 16807) mod 2147483647 \<noteq> 0"
proof
  assume "(unat s * 16807) mod 2147483647 = 0"
  then have "2147483647 dvd unat s * 16807" by (simp only: dvd_eq_mod_eq_0)
  moreover have "coprime (2147483647 :: nat) 16807" by (simp add: coprime_iff_gcd_eq_1 gcd_non_0_nat)
  ultimately have "2147483647 dvd unat s" by (simp only: coprime_dvd_mult_left_iff)
  then show False using assms dvd_imp_le [of 2147483647 "unat s"] by (simp add: seed_ok_def)
qed

lemma Random_Next_unat:
  assumes s: "seed_ok s"
  shows "unat (Random_Next s) = (unat s * 16807) mod 2147483647"
proof -
  define p where "p = unat s * 16807"
  define q where "q = p div 2147483648 + p mod 2147483648"
  have pb: "p < 2 ^ 46" using assms by (simp add: seed_ok_def p_def)
  have us: "unat (ucast s :: u64) = unat s"
    using unat_u32_less [of s] by (simp add: unsigned_ucast_eq take_bit_nat_eq_self_iff)
  have prod: "unat (ucast s * 16807 :: u64) = p"
    using pb by (simp add: unat_word_ariths us p_def)
  have "p div 2147483648 < 32768" using pb by (simp add: less_mult_imp_div_less)
  then have qb: "q < 2147483648 + 32768" by (simp add: q_def add.commute add_less_mono)
  have sum: "unat (drop_bit 31 (ucast s * 16807) + ((ucast s * 16807) AND 2147483647) :: u64) = q"
    using qb by (simp add: unat_word_ariths(1) unat_shift unat_and_M prod q_def)
  define seed1 where "seed1 = (ucast (drop_bit 31 (ucast s * 16807) + ((ucast s * 16807) AND 2147483647) :: u64) :: u32)"
  have s1: "unat seed1 = q"
    using qb unfolding seed1_def unsigned_ucast_eq by (subst sum) (simp add: take_bit_nat_eq_self_iff)
  have gt: "seed1 > 2147483647 \<longleftrightarrow> q > 2147483647" by (simp add: word_less_nat_alt s1)
  have "unat (Random_Next s) = (if q > 2147483647 then q - 2147483647 else q)"
    using gt unat_sub [of "2147483647 :: u32" seed1]
    by (simp add: Random_Next_def Let_def seed1_def [symmetric] s1 word_le_nat_alt)
  also have "\<dots> = p mod 2147483647"
    using lehmer_reduce [OF seed_step_nonzero [OF s, folded p_def] pb] by (simp only: Let_def q_def)
  finally show ?thesis by (simp add: p_def)
qed

text \<open>
  C13.  The generator computes \<open>seed * 16807 mod (2^31 - 1)\<close> although it never divides and
  keeps the seed in 32 bits: from every seed the constructor can produce, the next one is exactly that
  product reduced, and again different from \<open>0\<close> and \<open>2^31 - 1\<close>, so the
  generator never gets stuck.
\<close>

theorem random_next_lehmer:
  assumes "seed_ok s"
  shows "unat (Random_Next s) = (unat s * 16807) mod 2147483647 \<and> seed_ok (Random_Next s) \<and> seed_ok (Random x)"
  using Random_Next_unat [OF assms] seed_step_nonzero [OF assms] Random_ok by (simp add: seed_ok_def)

theorem random_next_lehmer_witness: "unat (Random_Next (Random 301)) = 5058907"
proof -
  have "Random 301 = 301" by (simp add: Random_def Let_def)
  then show ?thesis using random_next_lehmer [of 301] by (simp add: seed_ok_def)
qed

end
