(* ===== verification/Lvl_SkipList.thy ===== *)
theory Lvl_SkipList
  imports Lvl_Random Kv_Order
begin

text \<open>
  The skip list of LevelDB's memtable,
  \<^verbatim>\<open>src/3rd-party/leveldb/leveldb-1.18/db/skiplist.h\<close>, with its nodes and links as
  they are in memory.  A node is a number, \<open>0\<close> is \<^verbatim>\<open>NULL\<close> and
  \<open>1\<close> is \<^verbatim>\<open>head_\<close>; \<open>sl_next s n l\<close> is the link of
  node \<open>n\<close> at level \<open>l\<close>.  The three search loops follow links until a
  condition holds, so they are partial functions, and that they return is a theorem.  The skip list
  refines the ordered list \<open>oset_insert\<close>.
\<close>

section \<open>The data structure\<close>

definition kMaxHeight :: nat where "kMaxHeight = 12"

record 'k skiplist =
  sl_key :: "nat \<Rightarrow> 'k"
  sl_next :: "nat \<Rightarrow> nat \<Rightarrow> nat"
  sl_max_height :: nat
  sl_alloc :: nat
  sl_rnd :: u32

definition SkipList_new :: "'k \<Rightarrow> 'k skiplist" where
  "SkipList_new k0 =
     \<lparr>sl_key = (\<lambda>n. k0), sl_next = (\<lambda>n l. 0), sl_max_height = 1, sl_alloc = 2, sl_rnd = Random 0xdeadbeef\<rparr>"

function RandomHeight :: "nat \<Rightarrow> u32 \<Rightarrow> nat \<times> u32" where
  "RandomHeight height rnd =
     (if height < kMaxHeight
      then let rnd' = Random_Next rnd
           in if rnd' mod 4 = 0 then RandomHeight (height + 1) rnd' else (height, rnd')
      else (height, rnd))"
  by pat_completeness auto
termination by (relation "measure (\<lambda>(h, r). kMaxHeight - h)") auto

declare RandomHeight.simps [simp del]

definition KeyIsAfterNode :: "('k \<Rightarrow> 'k \<Rightarrow> int) \<Rightarrow> 'k skiplist \<Rightarrow> 'k \<Rightarrow> nat \<Rightarrow> bool" where
  "KeyIsAfterNode cmp s key n \<longleftrightarrow> n \<noteq> 0 \<and> cmp (sl_key s n) key < 0"

text \<open>\<open>prev\<close> collects the last node before the key at each level.\<close>

partial_function (option) FindGE_loop ::
  "('k \<Rightarrow> 'k \<Rightarrow> int) \<Rightarrow> 'k skiplist \<Rightarrow> 'k \<Rightarrow> nat \<Rightarrow> nat \<Rightarrow> (nat \<Rightarrow> nat) \<Rightarrow> (nat \<times> (nat \<Rightarrow> nat)) option" where
  "FindGE_loop cmp s key x level prev =
     (let nxt = sl_next s x level
      in if KeyIsAfterNode cmp s key nxt then FindGE_loop cmp s key nxt level prev
         else if level = 0 then Some (nxt, prev(level := x))
         else FindGE_loop cmp s key x (level - 1) (prev(level := x)))"

definition FindGreaterOrEqual :: "('k \<Rightarrow> 'k \<Rightarrow> int) \<Rightarrow> 'k skiplist \<Rightarrow> 'k \<Rightarrow> (nat \<times> (nat \<Rightarrow> nat)) option" where
  "FindGreaterOrEqual cmp s key = FindGE_loop cmp s key 1 (sl_max_height s - 1) (\<lambda>_. 0)"

partial_function (option) FindLT_loop ::
  "('k \<Rightarrow> 'k \<Rightarrow> int) \<Rightarrow> 'k skiplist \<Rightarrow> 'k \<Rightarrow> nat \<Rightarrow> nat \<Rightarrow> nat option" where
  "FindLT_loop cmp s key x level =
     (let nxt = sl_next s x level
      in if nxt = 0 \<or> cmp (sl_key s nxt) key \<ge> 0
         then if level = 0 then Some x else FindLT_loop cmp s key x (level - 1)
         else FindLT_loop cmp s key nxt level)"

definition FindLessThan :: "('k \<Rightarrow> 'k \<Rightarrow> int) \<Rightarrow> 'k skiplist \<Rightarrow> 'k \<Rightarrow> nat option" where
  "FindLessThan cmp s key = FindLT_loop cmp s key 1 (sl_max_height s - 1)"

partial_function (option) FindLast_loop :: "'k skiplist \<Rightarrow> nat \<Rightarrow> nat \<Rightarrow> nat option" where
  "FindLast_loop s x level =
     (let nxt = sl_next s x level
      in if nxt = 0
         then if level = 0 then Some x else FindLast_loop s x (level - 1)
         else FindLast_loop s nxt level)"

definition FindLast :: "'k skiplist \<Rightarrow> nat option" where
  "FindLast s = FindLast_loop s 1 (sl_max_height s - 1)"

text \<open>The loop of \<^verbatim>\<open>Insert\<close> that links the new node \<open>x\<close> into
  the levels \<open>i, ..., height - 1\<close>.\<close>

fun link_levels :: "nat \<Rightarrow> (nat \<Rightarrow> nat) \<Rightarrow> nat list \<Rightarrow> (nat \<Rightarrow> nat \<Rightarrow> nat) \<Rightarrow> nat \<Rightarrow> nat \<Rightarrow> nat" where
  "link_levels x prev [] nx = nx"
| "link_levels x prev (i # is) nx =
     (let nx1 = nx(x := (nx x)(i := nx (prev i) i));
          nx2 = nx1(prev i := (nx1 (prev i))(i := x))
      in link_levels x prev is nx2)"

definition SkipList_Insert :: "('k \<Rightarrow> 'k \<Rightarrow> int) \<Rightarrow> 'k skiplist \<Rightarrow> 'k \<Rightarrow> 'k skiplist option" where
  "SkipList_Insert cmp s key =
     (case FindGreaterOrEqual cmp s key of
        None \<Rightarrow> None
      | Some (_, prev) \<Rightarrow>
          (case RandomHeight 1 (sl_rnd s) of
             (height, rnd) \<Rightarrow>
               let prev' = (\<lambda>i. if sl_max_height s \<le> i \<and> i < height then 1 else prev i);
                   max' = (if height > sl_max_height s then height else sl_max_height s);
                   x = sl_alloc s
               in Some (s\<lparr>sl_key := (sl_key s)(x := key), sl_next := link_levels x prev' [0..<height] (sl_next s),
                          sl_max_height := max', sl_alloc := x + 1, sl_rnd := rnd\<rparr>)))"

definition SkipList_Contains :: "('k \<Rightarrow> 'k \<Rightarrow> int) \<Rightarrow> 'k skiplist \<Rightarrow> 'k \<Rightarrow> bool option" where
  "SkipList_Contains cmp s key =
     map_option (\<lambda>(x, _). x \<noteq> 0 \<and> cmp key (sl_key s x) = 0) (FindGreaterOrEqual cmp s key)"

text \<open>The iterator is the node it stands on, \<open>0\<close> when it is not valid.\<close>

definition iter_Valid :: "nat \<Rightarrow> bool" where "iter_Valid n \<longleftrightarrow> n \<noteq> 0"
definition iter_key :: "'k skiplist \<Rightarrow> nat \<Rightarrow> 'k" where "iter_key s n = sl_key s n"
definition iter_Next :: "'k skiplist \<Rightarrow> nat \<Rightarrow> nat" where "iter_Next s n = sl_next s n 0"

definition iter_Prev :: "('k \<Rightarrow> 'k \<Rightarrow> int) \<Rightarrow> 'k skiplist \<Rightarrow> nat \<Rightarrow> nat option" where
  "iter_Prev cmp s n = map_option (\<lambda>x. if x = 1 then 0 else x) (FindLessThan cmp s (sl_key s n))"

definition iter_Seek :: "('k \<Rightarrow> 'k \<Rightarrow> int) \<Rightarrow> 'k skiplist \<Rightarrow> 'k \<Rightarrow> nat option" where
  "iter_Seek cmp s target = map_option fst (FindGreaterOrEqual cmp s target)"

definition iter_SeekToFirst :: "'k skiplist \<Rightarrow> nat" where "iter_SeekToFirst s = sl_next s 1 0"

definition iter_SeekToLast :: "'k skiplist \<Rightarrow> nat option" where
  "iter_SeekToLast s = map_option (\<lambda>x. if x = 1 then 0 else x) (FindLast s)"

section \<open>Linked lists\<close>

fun path :: "(nat \<Rightarrow> nat \<Rightarrow> nat) \<Rightarrow> nat \<Rightarrow> nat \<Rightarrow> nat list \<Rightarrow> bool" where
  "path nx l x [] \<longleftrightarrow> nx x l = 0"
| "path nx l x (y # ys) \<longleftrightarrow> nx x l = y \<and> y \<noteq> 0 \<and> path nx l y ys"

lemma path_suffix: "path nx l x (as @ ys) \<Longrightarrow> path nx l (last (x # as)) ys"
  by (induction as arbitrary: x) auto

lemma path_cong: "(\<And>y. y \<in> set (x # xs) \<Longrightarrow> nx' y l = nx y l) \<Longrightarrow> path nx' l x xs = path nx l x xs"
  by (induction xs arbitrary: x) auto

text \<open>A node is linked in after the last node of \<open>A\<close>.\<close>

lemma path_insert:
  assumes "path nx l x (A @ B)" and "distinct (x # A @ B)" and "n \<notin> set (x # A @ B)" and "n \<noteq> 0"
    and "nx' n l = nx (last (x # A)) l" and "nx' (last (x # A)) l = n"
    and "\<And>y. y \<noteq> n \<Longrightarrow> y \<noteq> last (x # A) \<Longrightarrow> nx' y l = nx y l"
  shows "path nx' l x (A @ n # B)"
  using assms
proof (induction A arbitrary: x)
  case Nil
  then have B: "path nx l x B" "x \<notin> set B" "n \<notin> set B" "nx' n l = nx x l" "nx' x l = n" by auto
  have "path nx' l n B"
  proof (cases B)
    case (Cons b bs)
    have "nx' y l = nx y l" if "y \<in> set (b # bs)" for y
      using that B(2,3) Cons Nil.prems(7) [of y] by auto
    then have "path nx' l b bs = path nx l b bs" by (rule path_cong)
    then show ?thesis using B Cons by simp
  qed (use B in simp)
  then show ?case using B Nil.prems(4) by simp
next
  case (Cons a A)
  have "last (x # a # A) = last (a # A)" by simp
  moreover have "x \<noteq> last (a # A)" using Cons.prems(2) last_in_set [of "a # A"] by auto
  ultimately show ?case using Cons.prems Cons.IH [of a] by auto
qed

lemma link_levels_eq:
  assumes "\<And>i. i \<in> set is \<Longrightarrow> prev i \<noteq> x" and "distinct is"
  shows "link_levels x prev is nx y l =
    (if l \<in> set is then if y = x then nx (prev l) l else if y = prev l then x else nx y l else nx y l)"
  using assms by (induction "is" arbitrary: nx) (auto simp: Let_def)

section \<open>Heights\<close>

lemma RandomHeight_bounds: "height \<le> kMaxHeight \<Longrightarrow> height \<le> fst (RandomHeight height rnd) \<and> fst (RandomHeight height rnd) \<le> kMaxHeight"
proof (induction height rnd rule: RandomHeight.induct)
  case (1 height rnd)
  then show ?case
    by (subst (1 2) RandomHeight.simps) (fastforce simp: Let_def simp del: mod_eq_0_iff_dvd dest: Suc_leD)
qed

section \<open>The invariant\<close>

text \<open>
  \<open>ns\<close> are the nodes in key order and \<open>ht\<close> their heights: level
  \<open>l\<close> links the nodes higher than \<open>l\<close>, from the head on.
\<close>

definition sl_inv :: "('k \<Rightarrow> 'k \<Rightarrow> int) \<Rightarrow> ('k \<Rightarrow> bool) \<Rightarrow> 'k skiplist \<Rightarrow> nat list \<Rightarrow> (nat \<Rightarrow> nat) \<Rightarrow> bool" where
  "sl_inv cmp ok s ns ht \<longleftrightarrow>
     oset_sorted cmp (map (sl_key s) ns) \<and> 2 \<le> sl_alloc s \<and>
     (\<forall>n \<in> set ns. ok (sl_key s n) \<and> 2 \<le> n \<and> n < sl_alloc s \<and> 1 \<le> ht n \<and> ht n \<le> sl_max_height s) \<and>
     1 \<le> sl_max_height s \<and> sl_max_height s \<le> kMaxHeight \<and>
     (\<forall>l<kMaxHeight. path (sl_next s) l 1 (filter (\<lambda>n. l < ht n) ns))"

definition sl_rep :: "('k \<Rightarrow> 'k \<Rightarrow> int) \<Rightarrow> ('k \<Rightarrow> bool) \<Rightarrow> 'k skiplist \<Rightarrow> 'k list \<Rightarrow> bool" where
  "sl_rep cmp ok s ks \<longleftrightarrow> (\<exists>ns ht. sl_inv cmp ok s ns ht \<and> ks = map (sl_key s) ns)"

text \<open>A search that looks for the first node without \<open>P\<close> and is at node
  \<open>x\<close> in level \<open>l\<close>.\<close>

definition at_node :: "(nat \<Rightarrow> bool) \<Rightarrow> nat list \<Rightarrow> (nat \<Rightarrow> nat) \<Rightarrow> nat \<Rightarrow> nat \<Rightarrow> bool" where
  "at_node P ns ht x l \<longleftrightarrow> x = 1 \<or> x \<in> set ns \<and> l < ht x \<and> P x"

definition first_node :: "nat list \<Rightarrow> nat" where
  "first_node ns = (case ns of [] \<Rightarrow> 0 | n # _ \<Rightarrow> n)"

lemma at_node_split:
  assumes "sorted_wrt (\<lambda>a b. P b \<longrightarrow> P a) ns" and "at_node P ns ht x l"
  obtains as ys where "filter (\<lambda>n. l < ht n) ns = as @ ys" and "\<forall>a \<in> set as. P a" and "x = last (1 # as)"
proof (cases "x = 1")
  case True
  then show ?thesis using that [of "[]"] by simp
next
  case False
  then have x: "x \<in> set (filter (\<lambda>n. l < ht n) ns)" "P x" using assms(2) by (auto simp: at_node_def)
  then obtain as ys where s: "filter (\<lambda>n. l < ht n) ns = as @ x # ys" by (meson split_list)
  have "sorted_wrt (\<lambda>a b. P b \<longrightarrow> P a) (as @ x # ys)"
    using sorted_wrt_filter [OF assms(1), of "\<lambda>n. l < ht n"] s by simp
  then have "\<forall>a \<in> set as. P a" using x(2) by (auto simp: sorted_wrt_append)
  then show ?thesis using that [of "as @ [x]" ys] s x(2) by simp
qed

lemma at_node_last: "at_node P ns ht (last (1 # takeWhile P (filter (\<lambda>n. l < ht n) ns))) l"
proof -
  define t where "t = takeWhile P (filter (\<lambda>n. l < ht n) ns)"
  have "last t \<in> set ns \<and> l < ht (last t) \<and> P (last t)" if "t \<noteq> []"
    using set_takeWhileD [of "last t" P "filter (\<lambda>n. l < ht n) ns"] last_in_set [OF that] by (auto simp: t_def)
  then show ?thesis by (auto simp: at_node_def t_def [symmetric])
qed

lemma at_node_down: "at_node P ns ht x l \<Longrightarrow> m \<le> l \<Longrightarrow> at_node P ns ht x m"
  by (auto simp: at_node_def)

lemma at_node_position:
  assumes "sorted_wrt (\<lambda>a b. P b \<longrightarrow> P a) ns" and "at_node P ns ht x l"
    and "path nx l 1 (filter (\<lambda>n. l < ht n) ns)"
  obtains ys where "path nx l x ys"
    and "last (x # takeWhile P ys) = last (1 # takeWhile P (filter (\<lambda>n. l < ht n) ns))"
    and "dropWhile P ys = dropWhile P (filter (\<lambda>n. l < ht n) ns)"
    and "set ys \<subseteq> set (filter (\<lambda>n. l < ht n) ns)"
proof -
  obtain as ys where s: "filter (\<lambda>n. l < ht n) ns = as @ ys" "\<forall>a \<in> set as. P a" "x = last (1 # as)"
    using at_node_split [OF assms(1,2)] .
  have "path nx l x ys" using path_suffix [of nx l 1 as ys] assms(3) s by simp
  moreover have "takeWhile P (as @ ys) = as @ takeWhile P ys" "dropWhile P (as @ ys) = dropWhile P ys"
    using s(2) by (simp_all add: takeWhile_append2 dropWhile_append2)
  ultimately show ?thesis using that [of ys] s by (auto simp: last_append)
qed

lemma takeWhile_True [simp]: "takeWhile (\<lambda>_. True) xs = xs"
  by (induction xs) auto

lemma while_none: "\<forall>x \<in> set xs. \<not> P x \<Longrightarrow> takeWhile P xs = [] \<and> dropWhile P xs = xs"
  by (cases xs) auto

lemma filter_while_closed:
  "sorted_wrt (\<lambda>a b. P b \<longrightarrow> P a) ns \<Longrightarrow>
    filter Q (takeWhile P ns) = takeWhile P (filter Q ns) \<and> filter Q (dropWhile P ns) = dropWhile P (filter Q ns)"
proof (induction ns)
  case (Cons a ns)
  then show ?case using while_none [of "filter Q ns" P] by (cases "P a") auto
qed simp

section \<open>The searches return\<close>

lemma FindGE_level:
  assumes "path (sl_next s) l x ys"
  shows "FindGE_loop cmp s key x l prev =
    (let P = (\<lambda>n. cmp (sl_key s n) key < 0); x' = last (x # takeWhile P ys)
     in if l = 0 then Some (first_node (dropWhile P ys), prev(l := x'))
        else FindGE_loop cmp s key x' (l - 1) (prev(l := x')))"
  using assms
proof (induction ys arbitrary: x)
  case Nil
  then show ?case by (subst FindGE_loop.simps) (auto simp: KeyIsAfterNode_def first_node_def)
next
  case (Cons y ys)
  show ?case
  proof (cases "cmp (sl_key s y) key < 0")
    case True
    then have "FindGE_loop cmp s key x l prev = FindGE_loop cmp s key y l prev"
      using Cons.prems by (subst FindGE_loop.simps) (simp add: KeyIsAfterNode_def Let_def)
    then show ?thesis using Cons.IH [of y] Cons.prems True by (simp add: Let_def)
  next
    case False
    then show ?thesis using Cons.prems by (subst FindGE_loop.simps) (simp add: KeyIsAfterNode_def first_node_def Let_def)
  qed
qed

lemma FindLT_level:
  assumes "path (sl_next s) l x ys"
  shows "FindLT_loop cmp s key x l =
    (let x' = last (x # takeWhile (\<lambda>n. cmp (sl_key s n) key < 0) ys)
     in if l = 0 then Some x' else FindLT_loop cmp s key x' (l - 1))"
  using assms
proof (induction ys arbitrary: x)
  case Nil
  then show ?case by (subst FindLT_loop.simps) auto
next
  case (Cons y ys)
  show ?case
  proof (cases "cmp (sl_key s y) key < 0")
    case True
    then have "FindLT_loop cmp s key x l = FindLT_loop cmp s key y l"
      using Cons.prems by (subst FindLT_loop.simps) (simp add: Let_def)
    then show ?thesis using Cons.IH [of y] Cons.prems True by (simp add: Let_def)
  next
    case False
    then show ?thesis using Cons.prems by (subst FindLT_loop.simps) (simp add: Let_def)
  qed
qed

lemma FindLast_level:
  assumes "path (sl_next s) l x ys"
  shows "FindLast_loop s x l = (if l = 0 then Some (last (x # ys)) else FindLast_loop s (last (x # ys)) (l - 1))"
  using assms
proof (induction ys arbitrary: x)
  case Nil
  then show ?case by (subst FindLast_loop.simps) auto
next
  case (Cons y ys)
  then have "FindLast_loop s x l = FindLast_loop s y l" by (subst FindLast_loop.simps) (simp add: Let_def)
  then show ?case using Cons by simp
qed

lemma FindGE_loop_returns:
  fixes cmp :: "'k \<Rightarrow> 'k \<Rightarrow> int" and s :: "'k skiplist" and key :: 'k
  defines "P \<equiv> \<lambda>n. cmp (sl_key s n) key < 0"
  assumes P: "sorted_wrt (\<lambda>a b. P b \<longrightarrow> P a) ns"
    and "\<forall>m\<le>l. path (sl_next s) m 1 (filter (\<lambda>n. m < ht n) ns)" and "at_node P ns ht x l"
  shows "FindGE_loop cmp s key x l prev =
    Some (first_node (dropWhile P (filter (\<lambda>n. 0 < ht n) ns)),
      \<lambda>i. if i \<le> l then last (1 # takeWhile P (filter (\<lambda>n. i < ht n) ns)) else prev i)"
  using assms(3,4)
proof (induction l arbitrary: x prev)
  case 0
  obtain ys where ys: "path (sl_next s) 0 x ys"
    "last (x # takeWhile P ys) = last (1 # takeWhile P (filter (\<lambda>n. 0 < ht n) ns))"
    "dropWhile P ys = dropWhile P (filter (\<lambda>n. 0 < ht n) ns)"
    using at_node_position [OF P 0(2), of "sl_next s"] 0(1) by blast
  show ?case
    using FindGE_level [OF ys(1), of cmp key prev, folded P_def] ys(2,3) by (auto simp: Let_def fun_eq_iff)
next
  case (Suc l)
  obtain ys where ys: "path (sl_next s) (Suc l) x ys"
    "last (x # takeWhile P ys) = last (1 # takeWhile P (filter (\<lambda>n. Suc l < ht n) ns))"
    using at_node_position [OF P Suc.prems(2), of "sl_next s"] Suc.prems(1) by blast
  have "at_node P ns ht (last (x # takeWhile P ys)) l"
    unfolding ys(2) by (rule at_node_down [OF at_node_last]) simp
  note IH = Suc.IH [OF _ this]
  show ?case
    using FindGE_level [OF ys(1), of cmp key prev, folded P_def] IH Suc.prems(1) ys(2)
    by (auto simp: Let_def fun_eq_iff le_Suc_eq)
qed

lemma FindLT_loop_returns:
  fixes cmp :: "'k \<Rightarrow> 'k \<Rightarrow> int" and s :: "'k skiplist" and key :: 'k
  defines "P \<equiv> \<lambda>n. cmp (sl_key s n) key < 0"
  assumes P: "sorted_wrt (\<lambda>a b. P b \<longrightarrow> P a) ns"
    and "\<forall>m\<le>l. path (sl_next s) m 1 (filter (\<lambda>n. m < ht n) ns)" and "at_node P ns ht x l"
  shows "FindLT_loop cmp s key x l = Some (last (1 # takeWhile P (filter (\<lambda>n. 0 < ht n) ns)))"
  using assms(3,4)
proof (induction l arbitrary: x)
  case 0
  obtain ys where ys: "path (sl_next s) 0 x ys"
    "last (x # takeWhile P ys) = last (1 # takeWhile P (filter (\<lambda>n. 0 < ht n) ns))"
    using at_node_position [OF P 0(2), of "sl_next s"] 0(1) by blast
  show ?case using FindLT_level [OF ys(1), of cmp key, folded P_def] ys(2) by (simp add: Let_def)
next
  case (Suc l)
  obtain ys where ys: "path (sl_next s) (Suc l) x ys"
    "last (x # takeWhile P ys) = last (1 # takeWhile P (filter (\<lambda>n. Suc l < ht n) ns))"
    using at_node_position [OF P Suc.prems(2), of "sl_next s"] Suc.prems(1) by blast
  have "at_node P ns ht (last (x # takeWhile P ys)) l"
    unfolding ys(2) by (rule at_node_down [OF at_node_last]) simp
  note IH = Suc.IH [OF _ this]
  show ?case using FindLT_level [OF ys(1), of cmp key, folded P_def] IH Suc.prems(1) by (simp add: Let_def)
qed

lemma FindLast_loop_returns:
  assumes "\<forall>m\<le>l. path (sl_next s) m 1 (filter (\<lambda>n. m < ht n) ns)" and "at_node (\<lambda>_. True) ns ht x l"
  shows "FindLast_loop s x l = Some (last (1 # filter (\<lambda>n. 0 < ht n) ns))"
  using assms
proof (induction l arbitrary: x)
  case 0
  obtain ys where ys: "path (sl_next s) 0 x ys"
    "last (x # takeWhile (\<lambda>_. True) ys) = last (1 # takeWhile (\<lambda>_. True) (filter (\<lambda>n. 0 < ht n) ns))"
    using at_node_position [OF _ 0(2), of "sl_next s"] 0(1) by (simp add: sorted_wrt_true) blast
  show ?case using FindLast_level [OF ys(1)] ys(2) by simp
next
  case (Suc l)
  obtain ys where ys: "path (sl_next s) (Suc l) x ys"
    "last (x # takeWhile (\<lambda>_. True) ys) = last (1 # takeWhile (\<lambda>_. True) (filter (\<lambda>n. Suc l < ht n) ns))"
    using at_node_position [OF _ Suc.prems(2), of "sl_next s"] Suc.prems(1) by (simp add: sorted_wrt_true) blast
  have "at_node (\<lambda>_. True) ns ht (last (x # takeWhile (\<lambda>_. True) ys)) l"
    unfolding ys(2) by (rule at_node_down [OF at_node_last]) simp
  note IH = Suc.IH [OF _ this]
  show ?case using FindLast_level [OF ys(1)] IH Suc.prems(1) by simp
qed

section \<open>The refinement\<close>

context weak_order
begin

lemma oset_insert_split:
  assumes "\<forall>y \<in> set ks. ok y" and "ok k" and "oset_sorted cmp ks" and "\<forall>y \<in> set ks. cmp y k \<noteq> 0"
  shows "oset_insert cmp k ks = takeWhile (\<lambda>y. cmp y k < 0) ks @ k # dropWhile (\<lambda>y. cmp y k < 0) ks"
  using assms
proof (induction ks)
  case (Cons y ks)
  then have "cmp k y < 0 \<longleftrightarrow> \<not> cmp y k < 0" "cmp k y \<noteq> 0" using cmp_swap_signs [of y k] by auto
  then show ?case using Cons by auto
qed simp

lemma sl_sorted: "sl_inv cmp ok s ns ht \<Longrightarrow> sorted_wrt (\<lambda>a b. cmp (sl_key s a) (sl_key s b) < 0) ns"
  by (simp add: sl_inv_def oset_sorted_def sorted_wrt_map)

lemma sl_closed:
  assumes "sl_inv cmp ok s ns ht" and "ok key"
  shows "sorted_wrt (\<lambda>a b. cmp (sl_key s b) key < 0 \<longrightarrow> cmp (sl_key s a) key < 0) ns"
proof -
  show ?thesis
  proof (rule sorted_wrt_mono_rel [OF _ sl_sorted [OF assms(1)]])
    fix a b assume "a \<in> set ns" "b \<in> set ns" "cmp (sl_key s a) (sl_key s b) < 0"
    then show "cmp (sl_key s b) key < 0 \<longrightarrow> cmp (sl_key s a) key < 0"
      using cmp_less_trans [of "sl_key s a" "sl_key s b" key] assms by (simp add: sl_inv_def)
  qed
qed

lemma sl_level0: "sl_inv cmp ok s ns ht \<Longrightarrow> filter (\<lambda>n. 0 < ht n) ns = ns"
  by (auto simp: sl_inv_def filter_id_conv dest: spec)

lemma sl_distinct: "sl_inv cmp ok s ns ht \<Longrightarrow> distinct ns"
proof -
  assume i: "sl_inv cmp ok s ns ht"
  then have "sorted_wrt (\<noteq>) ns"
    by (intro sorted_wrt_mono_rel [OF _ sl_sorted [OF i]]) (use i cmp_self in \<open>fastforce simp: sl_inv_def\<close>)
  then show ?thesis by (induction ns) auto
qed

lemma find_ge:
  assumes "sl_inv cmp ok s ns ht" and "ok key"
  shows "FindGreaterOrEqual cmp s key =
    Some (first_node (dropWhile (\<lambda>n. cmp (sl_key s n) key < 0) ns),
      \<lambda>i. if i < sl_max_height s then last (1 # takeWhile (\<lambda>n. cmp (sl_key s n) key < 0) (filter (\<lambda>n. i < ht n) ns)) else 0)"
proof -
  have "\<forall>m\<le>(sl_max_height s - 1). path (sl_next s) m 1 (filter (\<lambda>n. m < ht n) ns)" "1 \<le> sl_max_height s"
    using assms(1) by (auto simp: sl_inv_def)
  then show ?thesis
    using FindGE_loop_returns [where cmp = cmp and s = s and key = key, OF sl_closed [OF assms], of "sl_max_height s - 1" ht 1 "\<lambda>_. 0"] sl_level0 [OF assms(1)]
    by (auto simp: FindGreaterOrEqual_def at_node_def fun_eq_iff)
qed

lemma find_lt:
  assumes "sl_inv cmp ok s ns ht" and "ok key"
  shows "FindLessThan cmp s key = Some (last (1 # takeWhile (\<lambda>n. cmp (sl_key s n) key < 0) ns))"
proof -
  have "\<forall>m\<le>(sl_max_height s - 1). path (sl_next s) m 1 (filter (\<lambda>n. m < ht n) ns)"
    using assms(1) by (auto simp: sl_inv_def)
  then show ?thesis
    using FindLT_loop_returns [where cmp = cmp and s = s and key = key, OF sl_closed [OF assms], of "sl_max_height s - 1" ht 1] sl_level0 [OF assms(1)]
    by (simp add: FindLessThan_def at_node_def)
qed

lemma find_last:
  assumes "sl_inv cmp ok s ns ht"
  shows "FindLast s = Some (last (1 # ns))"
proof -
  have "\<forall>m\<le>(sl_max_height s - 1). path (sl_next s) m 1 (filter (\<lambda>n. m < ht n) ns)"
    using assms(1) by (auto simp: sl_inv_def)
  then show ?thesis
    using FindLast_loop_returns [of "sl_max_height s - 1" s ht ns 1] sl_level0 [OF assms]
    by (simp add: FindLast_def at_node_def)
qed

text \<open>The list while node \<open>n\<close> is linked into the levels below \<open>j\<close>:
  each state of the loop is a skip list, of the old nodes before the first store into a list and of
  the new ones after it.\<close>

lemma linking_inv:
  fixes s :: "'a skiplist" and key :: 'a
  defines "n \<equiv> sl_alloc s" and "P \<equiv> \<lambda>n. cmp (sl_key s n) key < 0"
  assumes i: "sl_inv cmp ok s ns ht" and k: "ok key" and ne: "\<forall>m \<in> set ns. cmp (sl_key s m) key \<noteq> 0"
    and j: "j \<le> h" and h: "h \<le> kMaxHeight" and s0: "sl_key s0 = (sl_key s)(n := key)" "sl_alloc s0 = n + 1"
      "sl_max_height s0 = max h (sl_max_height s)"
    and prev: "\<forall>i<h. prev i = last (1 # takeWhile P (filter (\<lambda>n. i < ht n) ns))"
    and nx: "\<forall>y l. sl_next s0 y l = (if l < j then if y = n then sl_next s (prev l) l else if y = prev l then n
        else sl_next s y l else if y = n then z l else sl_next s y l)"
  shows "sl_inv cmp ok s0 (if j = 0 then ns else takeWhile P ns @ n # dropWhile P ns) (ht(n := j))"
proof -
  define ns' where "ns' = takeWhile P ns @ n # dropWhile P ns"
  have old: "m \<noteq> n" "m \<noteq> 1" "m \<noteq> 0" "ok (sl_key s m)" if "m \<in> set ns" for m
    using i that by (auto simp: sl_inv_def n_def)
  have n2: "n \<noteq> 0" "n \<noteq> 1" "2 \<le> n" using i by (auto simp: sl_inv_def n_def)
  have keys: "map (sl_key s0) ns = map (sl_key s) ns" using old by (auto simp: s0)
  have keys': "map (sl_key s0) ns' = oset_insert cmp key (map (sl_key s) ns)"
  proof -
    have "map (sl_key s0) (takeWhile P ns) = takeWhile (\<lambda>y. cmp y key < 0) (map (sl_key s) ns)"
      using old set_takeWhileD [of _ P ns] by (auto simp: s0 takeWhile_map P_def comp_def)
    moreover have "map (sl_key s0) (dropWhile P ns) = dropWhile (\<lambda>y. cmp y key < 0) (map (sl_key s) ns)"
      using old set_dropWhileD [of _ P ns] by (auto simp: s0 dropWhile_map P_def comp_def)
    ultimately show ?thesis using oset_insert_split [of "map (sl_key s) ns" key] i k ne
      by (auto simp: ns'_def s0 sl_inv_def)
  qed
  have set': "set ns' = insert n (set ns)"
    by (simp add: ns'_def) (metis set_append takeWhile_dropWhile_id)
  have sorted': "oset_sorted cmp (map (sl_key s0) ns')"
    using keys' oset_insert_sorted [of "map (sl_key s) ns" key] i k by (auto simp: sl_inv_def)
  have path: "path (sl_next s0) l 1 (filter (\<lambda>m. l < (ht(n := j)) m) (if j = 0 then ns else ns'))" if l: "l < kMaxHeight" for l
  proof (cases "l < j")
    case True
    define A where "A = takeWhile P (filter (\<lambda>m. l < ht m) ns)"
    define B where "B = dropWhile P (filter (\<lambda>m. l < ht m) ns)"
    have AB: "A @ B = filter (\<lambda>m. l < ht m) ns" by (simp add: A_def B_def)
    have tw: "filter (\<lambda>m. l < ht m) (takeWhile P ns) = A" "filter (\<lambda>m. l < ht m) (dropWhile P ns) = B"
      using filter_while_closed [of P ns "\<lambda>m. l < ht m"] sl_closed [OF i k] unfolding A_def B_def P_def by simp_all
    have f: "filter (\<lambda>m. l < (ht(n := j)) m) ns' = A @ n # B"
    proof -
      have "filter (\<lambda>m. l < (ht(n := j)) m) (takeWhile P ns) = A"
        "filter (\<lambda>m. l < (ht(n := j)) m) (dropWhile P ns) = B"
        unfolding tw [symmetric] by (rule filter_cong; use old in \<open>auto dest: set_takeWhileD set_dropWhileD\<close>)+
      then show ?thesis using True by (simp only: ns'_def filter_append filter.simps fun_upd_same if_True)
    qed
    have "path (sl_next s0) l 1 (A @ n # B)"
    proof (rule path_insert [where nx = "sl_next s"])
      show "path (sl_next s) l 1 (A @ B)" using i l AB by (simp add: sl_inv_def)
      show "distinct (1 # A @ B)" using AB sl_distinct [OF i] old by auto
      show nAB: "n \<notin> set (1 # A @ B)" using AB old n2 by auto
      have pl: "prev l = last (1 # A)" using prev True j by (simp add: A_def)
      moreover have "last (1 # A) \<noteq> n" using last_in_set [of "1 # A"] nAB by (metis UnCI append_Cons list.distinct(1) set_append)
      ultimately show "sl_next s0 n l = sl_next s (last (1 # A)) l" "sl_next s0 (last (1 # A)) l = n"
        using nx [rule_format, of n l] nx [rule_format, of "prev l" l] True by simp_all
      show "sl_next s0 y l = sl_next s y l" if "y \<noteq> n" "y \<noteq> last (1 # A)" for y
        using nx True that pl by simp
    qed (use n2 in simp)
    then show ?thesis using f True by simp
  next
    case False
    have "filter (\<lambda>m. l < (ht(n := j)) m) (if j = 0 then ns else ns') = filter (\<lambda>m. l < ht m) ns"
    proof -
      have "filter (\<lambda>m. l < (ht(n := j)) m) ns' = filter (\<lambda>m. l < (ht(n := j)) m) (takeWhile P ns @ dropWhile P ns)"
        using False by (simp add: ns'_def del: takeWhile_dropWhile_id)
      moreover have "filter (\<lambda>m. l < (ht(n := j)) m) ns = filter (\<lambda>m. l < ht m) ns"
        using old by (intro filter_cong) auto
      ultimately show ?thesis by simp
    qed
    moreover have "path (sl_next s0) l 1 (filter (\<lambda>m. l < ht m) ns) = path (sl_next s) l 1 (filter (\<lambda>m. l < ht m) ns)"
      using nx False old n2 by (intro path_cong) auto
    ultimately show ?thesis using i l by (simp add: sl_inv_def)
  qed
  show ?thesis
    using i k path sorted' keys j h n2 old set' unfolding ns'_def [symmetric]
    by (auto simp: sl_inv_def s0 n_def le_max_iff_disj split: if_splits)
qed

lemma linked_prev:
  assumes i: "sl_inv cmp ok s ns ht" and k: "ok key" and "FindGreaterOrEqual cmp s key = Some (x, prev)" and "m < h"
  shows "(if sl_max_height s \<le> m \<and> m < h then 1 else prev m) =
    last (1 # takeWhile (\<lambda>n. cmp (sl_key s n) key < 0) (filter (\<lambda>n. m < ht n) ns))"
proof (cases "m < sl_max_height s")
  case True
  then show ?thesis using find_ge [OF i k] assms(3) by auto
next
  case False
  then have "filter (\<lambda>n. m < ht n) ns = []" using i by (auto simp: sl_inv_def filter_empty_conv)
  then show ?thesis using False assms(4) by simp
qed

lemma prev_old:
  assumes "sl_inv cmp ok s ns ht" and "ok key"
  shows "last (1 # takeWhile (\<lambda>n. cmp (sl_key s n) key < 0) (filter (\<lambda>n. m < ht n) ns)) \<noteq> sl_alloc s"
  using at_node_last [of "\<lambda>n. cmp (sl_key s n) key < 0" ns ht m] assms(1) by (auto simp: at_node_def sl_inv_def)

lemma Insert_inv:
  assumes i: "sl_inv cmp ok s ns ht" and k: "ok key" and ne: "\<forall>m \<in> set ns. cmp (sl_key s m) key \<noteq> 0"
  obtains s' ht' where "SkipList_Insert cmp s key = Some s'"
    and "sl_inv cmp ok s' (takeWhile (\<lambda>n. cmp (sl_key s n) key < 0) ns @ sl_alloc s # dropWhile (\<lambda>n. cmp (sl_key s n) key < 0) ns) ht'"
    and "sl_key s' = (sl_key s)(sl_alloc s := key)"
proof -
  obtain x prev where f: "FindGreaterOrEqual cmp s key = Some (x, prev)" using find_ge [OF i k] by auto
  obtain h rnd where r: "RandomHeight 1 (sl_rnd s) = (h, rnd)" by (cases "RandomHeight 1 (sl_rnd s)") auto
  then have h: "1 \<le> h" "h \<le> kMaxHeight" using RandomHeight_bounds [of 1 "sl_rnd s"] by (simp_all add: kMaxHeight_def)
  define prev' where "prev' = (\<lambda>i. if sl_max_height s \<le> i \<and> i < h then 1 else prev i)"
  define s' where "s' = s\<lparr>sl_key := (sl_key s)(sl_alloc s := key), sl_next := link_levels (sl_alloc s) prev' [0..<h] (sl_next s),
    sl_max_height := (if h > sl_max_height s then h else sl_max_height s), sl_alloc := sl_alloc s + 1, sl_rnd := rnd\<rparr>"
  have ins: "SkipList_Insert cmp s key = Some s'" by (simp add: SkipList_Insert_def f r [unfolded One_nat_def] s'_def prev'_def Let_def)
  have p: "\<forall>m<h. prev' m = last (1 # takeWhile (\<lambda>n. cmp (sl_key s n) key < 0) (filter (\<lambda>n. m < ht n) ns))"
    using linked_prev [OF i k f] by (simp add: prev'_def)
  then have "\<forall>m<h. prev' m \<noteq> sl_alloc s" using prev_old [OF i k] by simp
  then have nx: "sl_next s' y l = (if l < h then if y = sl_alloc s then sl_next s (prev' l) l else if y = prev' l then sl_alloc s
        else sl_next s y l else if y = sl_alloc s then sl_next s (sl_alloc s) l else sl_next s y l)" for y l
    using link_levels_eq [of "[0..<h]" prev' "sl_alloc s" "sl_next s" y l] by (simp add: s'_def)
  have "sl_inv cmp ok s' (if h = 0 then ns else takeWhile (\<lambda>n. cmp (sl_key s n) key < 0) ns @ sl_alloc s # dropWhile (\<lambda>n. cmp (sl_key s n) key < 0) ns)
    (ht(sl_alloc s := h))"
    by (rule linking_inv [where h = h and prev = prev' and z = "sl_next s (sl_alloc s)", OF i k ne]) (use h p nx in \<open>auto simp: s'_def\<close>)
  then show ?thesis using that [OF ins] h by (simp add: s'_def)
qed

lemma Insert_rep:
  assumes "sl_rep cmp ok s ks" and k: "ok key" and ne: "\<forall>y \<in> set ks. cmp y key \<noteq> 0"
  shows "\<exists>s'. SkipList_Insert cmp s key = Some s' \<and> sl_rep cmp ok s' (oset_insert cmp key ks)"
proof -
  obtain ns ht where i: "sl_inv cmp ok s ns ht" and ks: "ks = map (sl_key s) ns" using assms(1) by (auto simp: sl_rep_def)
  define P where "P = (\<lambda>n. cmp (sl_key s n) key < 0)"
  have ne': "\<forall>m \<in> set ns. cmp (sl_key s m) key \<noteq> 0" using ne by (simp add: ks)
  obtain s' ht' where s': "SkipList_Insert cmp s key = Some s'"
    "sl_inv cmp ok s' (takeWhile P ns @ sl_alloc s # dropWhile P ns) ht'" "sl_key s' = (sl_key s)(sl_alloc s := key)"
    using Insert_inv [OF i k ne'] unfolding P_def .
  have old: "m \<noteq> sl_alloc s" if "m \<in> set ns" for m using i that by (auto simp: sl_inv_def)
  have "map (sl_key s') (takeWhile P ns) = takeWhile (\<lambda>y. cmp y key < 0) ks"
    using old set_takeWhileD [of _ P ns] by (auto simp: s'(3) ks takeWhile_map P_def comp_def)
  moreover have "map (sl_key s') (dropWhile P ns) = dropWhile (\<lambda>y. cmp y key < 0) ks"
    using old set_dropWhileD [of _ P ns] by (auto simp: s'(3) ks dropWhile_map P_def comp_def)
  ultimately have "map (sl_key s') (takeWhile P ns @ sl_alloc s # dropWhile P ns) = oset_insert cmp key ks"
    using oset_insert_split [of ks key] i k ne by (auto simp: s'(3) ks sl_inv_def)
  then show ?thesis using s' unfolding sl_rep_def by metis
qed

lemma Contains_rep:
  assumes "sl_rep cmp ok s ks" and k: "ok key"
  shows "SkipList_Contains cmp s key = Some (\<exists>y \<in> set ks. cmp key y = 0)"
proof -
  obtain ns ht where i: "sl_inv cmp ok s ns ht" and ks: "ks = map (sl_key s) ns" using assms(1) by (auto simp: sl_rep_def)
  define P where "P = (\<lambda>n. cmp (sl_key s n) key < 0)"
  have okn: "\<forall>n \<in> set ns. ok (sl_key s n) \<and> n \<noteq> 0" using i by (auto simp: sl_inv_def)
  have "(\<exists>y \<in> set ns. cmp key (sl_key s y) = 0) \<longleftrightarrow> (\<exists>y \<in> set (dropWhile P ns). cmp key (sl_key s y) = 0)" (is "?L = ?R")
  proof
    assume ?L
    then obtain y where y: "y \<in> set ns" "cmp key (sl_key s y) = 0" by blast
    then have "\<not> P y" using cmp_swap_signs [of key "sl_key s y"] okn k by (simp add: P_def)
    then have "y \<in> set (dropWhile P ns)" using y(1) by (metis takeWhile_dropWhile_id set_append UnE set_takeWhileD)
    then show ?R using y(2) by blast
  qed (auto dest: set_dropWhileD)
  moreover have "(\<exists>y \<in> set (dropWhile P ns). cmp key (sl_key s y) = 0) \<longleftrightarrow>
      first_node (dropWhile P ns) \<noteq> 0 \<and> cmp key (sl_key s (first_node (dropWhile P ns))) = 0"
  proof (cases "dropWhile P ns")
    case (Cons n rest)
    have "n \<in> set ns" using Cons set_dropWhileD [of n P ns] by simp
    moreover have "cmp key (sl_key s y) < 0" if "y \<in> set rest" for y
    proof -
      have y: "y \<in> set ns" using Cons that set_dropWhileD [of y P ns] by simp
      have "sorted_wrt (\<lambda>a b. cmp (sl_key s a) (sl_key s b) < 0) (takeWhile P ns @ n # rest)"
        using sl_sorted [OF i] unfolding Cons [symmetric] by simp
      then have "cmp (sl_key s n) (sl_key s y) < 0" using that by (simp add: sorted_wrt_append)
      moreover have "cmp key (sl_key s n) \<le> 0"
        using Cons hd_dropWhile [of P ns] cmp_swap_signs [of "sl_key s n" key] okn k \<open>n \<in> set ns\<close> by (auto simp: P_def)
      ultimately show ?thesis using cmp_le_less [of key "sl_key s n" "sl_key s y"] okn k y \<open>n \<in> set ns\<close> by blast
    qed
    ultimately show ?thesis using okn Cons by (fastforce simp: first_node_def)
  next
    case Nil
    show ?thesis unfolding Nil by (simp add: first_node_def)
  qed
  ultimately show ?thesis
    by (simp add: SkipList_Contains_def find_ge [OF i k] P_def [symmetric] ks)
qed

end

lemma sl_rep_new: "sl_rep cmp ok (SkipList_new k0) []"
  unfolding sl_rep_def
  by (rule exI [of _ "[]"]) (simp add: sl_inv_def SkipList_new_def kMaxHeight_def)

section \<open>Scans\<close>

text \<open>The two loops of a client that walks over a list with an iterator.\<close>

partial_function (option) scan_forward :: "'k skiplist \<Rightarrow> nat \<Rightarrow> 'k list option" where
  "scan_forward s n =
     (if iter_Valid n then Option.bind (scan_forward s (iter_Next s n)) (\<lambda>ks. Some (iter_key s n # ks)) else Some [])"

partial_function (option) scan_backward :: "('k \<Rightarrow> 'k \<Rightarrow> int) \<Rightarrow> 'k skiplist \<Rightarrow> nat \<Rightarrow> 'k list option" where
  "scan_backward cmp s n =
     (if iter_Valid n
      then Option.bind (iter_Prev cmp s n) (\<lambda>m. Option.bind (scan_backward cmp s m) (\<lambda>ks. Some (iter_key s n # ks)))
      else Some [])"

lemma scan_forward_path: "path (sl_next s) 0 x ys \<Longrightarrow> scan_forward s (sl_next s x 0) = Some (map (sl_key s) ys)"
  by (induction ys arbitrary: x) (subst scan_forward.simps, auto simp: iter_Valid_def iter_Next_def iter_key_def)+

lemma scan_forward_first:
  assumes "path (sl_next s) 0 1 (as @ ys)"
  shows "scan_forward s (first_node ys) = Some (map (sl_key s) ys)"
proof -
  have p: "path (sl_next s) 0 (last (1 # as)) ys" using path_suffix [OF assms] .
  then have "sl_next s (last (1 # as)) 0 = first_node ys" by (cases ys) (auto simp: first_node_def)
  then show ?thesis using scan_forward_path [OF p] by simp
qed

context weak_order
begin

lemma sl_path0: "sl_inv cmp ok s ns ht \<Longrightarrow> path (sl_next s) 0 1 ns"
  using sl_level0 [of s ns ht] by (auto simp: sl_inv_def kMaxHeight_def dest: spec [of _ 0])

lemma iter_Prev_node:
  assumes i: "sl_inv cmp ok s (as @ n # bs) ht"
  shows "iter_Prev cmp s n = Some (if as = [] then 0 else last as)"
proof -
  have ne: "last as \<noteq> 1" if "as \<noteq> []" using i last_in_set [OF that] by (auto simp: sl_inv_def dest!: bspec [of _ _ "last as"])
  have k: "ok (sl_key s n)" using i by (simp add: sl_inv_def)
  have "sorted_wrt (\<lambda>a b. cmp (sl_key s a) (sl_key s b) < 0) (as @ n # bs)"
    by (rule sl_sorted [OF i])
  then have "takeWhile (\<lambda>m. cmp (sl_key s m) (sl_key s n) < 0) (as @ n # bs) = as"
    using cmp_self [OF k] by (simp add: sorted_wrt_append takeWhile_append2)
  then show ?thesis using find_lt [OF i k] ne by (simp add: iter_Prev_def)
qed

lemma scan_backward_nodes:
  "sl_inv cmp ok s (as @ bs) ht \<Longrightarrow> scan_backward cmp s (if as = [] then 0 else last as) = Some (rev (map (sl_key s) as))"
proof (induction as arbitrary: bs rule: rev_induct)
  case Nil
  then show ?case by (subst scan_backward.simps) (simp add: iter_Valid_def)
next
  case (snoc n as)
  have "n \<noteq> 0" using snoc.prems by (auto simp: sl_inv_def)
  moreover have "iter_Prev cmp s n = Some (if as = [] then 0 else last as)" using iter_Prev_node snoc.prems by simp
  ultimately show ?case using snoc.IH [of "n # bs"] snoc.prems
    by (subst scan_backward.simps) (simp add: iter_Valid_def iter_key_def)
qed

end

section \<open>Properties\<close>

text \<open>
  C14.  The skip list refines an ordered list: it starts empty, an insertion of a key that is not in it
  returns and adds the key at its place, and \<^verbatim>\<open>Contains\<close> returns whether an
  equal key is there.  The comparator is any that meets the comparator contract.
\<close>

theorem skiplist_refines:
  assumes "weak_order cmp ok" and "sl_rep cmp ok s ks" and "ok key"
  shows "sl_rep cmp ok (SkipList_new k0) [] \<and> SkipList_Contains cmp s key = Some (\<exists>y \<in> set ks. cmp key y = 0) \<and>
    ((\<forall>y \<in> set ks. cmp y key \<noteq> 0) \<longrightarrow>
      (\<exists>s'. SkipList_Insert cmp s key = Some s' \<and> sl_rep cmp ok s' (oset_insert cmp key ks)))"
  using weak_order.Insert_rep [OF assms(1-3)] weak_order.Contains_rep [OF assms(1-3)] sl_rep_new by auto

theorem skiplist_refines_witness:
  "\<exists>s'. SkipList_Insert (num_cmp Int32) (SkipList_new []) [7, 0, 0, 0] = Some s' \<and>
    sl_rep (num_cmp Int32) (num_key Int32) s' [[7, 0, 0, 0]]"
  using skiplist_refines [OF num_order.weak_order_axioms sl_rep_new, of Int32 "[7, 0, 0, 0]" "[]"]
  by (simp add: num_key_def)

text \<open>
  C15.  Iterators walk over the whole list: a forward scan from
  \<^verbatim>\<open>SeekToFirst\<close> ends and meets every key in order, a backward scan from
  \<^verbatim>\<open>SeekToLast\<close> meets them in reverse, and one from
  \<^verbatim>\<open>Seek\<close> meets the keys that are not less than the target.
\<close>

theorem skiplist_scans:
  assumes w: "weak_order cmp ok" and r: "sl_rep cmp ok s ks" and t: "ok target"
  shows "scan_forward s (iter_SeekToFirst s) = Some ks \<and>
    Option.bind (iter_SeekToLast s) (scan_backward cmp s) = Some (rev ks) \<and>
    Option.bind (iter_Seek cmp s target) (scan_forward s) = Some (oset_lower cmp target ks)"
proof -
  obtain ns ht where i: "sl_inv cmp ok s ns ht" and ks: "ks = map (sl_key s) ns" using r by (auto simp: sl_rep_def)
  note p = weak_order.sl_path0 [OF w i]
  define P where "P = (\<lambda>n. cmp (sl_key s n) target < 0)"
  have "scan_forward s (iter_SeekToFirst s) = Some ks"
    unfolding iter_SeekToFirst_def ks by (rule scan_forward_path [OF p])
  moreover have "last ns \<noteq> 1" if "ns \<noteq> []" using i last_in_set [OF that] by (auto simp: sl_inv_def)
  then have "iter_SeekToLast s = Some (if ns = [] then 0 else last ns)"
    by (simp add: iter_SeekToLast_def weak_order.find_last [OF w i])
  then have "Option.bind (iter_SeekToLast s) (scan_backward cmp s) = Some (rev ks)"
    using weak_order.scan_backward_nodes [OF w, of s ns "[]"] i ks by simp
  moreover have "scan_forward s (first_node (dropWhile P ns)) = Some (map (sl_key s) (dropWhile P ns))"
    by (rule scan_forward_first [of s "takeWhile P ns"]) (use p in simp)
  then have "Option.bind (iter_Seek cmp s target) (scan_forward s) = Some (oset_lower cmp target ks)"
    by (simp add: iter_Seek_def weak_order.find_ge [OF w i t] P_def ks oset_lower_def dropWhile_map comp_def)
  ultimately show ?thesis by blast
qed

theorem skiplist_scans_witness:
  "\<exists>s'. SkipList_Insert (num_cmp Int32) (SkipList_new []) [7, 0, 0, 0] = Some s' \<and>
    scan_forward s' (iter_SeekToFirst s') = Some [[7, 0, 0, 0]] \<and>
    Option.bind (iter_Seek (num_cmp Int32) s' [9, 0, 0, 0]) (scan_forward s') = Some []"
proof -
  obtain s' where "SkipList_Insert (num_cmp Int32) (SkipList_new []) [7, 0, 0, 0] = Some s'"
    "sl_rep (num_cmp Int32) (num_key Int32) s' [[7, 0, 0, 0]]"
    using num_order.Insert_rep [OF sl_rep_new, of Int32 "[7, 0, 0, 0]" "[]"] by (auto simp: num_key_def)
  moreover have "num_cmp Int32 [7, 0, 0, 0] [9, 0, 0, 0] < 0" by code_simp
  ultimately show ?thesis
    using skiplist_scans [OF num_order.weak_order_axioms, of Int32 s' "[[7, 0, 0, 0]]" "[9, 0, 0, 0]"]
    by (simp add: num_key_def oset_lower_def)
qed

end
