(* ===== verification/Lvl_SkipRead.thy ===== *)
theory Lvl_SkipRead
  imports Lvl_SkipList
begin

text \<open>
  \<^verbatim>\<open>Insert\<close> has one writer; readers take no lock.  The stores of
  \<^verbatim>\<open>Insert\<close> into links are made one at a time, and a reader performs one
  iteration of the loop of \<^verbatim>\<open>FindGreaterOrEqual\<close> at a time, in any
  interleaving.
\<close>

datatype reader = Search nat nat | Found nat

fun reader_step :: "('k \<Rightarrow> 'k \<Rightarrow> int) \<Rightarrow> 'k skiplist \<Rightarrow> 'k \<Rightarrow> reader \<Rightarrow> reader" where
  "reader_step cmp s key (Search x level) =
     (let nxt = sl_next s x level
      in if KeyIsAfterNode cmp s key nxt then Search nxt level
         else if level = 0 then Found nxt
         else Search x (level - 1))"
| "reader_step cmp s key (Found n) = Found n"

fun do_store :: "nat \<times> nat \<times> nat \<Rightarrow> 'k skiplist \<Rightarrow> 'k skiplist" where
  "do_store (a, l, v) s = s\<lparr>sl_next := (sl_next s)(a := (sl_next s a)(l := v))\<rparr>"

definition insert_stores :: "nat \<Rightarrow> (nat \<Rightarrow> nat) \<Rightarrow> (nat \<Rightarrow> nat \<Rightarrow> nat) \<Rightarrow> nat list \<Rightarrow> (nat \<times> nat \<times> nat) list" where
  "insert_stores x prev nx is = concat (map (\<lambda>i. [(x, i, nx (prev i) i), (prev i, i, x)]) is)"

text \<open>\<^verbatim>\<open>Insert\<close> up to its linking loop, with the stores of the loop.\<close>

definition Insert_begin :: "('k \<Rightarrow> 'k \<Rightarrow> int) \<Rightarrow> 'k skiplist \<Rightarrow> 'k \<Rightarrow> ('k skiplist \<times> (nat \<times> nat \<times> nat) list) option" where
  "Insert_begin cmp s key =
     (case FindGreaterOrEqual cmp s key of
        None \<Rightarrow> None
      | Some (_, prev) \<Rightarrow>
          (case RandomHeight 1 (sl_rnd s) of
             (height, rnd) \<Rightarrow>
               let prev' = (\<lambda>i. if sl_max_height s \<le> i \<and> i < height then 1 else prev i);
                   max' = (if height > sl_max_height s then height else sl_max_height s);
                   x = sl_alloc s
               in Some (s\<lparr>sl_key := (sl_key s)(x := key), sl_max_height := max', sl_alloc := x + 1, sl_rnd := rnd\<rparr>,
                        insert_stores x prev' (sl_next s) [0..<height])))"

inductive interleave :: "('k \<Rightarrow> 'k \<Rightarrow> int) \<Rightarrow> 'k \<Rightarrow> 'k skiplist \<times> (nat \<times> nat \<times> nat) list \<times> reader \<Rightarrow>
    'k skiplist \<times> (nat \<times> nat \<times> nat) list \<times> reader \<Rightarrow> bool"
  for cmp :: "'k \<Rightarrow> 'k \<Rightarrow> int" and key :: 'k where
  writes: "interleave cmp key (s, w # ws, r) (do_store w s, ws, r)"
| reads: "interleave cmp key (s, ws, Search x l) (s, ws, reader_step cmp s key (Search x l))"

inductive_cases interleaveE: "interleave cmp key (s, ws, r) c"

lemma insert_stores_simps [simp]:
  "insert_stores x prev nx [] = []"
  "insert_stores x prev nx (i # is) = (x, i, nx (prev i) i) # (prev i, i, x) # insert_stores x prev nx is"
  by (simp_all add: insert_stores_def)

lemma stores_link:
  assumes "distinct is" and "\<forall>i \<in> set is. sl_next s (prev i) i = nx (prev i) i"
  shows "fold do_store (insert_stores x prev nx is) s = s\<lparr>sl_next := link_levels x prev is (sl_next s)\<rparr>"
  using assms
proof (induction "is" arbitrary: s)
  case (Cons i "is")
  define s2 where "s2 = do_store (prev i, i, x) (do_store (x, i, nx (prev i) i) s)"
  have "\<forall>j \<in> set is. sl_next s2 (prev j) j = nx (prev j) j" using Cons.prems by (auto simp: s2_def)
  then have "fold do_store (insert_stores x prev nx is) s2 = s2\<lparr>sl_next := link_levels x prev is (sl_next s2)\<rparr>"
    using Cons.IH [of s2] Cons.prems by simp
  moreover have "link_levels x prev (i # is) (sl_next s) = link_levels x prev is (sl_next s2)"
    using Cons.prems by (simp add: s2_def Let_def)
  moreover have "s2\<lparr>sl_next := N\<rparr> = s\<lparr>sl_next := N\<rparr>" for N by (simp add: s2_def)
  ultimately show ?case by (simp only: insert_stores_simps fold_simps s2_def)
qed simp

lemma Insert_begin_stores:
  assumes "Insert_begin cmp s key = Some (s0, ws)"
  shows "SkipList_Insert cmp s key = Some (fold do_store ws s0)"
proof -
  obtain x prev where f: "FindGreaterOrEqual cmp s key = Some (x, prev)"
    using assms by (auto simp: Insert_begin_def split: option.splits)
  obtain h rnd where r: "RandomHeight (Suc 0) (sl_rnd s) = (h, rnd)" by (cases "RandomHeight (Suc 0) (sl_rnd s)") auto
  show ?thesis using assms by (auto simp: Insert_begin_def SkipList_Insert_def f r Let_def stores_link)
qed

lemma path_first_node: "path nx l x ys \<Longrightarrow> nx x l = first_node ys"
  by (cases ys) (auto simp: first_node_def)

text \<open>The links when the levels below \<open>j\<close> are linked, with \<open>z\<close> the
  links of the new node in the levels above, and the stores that are left then.\<close>

definition link_state :: "'k skiplist \<Rightarrow> (nat \<Rightarrow> nat) \<Rightarrow> nat \<Rightarrow> (nat \<Rightarrow> nat) \<Rightarrow> nat \<Rightarrow> nat \<Rightarrow> nat" where
  "link_state s prev j z = (\<lambda>y l.
     if l < j then if y = sl_alloc s then sl_next s (prev l) l else if y = prev l then sl_alloc s else sl_next s y l
     else if y = sl_alloc s then z l else sl_next s y l)"

definition link_phase :: "'k skiplist \<Rightarrow> 'k \<Rightarrow> (nat \<Rightarrow> nat) \<Rightarrow> nat \<Rightarrow> nat \<Rightarrow> 'k skiplist \<Rightarrow> (nat \<times> nat \<times> nat) list \<Rightarrow> bool" where
  "link_phase s key prev h j s1 ws \<longleftrightarrow>
     j \<le> h \<and> sl_key s1 = (sl_key s)(sl_alloc s := key) \<and> sl_alloc s1 = sl_alloc s + 1 \<and>
     sl_max_height s1 = max h (sl_max_height s) \<and>
     (\<exists>z. sl_next s1 = link_state s prev j z \<and>
        (ws = insert_stores (sl_alloc s) prev (sl_next s) [j..<h] \<or>
         j < h \<and> z j = sl_next s (prev j) j \<and>
           ws = (prev j, j, sl_alloc s) # insert_stores (sl_alloc s) prev (sl_next s) [Suc j..<h]))"

lemma link_phase_write:
  assumes ph: "link_phase s key prev h j s1 (w # ws)" and p: "\<forall>m<h. prev m \<noteq> sl_alloc s"
  shows "link_phase s key prev h j (do_store w s1) ws \<or> link_phase s key prev h (Suc j) (do_store w s1) ws"
proof -
  obtain z where z: "sl_next s1 = link_state s prev j z"
      "w # ws = insert_stores (sl_alloc s) prev (sl_next s) [j..<h] \<or>
       j < h \<and> z j = sl_next s (prev j) j \<and>
         w # ws = (prev j, j, sl_alloc s) # insert_stores (sl_alloc s) prev (sl_next s) [Suc j..<h]"
    using ph by (auto simp: link_phase_def)
  from z(2) show ?thesis
  proof
    assume w: "w # ws = insert_stores (sl_alloc s) prev (sl_next s) [j..<h]"
    then have j: "j < h" using ph by (cases "j = h") (auto simp: link_phase_def)
    then have w': "w = (sl_alloc s, j, sl_next s (prev j) j)"
        "ws = (prev j, j, sl_alloc s) # insert_stores (sl_alloc s) prev (sl_next s) [Suc j..<h]"
      using w by (simp_all add: upt_conv_Cons)
    have "sl_next (do_store w s1) = link_state s prev j (z(j := sl_next s (prev j) j))"
      by (auto simp: w' z(1) link_state_def fun_eq_iff)
    then have "link_phase s key prev h j (do_store w s1) ws" using ph j w' by (fastforce simp: link_phase_def)
    then show ?thesis ..
  next
    assume w: "j < h \<and> z j = sl_next s (prev j) j \<and>
      w # ws = (prev j, j, sl_alloc s) # insert_stores (sl_alloc s) prev (sl_next s) [Suc j..<h]"
    have "sl_next (do_store w s1) = link_state s prev (Suc j) z"
      using w p by (auto simp: z(1) link_state_def fun_eq_iff less_Suc_eq)
    then have "link_phase s key prev h (Suc j) (do_store w s1) ws" using ph w by (auto simp: link_phase_def)
    then show ?thesis ..
  qed
qed

context weak_order
begin

definition reader_ok :: "'a skiplist \<Rightarrow> 'a \<Rightarrow> nat list \<Rightarrow> (nat \<Rightarrow> nat) \<Rightarrow> reader \<Rightarrow> bool" where
  "reader_ok s key ns ht r \<longleftrightarrow>
     (\<forall>x l. r = Search x l \<longrightarrow> l < kMaxHeight \<and> at_node (\<lambda>n. cmp (sl_key s n) key < 0) ns ht x l)"

lemma reader_step_ok:
  assumes i: "sl_inv cmp ok s ns ht" and k: "ok key" and r: "reader_ok s key ns ht (Search x l)"
  shows "reader_ok s key ns ht (reader_step cmp s key (Search x l))"
    and "reader_step cmp s key (Search x l) = Found n \<Longrightarrow> n = first_node (dropWhile (\<lambda>n. cmp (sl_key s n) key < 0) ns)"
proof -
  define P where "P = (\<lambda>n. cmp (sl_key s n) key < 0)"
  have l: "l < kMaxHeight" and at: "at_node P ns ht x l" using r by (auto simp: reader_ok_def P_def)
  have c: "sorted_wrt (\<lambda>a b. P b \<longrightarrow> P a) ns" using sl_closed [OF i k] by (simp add: P_def)
  have "path (sl_next s) l 1 (filter (\<lambda>n. l < ht n) ns)" using i l by (simp add: sl_inv_def)
  from at_node_position [OF c at this]
  obtain ys where ys: "path (sl_next s) l x ys" "dropWhile P ys = dropWhile P (filter (\<lambda>n. l < ht n) ns)"
      "set ys \<subseteq> set (filter (\<lambda>n. l < ht n) ns)" by blast
  note nxt = path_first_node [OF ys(1)]
  have "at_node P ns ht (first_node ys) l" if "KeyIsAfterNode cmp s key (first_node ys)"
    using that ys(3) by (cases ys) (auto simp: KeyIsAfterNode_def first_node_def at_node_def P_def)
  then show "reader_ok s key ns ht (reader_step cmp s key (Search x l))"
    using l at_node_down [OF at, of "l - 1"] at by (auto simp: reader_ok_def nxt Let_def P_def split: if_splits)
  have stop: "dropWhile P ys = ys" if "\<not> KeyIsAfterNode cmp s key (first_node ys)"
    using that ys(1) by (cases ys) (auto simp: KeyIsAfterNode_def first_node_def P_def)
  show "n = first_node (dropWhile (\<lambda>n. cmp (sl_key s n) key < 0) ns)" if "reader_step cmp s key (Search x l) = Found n"
    using that stop ys(2) sl_level0 [OF i] unfolding P_def [symmetric] by (auto simp: nxt Let_def split: if_splits)
qed

definition linked_nodes :: "'a skiplist \<Rightarrow> 'a \<Rightarrow> nat list \<Rightarrow> nat \<Rightarrow> nat list" where
  "linked_nodes s key ns j = (if j = 0 then ns
     else takeWhile (\<lambda>n. cmp (sl_key s n) key < 0) ns @ sl_alloc s # dropWhile (\<lambda>n. cmp (sl_key s n) key < 0) ns)"

lemma link_phase_inv:
  assumes i: "sl_inv cmp ok s ns ht" and k: "ok key" and ne: "\<forall>m \<in> set ns. cmp (sl_key s m) key \<noteq> 0"
    and h: "h \<le> kMaxHeight"
    and p: "\<forall>m<h. prev m = last (1 # takeWhile (\<lambda>n. cmp (sl_key s n) key < 0) (filter (\<lambda>n. m < ht n) ns))"
    and ph: "link_phase s key prev h j s1 ws"
  shows "sl_inv cmp ok s1 (linked_nodes s key ns j) (ht(sl_alloc s := j))"
proof -
  obtain z where "sl_next s1 = link_state s prev j z" using ph by (auto simp: link_phase_def)
  then show ?thesis unfolding linked_nodes_def
    by (intro linking_inv [where h = h and prev = prev and z = z, OF i k ne])
      (use h ph p in \<open>auto simp: link_phase_def link_state_def\<close>)
qed

lemma reader_ok_grow:
  assumes "reader_ok s1 key (linked_nodes s k ns j) (ht(a := j)) r"
  shows "reader_ok s1 key (linked_nodes s k ns (Suc j)) (ht(a := Suc j)) r"
proof -
  have "set (linked_nodes s k ns j) \<subseteq> set (linked_nodes s k ns (Suc j))"
    by (auto simp: linked_nodes_def) (metis takeWhile_dropWhile_id set_append UnE)
  then show ?thesis using assms by (fastforce simp: reader_ok_def at_node_def split: if_splits)
qed

lemma Insert_begin_phase:
  assumes i: "sl_inv cmp ok s ns ht" and k: "ok key" and b: "Insert_begin cmp s key = Some (s0, ws)"
  obtains h prev where "h \<le> kMaxHeight" and "link_phase s key prev h 0 s0 ws"
    and "\<forall>m<h. prev m = last (1 # takeWhile (\<lambda>n. cmp (sl_key s n) key < 0) (filter (\<lambda>n. m < ht n) ns))"
    and "\<forall>m<h. prev m \<noteq> sl_alloc s"
proof -
  obtain x prev where f: "FindGreaterOrEqual cmp s key = Some (x, prev)" using find_ge [OF i k] by auto
  obtain h rnd where rh: "RandomHeight 1 (sl_rnd s) = (h, rnd)" by (cases "RandomHeight 1 (sl_rnd s)") auto
  then have h: "1 \<le> h" "h \<le> kMaxHeight" using RandomHeight_bounds [of 1 "sl_rnd s"] by (simp_all add: kMaxHeight_def)
  define pv where "pv = (\<lambda>i. if sl_max_height s \<le> i \<and> i < h then 1 else prev i)"
  have p: "\<forall>m<h. pv m = last (1 # takeWhile (\<lambda>n. cmp (sl_key s n) key < 0) (filter (\<lambda>n. m < ht n) ns))"
    using linked_prev [OF i k f] by (simp add: pv_def)
  have "link_phase s key pv h 0 s0 ws"
    using b by (auto simp: Insert_begin_def f rh [unfolded One_nat_def] Let_def pv_def link_phase_def
        link_state_def fun_eq_iff intro!: exI [of _ "sl_next s (sl_alloc s)"])
  then show ?thesis using that [OF h(2), of pv] p prev_old [OF i k] by simp
qed

lemma interleave_invariant:
  fixes s s0 :: "'a skiplist" and k key :: 'a and ns :: "nat list"
  defines "Q \<equiv> \<lambda>n. cmp (((sl_key s)(sl_alloc s := k)) n) key < 0"
  assumes i: "sl_inv cmp ok s ns ht" and k: "ok k" and ne: "\<forall>m \<in> set ns. cmp (sl_key s m) k \<noteq> 0" and key: "ok key"
    and b: "Insert_begin cmp s k = Some (s0, ws0)" and l0: "l0 < kMaxHeight"
    and run: "(interleave cmp key)\<^sup>*\<^sup>* (s0, ws0, Search 1 l0) (s1, ws, Found n)"
  shows "\<exists>j. n = first_node (dropWhile Q (linked_nodes s k ns j))"
proof -
  obtain h prev where ph: "h \<le> kMaxHeight" "link_phase s k prev h 0 s0 ws0"
    "\<forall>m<h. prev m = last (1 # takeWhile (\<lambda>n. cmp (sl_key s n) k < 0) (filter (\<lambda>n. m < ht n) ns))"
    "\<forall>m<h. prev m \<noteq> sl_alloc s"
    using Insert_begin_phase [OF i k b] .
  define good where "good = (\<lambda>(s1, ws, r). \<exists>j. link_phase s k prev h j s1 ws \<and>
      reader_ok s1 key (linked_nodes s k ns j) (ht(sl_alloc s := j)) r \<and>
      (\<forall>n. r = Found n \<longrightarrow> (\<exists>j. n = first_node (dropWhile Q (linked_nodes s k ns j)))))"
  have step: "good c'" if g: "good c" and t: "interleave cmp key c c'" for c c'
    using t g
  proof cases
    case (writes s1 w ws r)
    then obtain j where j: "link_phase s k prev h j s1 (w # ws)"
        "reader_ok s1 key (linked_nodes s k ns j) (ht(sl_alloc s := j)) r"
        "\<forall>n. r = Found n \<longrightarrow> (\<exists>j. n = first_node (dropWhile Q (linked_nodes s k ns j)))"
      using g by (auto simp: good_def)
    have "reader_ok (do_store w s1) key ns1 ht1 r = reader_ok s1 key ns1 ht1 r" for ns1 ht1
      by (cases w) (simp add: reader_ok_def)
    then show ?thesis
      using link_phase_write [OF j(1) ph(4)] j(2,3) reader_ok_grow [OF j(2)] unfolding writes good_def prod.case by metis
  next
    case (reads s1 ws x l)
    then obtain j where j: "link_phase s k prev h j s1 ws" "reader_ok s1 key (linked_nodes s k ns j) (ht(sl_alloc s := j)) (Search x l)"
      using g by (auto simp: good_def)
    note st = reader_step_ok [OF link_phase_inv [OF i k ne ph(1,3) j(1)] key j(2)]
    have "sl_key s1 = (sl_key s)(sl_alloc s := k)" using j(1) by (simp add: link_phase_def)
    then have "n = first_node (dropWhile Q (linked_nodes s k ns j))" if "reader_step cmp s1 key (Search x l) = Found n" for n
      using st(2) [OF that] by (simp add: Q_def)
    then show ?thesis using j(1) st(1) unfolding reads good_def prod.case by blast
  qed
  have init: "good (s0, ws0, Search 1 l0)" using l0 ph(2) by (auto simp: good_def reader_ok_def at_node_def)
  have "good c" if "(interleave cmp key)\<^sup>*\<^sup>* (s0, ws0, Search 1 l0) c" for c
    using that by (induction rule: rtranclp_induct) (use init step in blast)+
  from this [OF run] show ?thesis by (auto simp: good_def)
qed

lemma interleave_linear:
  assumes i: "sl_inv cmp ok s ns ht" and k: "ok k" and ne: "\<forall>m \<in> set ns. cmp (sl_key s m) k \<noteq> 0" and key: "ok key"
    and b: "Insert_begin cmp s k = Some (s0, ws0)" and l0: "l0 < kMaxHeight"
    and run: "(interleave cmp key)\<^sup>*\<^sup>* (s0, ws0, Search 1 l0) (s1, ws, Found n)"
  shows "map_option fst (FindGreaterOrEqual cmp s key) = Some n \<or>
    map_option fst (FindGreaterOrEqual cmp (fold do_store ws0 s0) key) = Some n"
proof -
  obtain j where n: "n = first_node (dropWhile (\<lambda>n. cmp (((sl_key s)(sl_alloc s := k)) n) key < 0) (linked_nodes s k ns j))"
    using interleave_invariant [OF assms] by blast
  obtain s' ht' where s': "SkipList_Insert cmp s k = Some s'" "sl_inv cmp ok s' (linked_nodes s k ns 1) ht'"
    "sl_key s' = (sl_key s)(sl_alloc s := k)"
    using Insert_inv [OF i k ne] by (auto simp: linked_nodes_def)
  have "s' = fold do_store ws0 s0" using Insert_begin_stores [OF b] s'(1) by simp
  moreover have "dropWhile (\<lambda>n. cmp (((sl_key s)(sl_alloc s := k)) n) key < 0) ns = dropWhile (\<lambda>n. cmp (sl_key s n) key < 0) ns"
    using i by (intro dropWhile_cong) (auto simp: sl_inv_def)
  ultimately show ?thesis
    using n find_ge [OF i key] find_ge [OF s'(2) key] s'(3) by (cases "j = 0") (auto simp: linked_nodes_def)
qed

end

section \<open>Properties\<close>

text \<open>
  C16.  Readers need no lock: a \<^verbatim>\<open>FindGreaterOrEqual\<close> whose iterations are
  interleaved in any way with the stores of one \<^verbatim>\<open>Insert\<close>, and which begins
  at any level, finds the node that the same search finds before the insertion, or the node that it
  finds after it.
\<close>

theorem skiplist_lockfree:
  assumes w: "weak_order cmp ok" and r: "sl_rep cmp ok s ks" and k: "ok k" and ne: "\<forall>y \<in> set ks. cmp y k \<noteq> 0"
    and key: "ok key" and b: "Insert_begin cmp s k = Some (s0, ws0)" and l0: "l0 < kMaxHeight"
    and run: "(interleave cmp key)\<^sup>*\<^sup>* (s0, ws0, Search 1 l0) (s1, ws, Found n)"
  shows "\<exists>s'. SkipList_Insert cmp s k = Some s' \<and>
    (map_option fst (FindGreaterOrEqual cmp s key) = Some n \<or> map_option fst (FindGreaterOrEqual cmp s' key) = Some n)"
proof -
  obtain ns ht where i: "sl_inv cmp ok s ns ht" and ks: "ks = map (sl_key s) ns" using r by (auto simp: sl_rep_def)
  have "\<forall>m \<in> set ns. cmp (sl_key s m) k \<noteq> 0" using ne by (simp add: ks)
  from weak_order.interleave_linear [OF w i k this key b l0 run] Insert_begin_stores [OF b] show ?thesis by blast
qed

lemma Insert_begin_new:
  "\<exists>s0 ws. Insert_begin cmp (SkipList_new k0) k = Some (s0, ws) \<and> sl_next s0 = (\<lambda>n l. 0)"
proof -
  have "FindGreaterOrEqual cmp (SkipList_new k0) k = Some (0, (\<lambda>_. 0)(0 := 1))"
    by (simp add: FindGreaterOrEqual_def SkipList_new_def) (subst FindGE_loop.simps, simp add: KeyIsAfterNode_def)
  then show ?thesis by (auto simp: Insert_begin_def SkipList_new_def Let_def split: prod.splits)
qed

theorem skiplist_lockfree_witness:
  "\<exists>s0 ws s'. Insert_begin (num_cmp Int32) (SkipList_new []) [7, 0, 0, 0] = Some (s0, ws) \<and>
    (interleave (num_cmp Int32) [3, 0, 0, 0])\<^sup>*\<^sup>* (s0, ws, Search 1 0) (s0, ws, Found 0) \<and>
    SkipList_Insert (num_cmp Int32) (SkipList_new []) [7, 0, 0, 0] = Some s' \<and>
    (map_option fst (FindGreaterOrEqual (num_cmp Int32) (SkipList_new []) [3, 0, 0, 0]) = Some 0 \<or>
     map_option fst (FindGreaterOrEqual (num_cmp Int32) s' [3, 0, 0, 0]) = Some 0)"
proof -
  obtain s0 ws where b: "Insert_begin (num_cmp Int32) (SkipList_new []) [7, 0, 0, 0] = Some (s0, ws)"
    "sl_next s0 = (\<lambda>n l. 0)" using Insert_begin_new [of "num_cmp Int32" "[]" "[7, 0, 0, 0]"] by blast
  then have "reader_step (num_cmp Int32) s0 [3, 0, 0, 0] (Search 1 0) = Found 0" by (simp add: KeyIsAfterNode_def)
  then have r: "(interleave (num_cmp Int32) [3, 0, 0, 0])\<^sup>*\<^sup>* (s0, ws, Search 1 0) (s0, ws, Found 0)"
    using interleave.reads [of "num_cmp Int32" "[3, 0, 0, 0]" s0 ws 1 0] by auto
  then show ?thesis
    using skiplist_lockfree [OF num_order.weak_order_axioms sl_rep_new _ _ _ b(1) _ r] b(1)
    by (auto simp: num_key_def kMaxHeight_def)
qed

end
