(* ===== verification/Lvl_MemTable.thy ===== *)
theory Lvl_MemTable
  imports Lvl_SkipRead Lvl_WriteBatch
begin

text \<open>
  The memtable, \<^verbatim>\<open>db/memtable.cc\<close> and \<^verbatim>\<open>db/memtable.h\<close>,
  and the replay of a write batch into it (\<^verbatim>\<open>MemTableInserter\<close> and
  \<^verbatim>\<open>InsertInto\<close> of \<^verbatim>\<open>db/write_batch.cc\<close>).  The keys of its
  skip list are pointers to encoded entries; a pointer is the list of the bytes from it on.
\<close>

section \<open>The memtable\<close>

text \<open>The unchecked \<^verbatim>\<open>GetLengthPrefixedSlice\<close> of this file, which reads its
  length from at most five bytes.  It also returns the bytes after the slice; \<open>None\<close> is a read
  out of bounds.\<close>

definition mem_slice :: "bytes \<Rightarrow> (bytes \<times> bytes) option" where
  "mem_slice data =
     (case GetVarint32 (take 5 data) of
        None \<Rightarrow> None
      | Some (len, rest) \<Rightarrow>
          let p = drop (length (take 5 data) - length rest) data
          in if unat len \<le> length p then Some (take (unat len) p, drop (unat len) p) else None)"

definition KeyComparator :: "comparator \<Rightarrow> bytes \<Rightarrow> bytes \<Rightarrow> int" where
  "KeyComparator C aptr bptr =
     (case (mem_slice aptr, mem_slice bptr) of
        (Some (a, _), Some (b, _)) \<Rightarrow> InternalKey_Compare C a b
      | _ \<Rightarrow> 0)"

record memtable =
  mt_refs :: int
  mt_table :: "bytes skiplist"

definition MemTable_new :: memtable where
  "MemTable_new = \<lparr>mt_refs = 0, mt_table = SkipList_new []\<rparr>"

definition MemTable_Ref :: "memtable \<Rightarrow> memtable" where
  "MemTable_Ref mt = mt\<lparr>mt_refs := mt_refs mt + 1\<rparr>"

text \<open>\<open>None\<close> is the deleted table.\<close>

definition MemTable_Unref :: "memtable \<Rightarrow> memtable option" where
  "MemTable_Unref mt = (let refs = mt_refs mt - 1 in if refs \<le> 0 then None else Some (mt\<lparr>mt_refs := refs\<rparr>))"

definition EncodeKey :: "bytes \<Rightarrow> bytes" where
  "EncodeKey target = PutVarint32 [] (of_nat (length target)) @ target"

definition MemTable_Add :: "comparator \<Rightarrow> u64 \<Rightarrow> ValueType \<Rightarrow> bytes \<Rightarrow> bytes \<Rightarrow> memtable \<Rightarrow> memtable option" where
  "MemTable_Add C s type key val mt =
     (let key_size = length key;
          val_size = length val;
          internal_key_size = key_size + 8;
          buf = EncodeVarint32 (of_nat internal_key_size) @ key @
                EncodeFixed64 True (push_bit 8 s OR value_type_num type) @
                EncodeVarint32 (of_nat val_size) @ val
      in map_option (\<lambda>t. mt\<lparr>mt_table := t\<rparr>) (SkipList_Insert (KeyComparator C) (mt_table mt) buf))"

text \<open>\<open>val\<close> and \<open>s\<close> are the values of \<^verbatim>\<open>*value\<close> and
  \<^verbatim>\<open>*s\<close> before the call; the result has the returned flag and their values
  after it.\<close>

definition MemTable_Get :: "comparator \<Rightarrow> memtable \<Rightarrow> lookup_key \<Rightarrow> bytes \<Rightarrow> status \<Rightarrow> (bool \<times> bytes \<times> status) option" where
  "MemTable_Get C mt key val s =
     (case iter_Seek (KeyComparator C) (mt_table mt) (lk_memtable_key key) of
        None \<Rightarrow> None
      | Some iter \<Rightarrow>
          if iter_Valid iter
          then (case mem_slice (iter_key (mt_table mt) iter) of
                  None \<Rightarrow> None
                | Some (ikey, rest) \<Rightarrow>
                    if cm_Compare C (ExtractUserKey ikey) (lk_user_key key) = 0
                    then let tag = internal_tag ikey
                         in if tag AND 0xff = value_type_num kTypeValue
                            then (case mem_slice rest of None \<Rightarrow> None | Some (v, _) \<Rightarrow> Some (True, v, s))
                            else if tag AND 0xff = value_type_num kTypeDeletion
                            then Some (True, val, Status_NotFound [] [])
                            else Some (False, val, s)
                    else Some (False, val, s))
          else Some (False, val, s))"

text \<open>\<^verbatim>\<open>MemTableIterator\<close>; its other methods are those of the iterator of
  the skip list.\<close>

definition mem_Seek :: "comparator \<Rightarrow> memtable \<Rightarrow> bytes \<Rightarrow> nat option" where
  "mem_Seek C mt k = iter_Seek (KeyComparator C) (mt_table mt) (EncodeKey k)"

definition mem_key :: "memtable \<Rightarrow> nat \<Rightarrow> bytes option" where
  "mem_key mt n = map_option fst (mem_slice (iter_key (mt_table mt) n))"

definition mem_value :: "memtable \<Rightarrow> nat \<Rightarrow> bytes option" where
  "mem_value mt n = Option.bind (mem_slice (iter_key (mt_table mt) n)) (\<lambda>(_, rest). map_option fst (mem_slice rest))"

section \<open>Replaying a batch\<close>

definition MemTableInserter :: "comparator \<Rightarrow> (u64 \<times> memtable option) handler" where
  "MemTableInserter C =
     \<lparr>h_Put = (\<lambda>key val (s, mem). (s + 1, Option.bind mem (MemTable_Add C s kTypeValue key val))),
      h_Delete = (\<lambda>key (s, mem). (s + 1, Option.bind mem (MemTable_Add C s kTypeDeletion key [])))\<rparr>"

definition InsertInto :: "comparator \<Rightarrow> bytes \<Rightarrow> memtable \<Rightarrow> memtable option \<times> status" where
  "InsertInto C b memtable =
     (case WriteBatch_Iterate (MemTableInserter C) b (batch_Sequence b, Some memtable) of
        ((_, mem), status) \<Rightarrow> (mem, status))"

section \<open>Entries\<close>

lemma mem_slice_encoded [simp]:
  assumes "length s < 2 ^ 32"
  shows "mem_slice (varint (length s) @ s @ rest) = Some (s, rest)"
proof -
  define len where "len = (of_nat (length s) :: u32)"
  have u: "unat len = length s" using assms by (simp add: len_def unat_of_nat)
  have v: "length (varint (length s)) \<le> 5" using assms by (intro length_varint_le) auto
  define r where "r = take (5 - length (varint (length s))) (s @ rest)"
  have t: "take 5 (varint (length s) @ s @ rest) = varint (length s) @ r" using v by (simp add: r_def)
  have "GetVarint32 (varint (length s) @ r) = Some (len, r)" using GetVarint32_varint [of len r] u by simp
  then show ?thesis using u unfolding mem_slice_def t by (simp add: Let_def)
qed

text \<open>What is stored by one call of \<^verbatim>\<open>Add\<close>.\<close>

record mem_op =
  mo_seq :: u64
  mo_type :: ValueType
  mo_key :: bytes
  mo_val :: bytes

definition mo_ikey :: "mem_op \<Rightarrow> bytes" where
  "mo_ikey m = InternalKey (mo_key m) (mo_seq m) (mo_type m)"

definition mo_entry :: "mem_op \<Rightarrow> bytes" where
  "mo_entry m = varint (length (mo_ikey m)) @ mo_ikey m @ varint (length (mo_val m)) @ mo_val m"

definition mo_valid :: "(bytes \<Rightarrow> bool) \<Rightarrow> mem_op \<Rightarrow> bool" where
  "mo_valid ok m \<longleftrightarrow> ok (mo_key m) \<and> length (mo_key m) + 8 < 2 ^ 32 \<and> length (mo_val m) < 2 ^ 32 \<and>
     mo_seq m \<le> kMaxSequenceNumber"

definition key_ok :: "(bytes \<Rightarrow> bool) \<Rightarrow> bytes \<Rightarrow> bool" where
  "key_ok ok k \<longleftrightarrow> ok k \<and> length k + 8 < 2 ^ 32"

definition mo_add :: "comparator \<Rightarrow> memtable option \<Rightarrow> mem_op \<Rightarrow> memtable option" where
  "mo_add C mt m = Option.bind mt (MemTable_Add C (mo_seq m) (mo_type m) (mo_key m) (mo_val m))"

definition entry_ok :: "(bytes \<Rightarrow> bool) \<Rightarrow> bytes \<Rightarrow> bool" where
  "entry_ok ok e \<longleftrightarrow> (\<exists>ikey rest. internal_ok ok ikey \<and> length ikey < 2 ^ 32 \<and> e = varint (length ikey) @ ikey @ rest)"

lemma entry_okE:
  assumes "entry_ok ok e"
  obtains ikey rest where "internal_ok ok ikey" and "mem_slice e = Some (ikey, rest)"
  using assms by (auto simp: entry_ok_def)

lemma KeyComparator_slices:
  "mem_slice a = Some (x, p) \<Longrightarrow> mem_slice b = Some (y, q) \<Longrightarrow> KeyComparator C a b = InternalKey_Compare C x y"
  by (simp add: KeyComparator_def)

lemma mem_order:
  assumes "comparator_laws C ok"
  shows "weak_order (KeyComparator C) (entry_ok ok)"
proof -
  have i: "strict_order (InternalKey_Compare C) (internal_ok ok)"
    using comparator_laws.internal_strict_order [OF assms] .
  note w = strict_order.axioms(1) [OF i]
  show ?thesis
  proof
    fix a b assume "entry_ok ok a" "entry_ok ok b"
    then obtain x p y q where "internal_ok ok x" "mem_slice a = Some (x, p)" "internal_ok ok y" "mem_slice b = Some (y, q)"
      by (meson entry_okE)
    then show "sgn (KeyComparator C b a) = - sgn (KeyComparator C a b)"
      using weak_order.cmp_swap [OF w, of x y] by (simp add: KeyComparator_slices)
  next
    fix a b c assume "entry_ok ok a" "entry_ok ok b" "entry_ok ok c"
      and le: "KeyComparator C a b \<le> 0" "KeyComparator C b c \<le> 0"
    then obtain x p y q z r where "internal_ok ok x" "mem_slice a = Some (x, p)" "internal_ok ok y" "mem_slice b = Some (y, q)"
        "internal_ok ok z" "mem_slice c = Some (z, r)" by (meson entry_okE)
    then show "KeyComparator C a c \<le> 0"
      using weak_order.cmp_trans [OF w, of x y z] le by (simp add: KeyComparator_slices)
  qed
qed

sublocale comparator_laws \<subseteq> mem: weak_order "KeyComparator C" "entry_ok ok"
  by (rule mem_order) (rule comparator_laws_axioms)

section \<open>The refinement\<close>

context weak_order
begin

lemma Seek_rep:
  assumes "sl_rep cmp ok s ks" and t: "ok target"
  obtains n where "iter_Seek cmp s target = Some n"
    and "iter_Valid n \<longleftrightarrow> oset_lower cmp target ks \<noteq> []"
    and "oset_lower cmp target ks \<noteq> [] \<Longrightarrow> iter_key s n = hd (oset_lower cmp target ks)"
proof -
  obtain ns ht where i: "sl_inv cmp ok s ns ht" and ks: "ks = map (sl_key s) ns" using assms(1) by (auto simp: sl_rep_def)
  define d where "d = dropWhile (\<lambda>n. cmp (sl_key s n) target < 0) ns"
  have "oset_lower cmp target ks = map (sl_key s) d" by (simp add: oset_lower_def ks dropWhile_map comp_def d_def)
  moreover have "\<forall>n \<in> set d. n \<noteq> 0" using i by (auto simp: sl_inv_def d_def dest!: set_dropWhileD)
  ultimately show ?thesis using that [of "first_node d"] find_ge [OF i t]
    by (cases d) (auto simp: iter_Seek_def d_def [symmetric] first_node_def iter_Valid_def iter_key_def)
qed

lemma oset_insert_set: "\<forall>y \<in> set ks. cmp x y \<noteq> 0 \<Longrightarrow> set (oset_insert cmp x ks) = insert x (set ks)"
  by (induction ks) auto

lemma lower_hd:
  assumes "oset_sorted cmp ks" and "\<forall>y \<in> set ks. ok y" and "ok target" and "y \<in> set ks" and "\<not> cmp y target < 0"
  obtains rest where "oset_lower cmp target ks \<noteq> []" and "hd (oset_lower cmp target ks) \<in> set ks"
    and "\<not> cmp (hd (oset_lower cmp target ks)) target < 0"
    and "hd (oset_lower cmp target ks) = y \<or> cmp (hd (oset_lower cmp target ks)) y < 0"
proof -
  have y: "y \<in> set (oset_lower cmp target ks)"
    using assms(4,5) unfolding oset_lower_def by (metis takeWhile_dropWhile_id set_append UnE set_takeWhileD)
  then obtain f rest where f: "oset_lower cmp target ks = f # rest" by (cases "oset_lower cmp target ks") auto
  have "oset_sorted cmp (oset_lower cmp target ks)"
    using assms(1) sorted_wrt_append [of _ "takeWhile (\<lambda>y. cmp y target < 0) ks"] unfolding oset_lower_def oset_sorted_def
    by (metis takeWhile_dropWhile_id)
  then have "f = y \<or> cmp f y < 0" using y f by auto
  moreover have "f \<in> set ks" using f by (metis list.set_intros(1) oset_lower_def set_dropWhileD)
  moreover have "\<not> cmp f target < 0" using f hd_dropWhile [of "\<lambda>y. cmp y target < 0" ks] by (simp add: oset_lower_def)
  ultimately show ?thesis using that f by simp
qed

lemma lower_hd_mem:
  assumes "oset_lower cmp target ks \<noteq> []"
  shows "hd (oset_lower cmp target ks) \<in> set ks" and "\<not> cmp (hd (oset_lower cmp target ks)) target < 0"
  using assms hd_dropWhile [of "\<lambda>y. cmp y target < 0" ks] set_dropWhileD [OF hd_in_set [of "oset_lower cmp target ks", unfolded oset_lower_def]]
  unfolding oset_lower_def by blast+

end

lemma mo_tag:
  assumes "mo_valid ok m"
  shows "unat (internal_tag (mo_ikey m)) = 256 * unat (mo_seq m) + unat (value_type_num (mo_type m))"
  using assms pack_nat(1) by (simp add: mo_ikey_def mo_valid_def)

lemma value_type_less: "unat (value_type_num t) \<le> 1"
  by (cases t) auto

lemma mo_ikey_parts [simp]: "ExtractUserKey (mo_ikey m) = mo_key m" "length (mo_ikey m) = length (mo_key m) + 8"
  by (simp_all add: mo_ikey_def)

lemma mo_entry_slice: "mo_valid ok m \<Longrightarrow> mem_slice (mo_entry m) = Some (mo_ikey m, varint (length (mo_val m)) @ mo_val m)"
  using mem_slice_encoded [of "mo_ikey m"] by (simp add: mo_entry_def mo_valid_def)

lemma mo_entry_ok: "mo_valid ok m \<Longrightarrow> entry_ok ok (mo_entry m)"
  unfolding entry_ok_def
  by (intro exI [of _ "mo_ikey m"] exI [of _ "varint (length (mo_val m)) @ mo_val m"])
    (simp add: mo_entry_def mo_valid_def internal_ok_def)

lemma MemTable_Add_entry:
  assumes "mo_valid ok m"
  shows "MemTable_Add C (mo_seq m) (mo_type m) (mo_key m) (mo_val m) mt =
    map_option (\<lambda>t. mt\<lparr>mt_table := t\<rparr>) (SkipList_Insert (KeyComparator C) (mt_table mt) (mo_entry m))"
proof -
  have "varint (unat (of_nat (length (mo_key m) + 8) :: u32)) = varint (length (mo_key m) + 8)"
    by (rule varint_of_nat) (use assms in \<open>simp add: mo_valid_def\<close>)
  moreover have "varint (unat (of_nat (length (mo_val m)) :: u32)) = varint (length (mo_val m))"
    by (rule varint_of_nat) (use assms in \<open>simp add: mo_valid_def\<close>)
  ultimately show ?thesis
    by (simp add: MemTable_Add_def Let_def mo_entry_def mo_ikey_def InternalKey_eq EncodeVarint32_varint
        PackSequenceAndType_def [symmetric] del: of_nat_add)
qed

lemma find_split: "find P xs = Some x \<Longrightarrow> \<exists>as bs. xs = as @ x # bs \<and> (\<forall>a \<in> set as. \<not> P a) \<and> P x"
proof (induction xs)
  case (Cons y ys)
  show ?case
  proof (cases "P y")
    case False
    then obtain as bs where "ys = as @ x # bs" "\<forall>a \<in> set as. \<not> P a" "P x" using Cons by auto
    then show ?thesis using False by (intro exI [of _ "y # as"] exI [of _ bs]) auto
  qed (use Cons.prems in \<open>auto intro: exI [of _ "[]"]\<close>)
qed simp

lemma sl_rep_sorted: "sl_rep cmp ok s ks \<Longrightarrow> oset_sorted cmp ks \<and> (\<forall>y \<in> set ks. ok y)"
  by (auto simp: sl_rep_def sl_inv_def)

text \<open>The newest entry of a key that a snapshot sees.\<close>

definition mem_newest :: "mem_op list \<Rightarrow> bytes \<Rightarrow> u64 \<Rightarrow> mem_op option" where
  "mem_newest ops k snap = find (\<lambda>m. mo_key m = k \<and> mo_seq m \<le> snap) (rev ops)"

definition mem_answer :: "mem_op option \<Rightarrow> bytes \<Rightarrow> status \<Rightarrow> bool \<times> bytes \<times> status" where
  "mem_answer r val s =
     (case r of
        None \<Rightarrow> (False, val, s)
      | Some m \<Rightarrow>
          (case mo_type m of kTypeValue \<Rightarrow> (True, mo_val m, s) | kTypeDeletion \<Rightarrow> (True, val, Status_NotFound [] [])))"

definition mt_holds :: "comparator \<Rightarrow> (bytes \<Rightarrow> bool) \<Rightarrow> memtable \<Rightarrow> mem_op list \<Rightarrow> bool" where
  "mt_holds C ok mt ops \<longleftrightarrow> list_all (mo_valid ok) ops \<and> sorted_wrt (\<lambda>a b. mo_seq a < mo_seq b) ops \<and>
     (\<exists>ks. sl_rep (KeyComparator C) (entry_ok ok) (mt_table mt) ks \<and> set ks = mo_entry ` set ops)"

context comparator_laws
begin

lemma mem_cmp_less_iff:
  assumes "mo_valid ok a" and "mo_valid ok b"
  shows "KeyComparator C (mo_entry a) (mo_entry b) < 0 \<longleftrightarrow>
    cm_Compare C (mo_key a) (mo_key b) < 0 \<or> mo_key a = mo_key b \<and> internal_tag (mo_ikey b) < internal_tag (mo_ikey a)"
proof -
  have "internal_ok ok (mo_ikey a)" "internal_ok ok (mo_ikey b)" using assms by (simp_all add: internal_ok_def mo_valid_def)
  from icmp_less_iff [OF this] show ?thesis
    using KeyComparator_slices [OF mo_entry_slice [OF assms(1)] mo_entry_slice [OF assms(2)]] by simp
qed

lemma mem_cmp_equal:
  assumes v: "mo_valid ok a" "mo_valid ok b" and "KeyComparator C (mo_entry a) (mo_entry b) = 0"
  shows "mo_seq a = mo_seq b"
proof -
  have i: "internal_ok ok (mo_ikey a)" "internal_ok ok (mo_ikey b)" using v by (simp_all add: internal_ok_def mo_valid_def)
  have "InternalKey_Compare C (mo_ikey a) (mo_ikey b) = 0"
    using assms(3) KeyComparator_slices [OF mo_entry_slice [OF v(1)] mo_entry_slice [OF v(2)]] by simp
  then have "mo_ikey a = mo_ikey b" using strict_order.cmp_zero_iff [OF internal_strict_order i] by simp
  then have "256 * unat (mo_seq a) + unat (value_type_num (mo_type a)) = 256 * unat (mo_seq b) + unat (value_type_num (mo_type b))"
    using mo_tag v by metis
  then have "unat (mo_seq a) = unat (mo_seq b)" using value_type_less [of "mo_type a"] value_type_less [of "mo_type b"] by linarith
  then show ?thesis by (simp add: word_unat_eq_iff)
qed

lemma Add_holds:
  assumes h: "mt_holds C ok mt ops" and v: "mo_valid ok m" and new: "\<forall>a \<in> set ops. mo_seq a < mo_seq m"
  obtains mt' where "MemTable_Add C (mo_seq m) (mo_type m) (mo_key m) (mo_val m) mt = Some mt'"
    and "mt_holds C ok mt' (ops @ [m])"
proof -
  obtain ks where ks: "sl_rep (KeyComparator C) (entry_ok ok) (mt_table mt) ks" "set ks = mo_entry ` set ops"
    using h by (auto simp: mt_holds_def)
  have ne: "KeyComparator C y (mo_entry m) \<noteq> 0 \<and> KeyComparator C (mo_entry m) y \<noteq> 0" if y: "y \<in> set ks" for y
  proof -
    obtain a where a: "a \<in> set ops" "y = mo_entry a" using y ks(2) by auto
    then have "mo_valid ok a" using h by (simp add: mt_holds_def list_all_iff)
    then show ?thesis using mem_cmp_equal v new a by fastforce
  qed
  obtain t where t: "SkipList_Insert (KeyComparator C) (mt_table mt) (mo_entry m) = Some t"
      "sl_rep (KeyComparator C) (entry_ok ok) t (oset_insert (KeyComparator C) (mo_entry m) ks)"
    using mem.Insert_rep [OF ks(1) mo_entry_ok [OF v]] ne by blast
  have "set (oset_insert (KeyComparator C) (mo_entry m) ks) = mo_entry ` set (ops @ [m])"
    using mem.oset_insert_set [of ks "mo_entry m"] ne ks(2) by simp
  then have "mt_holds C ok (mt\<lparr>mt_table := t\<rparr>) (ops @ [m])"
    using h t(2) v new unfolding mt_holds_def by (auto simp: sorted_wrt_append)
  then show ?thesis using that [of "mt\<lparr>mt_table := t\<rparr>"] t(1) MemTable_Add_entry [OF v] by simp
qed

lemma target_cmp:
  assumes v: "mo_valid ok a" and k: "ok k" "length k + 8 < 2 ^ 32" and snap: "snap \<le> kMaxSequenceNumber"
  shows "KeyComparator C (mo_entry a) (lk_memtable_key (LookupKey k snap)) < 0 \<longleftrightarrow>
      cm_Compare C (mo_key a) k < 0 \<or> mo_key a = k \<and> snap < mo_seq a"
    and "entry_ok ok (lk_memtable_key (LookupKey k snap))"
proof -
  define ik where "ik = InternalKey k snap kTypeValue"
  have "varint (unat (of_nat (length k + 8) :: u32)) = varint (length k + 8)" by (rule varint_of_nat) (rule k(2))
  then have e: "lk_memtable_key (LookupKey k snap) = varint (length ik) @ ik @ []"
    by (simp add: LookupKey_def Let_def EncodeVarint32_varint ik_def InternalKey_eq kValueTypeForSeek_def del: of_nat_add)
  have i: "internal_ok ok ik" "internal_ok ok (mo_ikey a)" using k v by (simp_all add: ik_def internal_ok_def mo_valid_def)
  then show "entry_ok ok (lk_memtable_key (LookupKey k snap))"
    unfolding entry_ok_def e using k by (intro exI [of _ ik] exI [of _ "[]"]) (simp add: ik_def)
  have "mem_slice (lk_memtable_key (LookupKey k snap)) = Some (ik, [])"
    unfolding e by (rule mem_slice_encoded) (use k in \<open>simp add: ik_def\<close>)
  then have "KeyComparator C (mo_entry a) (lk_memtable_key (LookupKey k snap)) = icmp (mo_ikey a) ik"
    using KeyComparator_slices [OF mo_entry_slice [OF v]] by blast
  moreover have "internal_tag ik < internal_tag (mo_ikey a) \<longleftrightarrow> snap < mo_seq a"
    unfolding word_less_nat_alt mo_tag [OF v] ik_def InternalKey_parts pack_nat(1) [OF snap]
    using value_type_less [of "mo_type a"] by auto
  ultimately show "KeyComparator C (mo_entry a) (lk_memtable_key (LookupKey k snap)) < 0 \<longleftrightarrow>
      cm_Compare C (mo_key a) k < 0 \<or> mo_key a = k \<and> snap < mo_seq a"
    using icmp_less_iff [OF i(2,1)] by (simp add: ik_def)
qed

lemma mem_newest_Some:
  assumes "sorted_wrt (\<lambda>a b. mo_seq a < mo_seq b) ops" and "mem_newest ops k snap = Some m"
  shows "m \<in> set ops" and "mo_key m = k" and "mo_seq m \<le> snap"
    and "\<And>a. a \<in> set ops \<Longrightarrow> mo_key a = k \<Longrightarrow> mo_seq a \<le> snap \<Longrightarrow> mo_seq a \<le> mo_seq m"
    and "\<And>a. a \<in> set ops \<Longrightarrow> mo_seq a = mo_seq m \<Longrightarrow> a = m"
proof -
  obtain xs ys where s: "rev ops = xs @ m # ys" "\<forall>a \<in> set xs. \<not> (mo_key a = k \<and> mo_seq a \<le> snap)"
      "mo_key m = k" "mo_seq m \<le> snap"
    using find_split [OF assms(2) [unfolded mem_newest_def]] by blast
  then have o: "ops = rev ys @ m # rev xs" by (metis append.assoc append_Cons append_Nil rev_append rev_rev_ident rev.simps(2))
  show "m \<in> set ops" "mo_key m = k" "mo_seq m \<le> snap" using s o by auto
  have "\<forall>a \<in> set ys. mo_seq a < mo_seq m" "\<forall>a \<in> set xs. mo_seq m < mo_seq a" using assms(1) by (auto simp: o sorted_wrt_append)
  then show "mo_seq a \<le> mo_seq m" if "a \<in> set ops" "mo_key a = k" "mo_seq a \<le> snap" for a
    using that s(2) unfolding o by fastforce
  show "a = m" if "a \<in> set ops" "mo_seq a = mo_seq m" for a
    using that \<open>\<forall>a \<in> set ys. mo_seq a < mo_seq m\<close> \<open>\<forall>a \<in> set xs. mo_seq m < mo_seq a\<close> unfolding o by fastforce
qed

lemma tag_type: "mo_valid ok m \<Longrightarrow> internal_tag (mo_ikey m) AND 0xff = value_type_num (mo_type m)"
proof -
  assume v: "mo_valid ok m"
  have m: "(0xff :: u64) = mask 8" by (simp add: mask_eq_exp_minus_1)
  have "unat (take_bit 8 (internal_tag (mo_ikey m))) = unat (internal_tag (mo_ikey m)) mod 256"
    by (simp add: take_bit_eq_mod unat_mod)
  also have "\<dots> = unat (value_type_num (mo_type m))"
    using value_type_less [of "mo_type m"] by (simp add: mo_tag [OF v])
  finally show ?thesis by (simp only: m take_bit_eq_mask [symmetric] word_unat_eq_iff)
qed

lemma Get_at:
  assumes sk: "iter_Seek (KeyComparator C) (mt_table mt) (lk_memtable_key key) = Some n" "iter_Valid n"
    and e: "iter_key (mt_table mt) n = mo_entry m" and v: "mo_valid ok m" and k: "ok k" "lk_user_key key = k"
  shows "MemTable_Get C mt key val s = Some (if mo_key m = k then mem_answer (Some m) val s else (False, val, s))"
proof -
  have "mem_slice (varint (length (mo_val m)) @ mo_val m) = Some (mo_val m, [])"
    using mem_slice_encoded [of "mo_val m" "[]"] v by (simp add: mo_valid_def)
  moreover have "cm_Compare C (mo_key m) k = 0 \<longleftrightarrow> mo_key m = k" using cmp_zero_iff v k by (simp add: mo_valid_def)
  ultimately show ?thesis
    using tag_type [OF v] k(2)
    by (cases "mo_type m") (simp_all add: MemTable_Get_def sk e mo_entry_slice [OF v] mem_answer_def)
qed

lemma newest_first:
  assumes "sorted_wrt (\<lambda>a b. mo_seq a < mo_seq b) ops" and "mem_newest ops k snap = Some m"
    and v: "mo_valid ok f" "mo_valid ok m" and f: "f \<in> set ops"
    and nf: "\<not> cm_Compare C (mo_key f) k < 0" "mo_key f = k \<Longrightarrow> mo_seq f \<le> snap"
    and le: "mo_entry f = mo_entry m \<or> KeyComparator C (mo_entry f) (mo_entry m) < 0"
  shows "f = m"
proof -
  note m = mem_newest_Some [OF assms(1,2)]
  from le have "mo_seq f = mo_seq m"
  proof
    assume "mo_entry f = mo_entry m"
    then have "KeyComparator C (mo_entry f) (mo_entry m) = 0" using mem.cmp_self [OF mo_entry_ok [OF v(2)]] by simp
    then show ?thesis by (rule mem_cmp_equal [OF v])
  next
    assume "KeyComparator C (mo_entry f) (mo_entry m) < 0"
    then have fk: "mo_key f = k" and "internal_tag (mo_ikey m) < internal_tag (mo_ikey f)"
      using mem_cmp_less_iff [OF v] nf(1) m(2) by auto
    then have "unat (mo_seq m) \<le> unat (mo_seq f)"
      unfolding word_less_nat_alt mo_tag [OF v(1)] mo_tag [OF v(2)] using value_type_less [of "mo_type f"] by linarith
    then show ?thesis using m(4) [OF f fk nf(2) [OF fk]] by (simp add: word_le_nat_alt word_unat_eq_iff)
  qed
  then show ?thesis using m(5) [OF f] by simp
qed

lemma Get_holds:
  assumes h: "mt_holds C ok mt ops" and k: "ok k" "length k + 8 < 2 ^ 32" and snap: "snap \<le> kMaxSequenceNumber"
  shows "MemTable_Get C mt (LookupKey k snap) val s = Some (mem_answer (mem_newest ops k snap) val s)"
proof -
  define target where "target = lk_memtable_key (LookupKey k snap)"
  obtain ks where ks: "sl_rep (KeyComparator C) (entry_ok ok) (mt_table mt) ks" "set ks = mo_entry ` set ops"
    using h by (auto simp: mt_holds_def)
  have valid: "mo_valid ok a" if "a \<in> set ops" for a using h that by (simp add: mt_holds_def list_all_iff)
  have sorted: "sorted_wrt (\<lambda>a b. mo_seq a < mo_seq b) ops" using h by (simp add: mt_holds_def)
  have uk: "lk_user_key (LookupKey k snap) = k" by (simp add: LookupKey_def Let_def)
  have tok: "entry_ok ok target"
  proof -
    have "mo_valid ok \<lparr>mo_seq = 0, mo_type = kTypeValue, mo_key = k, mo_val = []\<rparr>" using k by (simp add: mo_valid_def)
    from target_cmp(2) [OF this k snap] show ?thesis by (simp add: target_def)
  qed
  obtain n where n: "iter_Seek (KeyComparator C) (mt_table mt) target = Some n"
      "iter_Valid n \<longleftrightarrow> oset_lower (KeyComparator C) target ks \<noteq> []"
      "oset_lower (KeyComparator C) target ks \<noteq> [] \<Longrightarrow> iter_key (mt_table mt) n = hd (oset_lower (KeyComparator C) target ks)"
    using mem.Seek_rep [OF ks(1) tok] by blast
  show ?thesis
  proof (cases "oset_lower (KeyComparator C) target ks = []")
    case True
    then have "KeyComparator C (mo_entry a) target < 0" if "a \<in> set ops" for a
      using that ks(2) by (auto simp: oset_lower_def)
    then have "mo_key a \<noteq> k \<or> snap < mo_seq a" if "a \<in> set ops" for a
      using target_cmp(1) [OF valid [OF that] k snap] that cmp_self [OF k(1)] by (auto simp: target_def)
    then have "mem_newest ops k snap = None" by (force simp: mem_newest_def find_None_iff)
    then show ?thesis using n True by (simp add: MemTable_Get_def target_def mem_answer_def)
  next
    case False
    obtain f where f: "f \<in> set ops" "hd (oset_lower (KeyComparator C) target ks) = mo_entry f"
        "\<not> KeyComparator C (mo_entry f) target < 0"
      using mem.lower_hd_mem [OF False] ks(2) by auto
    note get = Get_at [OF n(1) [unfolded target_def] _ _ valid [OF f(1)] k(1) uk, of val s]
    have nf: "\<not> cm_Compare C (mo_key f) k < 0" "mo_key f = k \<Longrightarrow> mo_seq f \<le> snap"
      using f(3) target_cmp(1) [OF valid [OF f(1)] k snap] by (auto simp: target_def)
    have "(if mo_key f = k then mem_answer (Some f) val s else (False, val, s)) = mem_answer (mem_newest ops k snap) val s"
    proof (cases "mem_newest ops k snap")
      case None
      then have "\<not> (mo_key f = k \<and> mo_seq f \<le> snap)" using f(1) by (auto simp: mem_newest_def find_None_iff)
      then show ?thesis using nf(2) None by (auto simp: mem_answer_def)
    next
      case (Some m)
      note m = mem_newest_Some [OF sorted Some]
      have "\<not> KeyComparator C (mo_entry m) target < 0"
        using target_cmp(1) [OF valid [OF m(1)] k snap] m(2,3) cmp_self [OF k(1)] by (auto simp: target_def)
      then have "mo_entry f = mo_entry m \<or> KeyComparator C (mo_entry f) (mo_entry m) < 0"
        using mem.lower_hd [of ks target "mo_entry m"] sl_rep_sorted [OF ks(1)] ks(2) m(1) f(2) tok by (metis imageI)
      then have "f = m" using newest_first [OF sorted Some valid [OF f(1)] valid [OF m(1)] f(1) nf] by blast
      then show ?thesis using m(2) Some by simp
    qed
    then show ?thesis using get n(2,3) f(2) False by simp
  qed
qed

lemma adds_hold:
  assumes "mt_holds C ok mt ops" and "list_all (mo_valid ok) os" and "sorted_wrt (\<lambda>a b. mo_seq a < mo_seq b) (ops @ os)"
  shows "\<exists>mt'. foldl (mo_add C) (Some mt) os = Some mt' \<and> mt_holds C ok mt' (ops @ os)"
  using assms
proof (induction os arbitrary: mt ops)
  case (Cons m os)
  obtain mt' where mt': "MemTable_Add C (mo_seq m) (mo_type m) (mo_key m) (mo_val m) mt = Some mt'" "mt_holds C ok mt' (ops @ [m])"
    using Add_holds [OF Cons.prems(1), of m] Cons.prems(2,3) by (auto simp: sorted_wrt_append)
  from Cons.IH [OF mt'(2)] Cons.prems(2,3) show ?case by (simp add: mo_add_def mt'(1))
qed simp

lemma new_holds: "mt_holds C ok MemTable_new []"
  using sl_rep_new [of "KeyComparator C" "entry_ok ok" "[]"]
  by (auto simp: mt_holds_def MemTable_new_def intro: exI [of _ "[]"])

end

section \<open>Batches in the memtable\<close>

fun batch_mem_ops :: "u64 \<Rightarrow> batch_op list \<Rightarrow> mem_op list" where
  "batch_mem_ops s [] = []"
| "batch_mem_ops s (PutOp key val # ops) =
     \<lparr>mo_seq = s, mo_type = kTypeValue, mo_key = key, mo_val = val\<rparr> # batch_mem_ops (s + 1) ops"
| "batch_mem_ops s (DeleteOp key # ops) =
     \<lparr>mo_seq = s, mo_type = kTypeDeletion, mo_key = key, mo_val = []\<rparr> # batch_mem_ops (s + 1) ops"

fun op_key :: "batch_op \<Rightarrow> bytes" where
  "op_key (PutOp key val) = key"
| "op_key (DeleteOp key) = key"

lemma Inserter_fold:
  "fold (op_handle (MemTableInserter C)) ops (s, mt) = (s + of_nat (length ops), foldl (mo_add C) mt (batch_mem_ops s ops))"
proof (induction ops arbitrary: s mt)
  case (Cons op ops)
  then show ?case by (cases op) (simp_all add: MemTableInserter_def mo_add_def algebra_simps)
qed simp

lemma unat_next: "unat (s :: u64) < 2 ^ 56 \<Longrightarrow> unat (s + 1) = unat s + 1"
  by (simp add: unat_word_ariths(1))

lemma batch_mem_ops_seq:
  assumes "unat s + length ops \<le> 2 ^ 56" and "m \<in> set (batch_mem_ops s ops)"
  shows "unat s \<le> unat (mo_seq m) \<and> unat (mo_seq m) < unat s + length ops"
  using assms by (induction s ops rule: batch_mem_ops.induct) (fastforce simp: unat_next)+

lemma batch_mem_ops_sorted:
  assumes "unat s + length ops \<le> 2 ^ 56"
  shows "sorted_wrt (\<lambda>a b. mo_seq a < mo_seq b) (batch_mem_ops s ops)"
proof -
  have less: "s < mo_seq m" if "unat s + Suc (length ops) \<le> 2 ^ 56" "m \<in> set (batch_mem_ops (s + 1) ops)" for s m ops
    using batch_mem_ops_seq [OF _ that(2)] that(1) unat_next [of s] by (simp add: word_less_nat_alt)
  show ?thesis using assms by (induction s ops rule: batch_mem_ops.induct) (auto simp: less unat_next)
qed

lemma batch_mem_ops_append:
  "batch_mem_ops s (ops @ os) = batch_mem_ops s ops @ batch_mem_ops (s + of_nat (length ops)) os"
  by (induction s ops rule: batch_mem_ops.induct) (simp_all add: algebra_simps)

lemma batch_mem_ops_valid:
  assumes "\<forall>op \<in> set ops. op_small op \<and> ok (op_key op) \<and> length (op_key op) + 8 < 2 ^ 32" and "unat s + length ops \<le> 2 ^ 56"
  shows "list_all (mo_valid ok) (batch_mem_ops s ops)"
proof -
  have max: "unat kMaxSequenceNumber = 2 ^ 56 - 1" by (simp add: kMaxSequenceNumber_def)
  show ?thesis using assms
    by (induction s ops rule: batch_mem_ops.induct) (auto simp: mo_valid_def word_le_nat_alt max unat_next)
qed

lemma InsertInto_holds:
  assumes laws: "comparator_laws C ok" and h: "mt_holds C ok mt old" and seq: "\<forall>m \<in> set old. mo_seq m < s"
    and ops: "\<forall>op \<in> set ops. op_small op \<and> ok (op_key op) \<and> length (op_key op) + 8 < 2 ^ 32"
    and n: "unat s + length ops \<le> 2 ^ 56"
  shows "\<exists>mt'. InsertInto C (batch_SetSequence (foldl op_add WriteBatch_Clear ops) s) mt = (Some mt', Status_OK) \<and>
    mt_holds C ok mt' (old @ batch_mem_ops s ops)"
proof -
  have small: "list_all op_small ops" using ops by (simp add: list_all_iff)
  then have b: "batch_SetSequence (foldl op_add WriteBatch_Clear ops) s = batch_bytes s (of_nat (length ops)) ops"
    by (simp add: Clear_bytes op_adds_bytes)
  have "mo_seq a < mo_seq m" if a: "a \<in> set old" and m: "m \<in> set (batch_mem_ops s ops)" for a m
    using seq a batch_mem_ops_seq [OF n m] by (force simp: word_less_nat_alt)
  then have "sorted_wrt (\<lambda>a b. mo_seq a < mo_seq b) (old @ batch_mem_ops s ops)"
    using h batch_mem_ops_sorted [OF n] by (auto simp: mt_holds_def sorted_wrt_append)
  from comparator_laws.adds_hold [OF laws h batch_mem_ops_valid [OF ops n] this] show ?thesis
    by (auto simp: InsertInto_def b Iterate_bytes [OF small] Inserter_fold)
qed

lemma newest_map:
  assumes "\<forall>m \<in> set (batch_mem_ops s ops). mo_seq m \<le> snap"
  shows "mem_answer (mem_newest (batch_mem_ops s ops) k snap) val st =
    (case fold (op_handle map_handler) ops Map.empty k of
       Some v \<Rightarrow> (True, v, st)
     | None \<Rightarrow> if k \<in> op_key ` set ops then (True, val, Status_NotFound [] []) else (False, val, st))"
  using assms
proof (induction ops rule: rev_induct)
  case Nil
  then show ?case by (simp add: mem_newest_def mem_answer_def)
next
  case (snoc op ops)
  have IH: "mem_answer (mem_newest (batch_mem_ops s ops) k snap) val st =
    (case fold (op_handle map_handler) ops Map.empty k of
       Some v \<Rightarrow> (True, v, st)
     | None \<Rightarrow> if k \<in> op_key ` set ops then (True, val, Status_NotFound [] []) else (False, val, st))"
    using snoc by (simp add: batch_mem_ops_append)
  show ?case
    using IH snoc.prems by (cases op) (auto simp: batch_mem_ops_append mem_newest_def mem_answer_def map_handler_def)
qed

section \<open>Properties\<close>

text \<open>
  C20.  A memtable answers every lookup as a multi-version store should: after entries were added with
  increasing sequence numbers, \<^verbatim>\<open>Get\<close> at a snapshot returns the newest entry of
  the key that is not newer than the snapshot, a value or a deletion, and reports nothing when there is
  none.  This holds for the bytewise order and for the numeric orders of the binding.
\<close>

theorem memtable_get:
  assumes "comparator_laws C ok" and "list_all (mo_valid ok) ops" and "sorted_wrt (\<lambda>a b. mo_seq a < mo_seq b) ops"
    and "ok k" and "length k + 8 < 2 ^ 32" and "snap \<le> kMaxSequenceNumber"
  shows "\<exists>mt. foldl (mo_add C) (Some MemTable_new) ops = Some mt \<and>
    MemTable_Get C mt (LookupKey k snap) val s = Some (mem_answer (mem_newest ops k snap) val s)"
  using comparator_laws.adds_hold [OF assms(1) comparator_laws.new_holds [OF assms(1)] assms(2)] assms(3)
    comparator_laws.Get_holds [OF assms(1) _ assms(4-6)] by fastforce

theorem memtable_get_witness:
  "\<exists>mt. foldl (mo_add BytewiseComparator) (Some MemTable_new)
      [\<lparr>mo_seq = 5, mo_type = kTypeValue, mo_key = [5], mo_val = [9]\<rparr>,
       \<lparr>mo_seq = 7, mo_type = kTypeDeletion, mo_key = [5], mo_val = []\<rparr>] = Some mt \<and>
    MemTable_Get BytewiseComparator mt (LookupKey [5] 6) [] Status_OK = Some (True, [9], Status_OK)"
  using memtable_get [OF bytewise.comparator_laws_axioms, of "[\<lparr>mo_seq = 5, mo_type = kTypeValue, mo_key = [5], mo_val = [9]\<rparr>,
       \<lparr>mo_seq = 7, mo_type = kTypeDeletion, mo_key = [5], mo_val = []\<rparr>]" "[5]" 6 "[]" Status_OK]
  by (simp add: mo_valid_def kMaxSequenceNumber_def mem_newest_def mem_answer_def)



end
