(* ===== verification/Lvl_DbImpl.thy ===== *)
theory Lvl_DbImpl
  imports Lvl_MemTable
begin

text \<open>
  The write and read paths of LevelDB's \<^verbatim>\<open>DBImpl\<close>
  (\<^verbatim>\<open>db/db_impl.cc\<close>): the queue of writers and its group commit, making room
  by switching memtables, and lookups through both memtables and the table files.  The log, the table
  files and the background thread are a parameter, the record \<open>'f files\<close>; what the paths rely
  on is the locale \<open>files_laws\<close>.
\<close>

section \<open>State\<close>

record 'f dbimpl =
  di_cmp :: comparator
  di_mem :: memtable
  di_imm :: "memtable option"
  di_last_sequence :: u64
  di_bg_error :: status
  di_tmp_batch :: bytes
  di_files :: 'f

text \<open>
  The interface to the file side: lookups in the current version, the log, the number of level-0
  files, the memory a memtable uses against \<^verbatim>\<open>write_buffer_size\<close>, and what other
  threads do while the mutex is released.
\<close>

record 'f files =
  fs_VersionGet :: "lookup_key \<Rightarrow> bytes \<Rightarrow> 'f \<Rightarrow> status \<times> bytes \<times> 'f"
  fs_AddRecord :: "bytes \<Rightarrow> 'f \<Rightarrow> status \<times> 'f"
  fs_Sync :: "'f \<Rightarrow> status \<times> 'f"
  fs_NewLog :: "'f \<Rightarrow> status \<times> 'f"
  fs_NumLevel0 :: "'f \<Rightarrow> nat"
  fs_HasRoom :: "memtable \<Rightarrow> bool"
  fs_Background :: "'f dbimpl \<Rightarrow> 'f dbimpl"

record writer =
  wr_batch :: "bytes option"
  wr_sync :: bool

definition kL0_SlowdownWritesTrigger :: nat where "kL0_SlowdownWritesTrigger = 8"
definition kL0_StopWritesTrigger :: nat where "kL0_StopWritesTrigger = 12"

section \<open>Writing\<close>

definition RecordBackgroundError :: "status \<Rightarrow> 'f dbimpl \<Rightarrow> 'f dbimpl" where
  "RecordBackgroundError s db = (if status_ok (di_bg_error db) then db\<lparr>di_bg_error := s\<rparr> else db)"

partial_function (option) MakeRoomForWrite :: "'f files \<Rightarrow> bool \<Rightarrow> bool \<Rightarrow> 'f dbimpl \<Rightarrow> (status \<times> 'f dbimpl) option" where
  "MakeRoomForWrite F force allow_delay db =
     (if \<not> status_ok (di_bg_error db) then Some (di_bg_error db, db)
      else if allow_delay \<and> fs_NumLevel0 F (di_files db) \<ge> kL0_SlowdownWritesTrigger
      then MakeRoomForWrite F force False (fs_Background F db)
      else if \<not> force \<and> fs_HasRoom F (di_mem db) then Some (Status_OK, db)
      else if di_imm db \<noteq> None then MakeRoomForWrite F force allow_delay (fs_Background F db)
      else if fs_NumLevel0 F (di_files db) \<ge> kL0_StopWritesTrigger
      then MakeRoomForWrite F force allow_delay (fs_Background F db)
      else case fs_NewLog F (di_files db) of
             (s, f) \<Rightarrow>
               if \<not> status_ok s then Some (s, db\<lparr>di_files := f\<rparr>)
               else MakeRoomForWrite F False allow_delay
                      (db\<lparr>di_files := f, di_imm := Some (di_mem db), di_mem := MemTable_Ref MemTable_new\<rparr>))"

text \<open>The loop of \<^verbatim>\<open>BuildBatchGroup\<close> over the writers after the first.
  \<open>result\<close> is \<open>None\<close> while it is still the batch of the first writer, and the
  number counts the writers of the group.\<close>

fun group_loop :: "bytes \<Rightarrow> bytes \<Rightarrow> bool \<Rightarrow> nat \<Rightarrow> nat \<Rightarrow> bytes option \<Rightarrow> nat \<Rightarrow> writer list \<Rightarrow> bytes option \<times> nat" where
  "group_loop tmp first first_sync max_size sz result n [] = (result, n)"
| "group_loop tmp first first_sync max_size sz result n (w # ws) =
     (if wr_sync w \<and> \<not> first_sync then (result, n)
      else case wr_batch w of
             None \<Rightarrow> group_loop tmp first first_sync max_size sz result (n + 1) ws
           | Some b \<Rightarrow>
               let sz' = sz + length b
               in if sz' > max_size then (result, n)
                  else
                    let result1 = (case result of None \<Rightarrow> batch_Append tmp first | Some r \<Rightarrow> r)
                    in group_loop tmp first first_sync max_size sz' (Some (batch_Append result1 b)) (n + 1) ws)"

definition BuildBatchGroup :: "bytes \<Rightarrow> bytes \<Rightarrow> bool \<Rightarrow> writer list \<Rightarrow> bytes option \<times> nat" where
  "BuildBatchGroup tmp first first_sync ws =
     (let sz = length first;
          max_size = (if sz \<le> 131072 then sz + 131072 else 1048576)
      in group_loop tmp first first_sync max_size sz None 1 ws)"

text \<open>
  \<^verbatim>\<open>Write\<close> of the writer \<open>w\<close> at the front of the queue, with the
  writers \<open>ws\<close> behind it.  The result has the status, the number of writers at the front
  that are done with that status, the batch of the caller, whose sequence number may have been set,
  and the new state; it is \<open>None\<close> when the call does not return.
\<close>

definition DBImpl_Write :: "'f files \<Rightarrow> writer \<Rightarrow> writer list \<Rightarrow> 'f dbimpl \<Rightarrow> (status \<times> nat \<times> bytes option \<times> 'f dbimpl) option" where
  "DBImpl_Write F w ws db =
     (case MakeRoomForWrite F (wr_batch w = None) (wr_batch w \<noteq> None) db of
        None \<Rightarrow> None
      | Some (status, db1) \<Rightarrow>
          (case wr_batch w of
             None \<Rightarrow> Some (status, 1, None, db1)
           | Some b \<Rightarrow>
               if \<not> status_ok status then Some (status, 1, Some b, db1)
               else
                 (case BuildBatchGroup (di_tmp_batch db1) b (wr_sync w) ws of
                    (result, n) \<Rightarrow>
                      let updates = batch_SetSequence (case result of None \<Rightarrow> b | Some r \<Rightarrow> r) (di_last_sequence db1 + 1);
                          last_sequence = di_last_sequence db1 + ucast (batch_Count updates);
                          b' = (case result of None \<Rightarrow> updates | Some _ \<Rightarrow> b)
                      in (case fs_AddRecord F updates (di_files db1) of
                            (s1, f1) \<Rightarrow>
                              (case (if status_ok s1 \<and> wr_sync w then fs_Sync F f1 else (s1, f1)) of
                                 (s2, f2) \<Rightarrow>
                                   (case (if status_ok s2 then InsertInto (di_cmp db1) updates (di_mem db1)
                                          else (Some (di_mem db1), s2)) of
                                      (None, _) \<Rightarrow> None
                                    | (Some mem, s3) \<Rightarrow>
                                        let db2 = db1\<lparr>di_files := f2, di_mem := mem\<rparr>;
                                            db3 = (if status_ok s1 \<and> \<not> status_ok s2 then RecordBackgroundError s2 db2 else db2);
                                            db4 = (if result \<noteq> None then db3\<lparr>di_tmp_batch := WriteBatch_Clear\<rparr> else db3)
                                        in Some (s3, n, Some b', db4\<lparr>di_last_sequence := last_sequence\<rparr>)))))))"

definition DB_Put :: "'f files \<Rightarrow> bytes \<Rightarrow> bytes \<Rightarrow> 'f dbimpl \<Rightarrow> (status \<times> 'f dbimpl) option" where
  "DB_Put F key val db =
     map_option (\<lambda>(s, _, _, db'). (s, db'))
       (DBImpl_Write F \<lparr>wr_batch = Some (WriteBatch_Put WriteBatch_Clear key val), wr_sync = False\<rparr> [] db)"

definition DB_Delete :: "'f files \<Rightarrow> bytes \<Rightarrow> 'f dbimpl \<Rightarrow> (status \<times> 'f dbimpl) option" where
  "DB_Delete F key db =
     map_option (\<lambda>(s, _, _, db'). (s, db'))
       (DBImpl_Write F \<lparr>wr_batch = Some (WriteBatch_Delete WriteBatch_Clear key), wr_sync = False\<rparr> [] db)"

section \<open>Reading\<close>

text \<open>\<^verbatim>\<open>Get\<close> at the latest snapshot.  The pairs of
  \<^verbatim>\<open>Ref\<close> and \<^verbatim>\<open>Unref\<close> around the lookups leave the
  counts as they were; the statistics and the compaction they may schedule are part of the state of the
  file side.\<close>

definition DBImpl_Get :: "'f files \<Rightarrow> bytes \<Rightarrow> bytes \<Rightarrow> 'f dbimpl \<Rightarrow> (status \<times> bytes \<times> 'f dbimpl) option" where
  "DBImpl_Get F key val db =
     (let lkey = LookupKey key (di_last_sequence db);
          from_files = (case fs_VersionGet F lkey val (di_files db) of (s, v, f) \<Rightarrow> Some (s, v, db\<lparr>di_files := f\<rparr>))
      in case MemTable_Get (di_cmp db) (di_mem db) lkey val Status_OK of
           None \<Rightarrow> None
         | Some (True, v, s) \<Rightarrow> Some (s, v, db)
         | Some (False, _, _) \<Rightarrow>
             (case di_imm db of
                None \<Rightarrow> from_files
              | Some imm \<Rightarrow>
                  (case MemTable_Get (di_cmp db) imm lkey val Status_OK of
                     None \<Rightarrow> None
                   | Some (True, v, s) \<Rightarrow> Some (s, v, db)
                   | Some (False, _, _) \<Rightarrow> from_files)))"

section \<open>Group commit\<close>

text \<open>The queue as batches of operations.\<close>

definition batch_of :: "u64 \<Rightarrow> batch_op list \<Rightarrow> bytes" where
  "batch_of s ops = batch_bytes s (of_nat (length ops)) ops"

lemma batch_of_parts [simp]:
  "batch_Append (batch_of s a) (batch_of t b) = batch_of s (a @ b)" "batch_SetSequence (batch_of s a) t = batch_of t a"
  "batch_Count (batch_of s a) = of_nat (length a)" "batch_Sequence (batch_of s a) = s"
  by (simp_all add: batch_of_def Append_bytes)

lemma Clear_batch: "WriteBatch_Clear = batch_of 0 []"
  by (simp add: Clear_bytes batch_of_def)

definition writer_ops :: "writer \<Rightarrow> batch_op list \<Rightarrow> bool" where
  "writer_ops w ops \<longleftrightarrow> (case wr_batch w of None \<Rightarrow> ops = [] | Some b \<Rightarrow> \<exists>s. b = batch_of s ops)"

definition group_is :: "batch_op list \<Rightarrow> bytes option \<Rightarrow> batch_op list \<Rightarrow> bool" where
  "group_is a result ops \<longleftrightarrow> (case result of None \<Rightarrow> ops = a | Some r \<Rightarrow> r = batch_of 0 ops)"

lemma group_loop_ops:
  assumes "list_all2 writer_ops ws opss" and "group_is a result acc"
    and "group_loop (batch_of 0 []) (batch_of s a) first_sync mx sz result n ws = (result', n')"
  shows "\<exists>m. n' = n + m \<and> m \<le> length ws \<and>
    group_is a result' (acc @ concat (take m opss)) \<and>
    (\<forall>w \<in> set (take m ws). wr_sync w \<longrightarrow> first_sync)"
  using assms
proof (induction ws arbitrary: opss sz result acc n)
  case Nil
  then show ?case by (auto split: option.splits)
next
  case (Cons w ws)
  obtain ops opss' where o: "opss = ops # opss'" "writer_ops w ops" "list_all2 writer_ops ws opss'"
    using Cons.prems(1) by (auto simp: list_all2_Cons1)
  show ?case
  proof (cases "wr_sync w \<and> \<not> first_sync")
    case True
    then show ?thesis using Cons.prems by (auto split: option.splits intro!: exI [of _ 0])
  next
    case False
    show ?thesis
    proof (cases "wr_batch w")
      case None
      then have "ops = []" using o(2) by (simp add: writer_ops_def)
      have "group_loop (batch_of 0 []) (batch_of s a) first_sync mx sz result (n + 1) ws = (result', n')"
        using Cons.prems(3) False None by simp
      from Cons.IH [OF o(3) Cons.prems(2) this] obtain m where "n' = n + 1 + m" "m \<le> length ws"
          "group_is a result' (acc @ concat (take m opss'))"
          "\<forall>w \<in> set (take m ws). wr_sync w \<longrightarrow> first_sync" by blast
      then show ?thesis using o(1) \<open>ops = []\<close> False by (intro exI [of _ "Suc m"]) auto
    next
      case (Some b)
      then obtain t where b: "b = batch_of t ops" using o(2) by (auto simp: writer_ops_def)
      show ?thesis
      proof (cases "sz + length b > mx")
        case True
        then show ?thesis using Cons.prems Some False by (auto split: option.splits intro!: exI [of _ 0])
      next
        case False2: False
        define r1 where "r1 = (case result of None \<Rightarrow> batch_Append (batch_of 0 []) (batch_of s a) | Some r \<Rightarrow> r)"
        have r1: "batch_Append r1 b = batch_of 0 (acc @ ops)"
          using Cons.prems(2) by (cases result) (auto simp: r1_def b group_is_def)
        have "group_loop (batch_of 0 []) (batch_of s a) first_sync mx (sz + length b) (Some (batch_of 0 (acc @ ops))) (n + 1) ws = (result', n')"
          using Cons.prems(3) False Some False2 r1 by (simp add: Let_def r1_def)
        from Cons.IH [OF o(3) _ this, of "acc @ ops"] obtain m where "n' = n + 1 + m" "m \<le> length ws"
          "group_is a result' ((acc @ ops) @ concat (take m opss'))"
          "\<forall>w \<in> set (take m ws). wr_sync w \<longrightarrow> first_sync" by (auto simp: group_is_def)
        then show ?thesis using o(1) False by (intro exI [of _ "Suc m"]) auto
      qed
    qed
  qed
qed

lemma group_is_batch: "group_is a result ops \<Longrightarrow> \<exists>t. (case result of None \<Rightarrow> batch_of s a | Some r \<Rightarrow> r) = batch_of t ops"
  by (auto simp: group_is_def split: option.splits)

lemma BuildBatchGroup_ops:
  assumes "list_all2 writer_ops ws opss" and "BuildBatchGroup (batch_of 0 []) (batch_of s a) first_sync ws = (result, n)"
  obtains m where "n = 1 + m" and "m \<le> length ws"
    and "\<exists>t. (case result of None \<Rightarrow> batch_of s a | Some r \<Rightarrow> r) = batch_of t (a @ concat (take m opss))"
    and "\<forall>w \<in> set (take m ws). wr_sync w \<longrightarrow> first_sync"
proof -
  have "group_loop (batch_of 0 []) (batch_of s a) first_sync
      (if length (batch_of s a) \<le> 131072 then length (batch_of s a) + 131072 else 1048576) (length (batch_of s a)) None 1 ws = (result, n)"
    using assms(2) by (simp add: BuildBatchGroup_def Let_def)
  from group_loop_ops [OF assms(1) _ this, of a] obtain m where m: "n = 1 + m" "m \<le> length ws"
      "group_is a result (a @ concat (take m opss))"
      "\<forall>w \<in> set (take m ws). wr_sync w \<longrightarrow> first_sync" by (auto simp: group_is_def)
  show ?thesis using that [OF m(1,2) group_is_batch [OF m(3)] m(4)] .
qed

section \<open>The contents of a database\<close>

definition ops_ok :: "(bytes \<Rightarrow> bool) \<Rightarrow> batch_op list \<Rightarrow> bool" where
  "ops_ok ok ops \<longleftrightarrow> (\<forall>op \<in> set ops. op_small op \<and> key_ok ok (op_key op))"

text \<open>What one memtable says about a key: nothing, that it is deleted, or its value.\<close>

definition mem_find :: "comparator \<Rightarrow> memtable \<Rightarrow> u64 \<Rightarrow> bytes \<Rightarrow> bytes option option" where
  "mem_find C mt snap k =
     (case MemTable_Get C mt (LookupKey k snap) [] Status_OK of
        Some (True, v, s) \<Rightarrow> Some (if status_ok s then Some v else None)
      | _ \<Rightarrow> None)"

definition overlay :: "'a option option \<Rightarrow> 'a option \<Rightarrow> 'a option" where
  "overlay r d = (case r of Some x \<Rightarrow> x | None \<Rightarrow> d)"

definition db_content :: "('f \<Rightarrow> bytes \<rightharpoonup> bytes) \<Rightarrow> 'f dbimpl \<Rightarrow> bytes \<rightharpoonup> bytes" where
  "db_content fc db k =
     overlay (mem_find (di_cmp db) (di_mem db) (di_last_sequence db) k)
       (overlay (Option.bind (di_imm db) (\<lambda>m. mem_find (di_cmp db) m (di_last_sequence db) k)) (fc (di_files db) k))"

lemma overlay_simps [simp]: "overlay None d = d" "overlay (Some x) d = x"
  by (simp_all add: overlay_def)

definition table_ok :: "comparator \<Rightarrow> (bytes \<Rightarrow> bool) \<Rightarrow> u64 \<Rightarrow> memtable \<Rightarrow> bool" where
  "table_ok C ok snap mt \<longleftrightarrow> (\<exists>ops. mt_holds C ok mt ops \<and> (\<forall>m \<in> set ops. mo_seq m \<le> snap))"

definition db_ok :: "comparator \<Rightarrow> (bytes \<Rightarrow> bool) \<Rightarrow> ('f \<Rightarrow> bool) \<Rightarrow> 'f dbimpl \<Rightarrow> bool" where
  "db_ok C ok finv db \<longleftrightarrow>
     di_cmp db = C \<and> finv (di_files db) \<and> di_tmp_batch db = WriteBatch_Clear \<and> di_last_sequence db \<le> kMaxSequenceNumber \<and>
     table_ok C ok (di_last_sequence db) (di_mem db) \<and>
     (\<forall>imm. di_imm db = Some imm \<longrightarrow> table_ok C ok (di_last_sequence db) imm)"

definition op_result :: "mem_op \<Rightarrow> bytes option" where
  "op_result m = (case mo_type m of kTypeValue \<Rightarrow> Some (mo_val m) | kTypeDeletion \<Rightarrow> None)"

lemma mem_find_newest:
  assumes "comparator_laws C ok" and "mt_holds C ok mt ops" and "key_ok ok k" and "snap \<le> kMaxSequenceNumber"
  shows "mem_find C mt snap k = map_option op_result (mem_newest ops k snap)"
  using comparator_laws.Get_holds [OF assms(1,2) _ _ assms(4), of k] assms(3)
  by (auto simp: mem_find_def key_ok_def mem_answer_def op_result_def Status_OK_def status_ok_def Status_NotFound_def Status_new_def Let_def
      split: option.splits ValueType.splits)

lemma newest_later:
  assumes "\<forall>m \<in> set ops. mo_seq m \<le> s" and "s \<le> t"
  shows "mem_newest ops k t = mem_newest ops k s"
  unfolding mem_newest_def by (rule find_cong) (use assms in auto)

lemma find_append: "find P (xs @ ys) = (case find P xs of Some x \<Rightarrow> Some x | None \<Rightarrow> find P ys)"
  by (induction xs) auto

lemma overlay_newest_append:
  "overlay (map_option op_result (mem_newest (old @ new) k t)) d =
    overlay (map_option op_result (mem_newest new k t)) (overlay (map_option op_result (mem_newest old k t)) d)"
  unfolding mem_newest_def rev_append find_append by (simp split: option.split)

text \<open>Replayed operations over any base map.\<close>

lemma newest_fold:
  assumes "\<forall>m \<in> set (batch_mem_ops s ops). mo_seq m \<le> snap"
  shows "overlay (map_option op_result (mem_newest (batch_mem_ops s ops) k snap)) (c k) =
    fold (op_handle map_handler) ops c k"
  using assms
proof (induction ops rule: rev_induct)
  case Nil
  then show ?case by (simp add: mem_newest_def)
next
  case (snoc op ops)
  have IH: "overlay (map_option op_result (mem_newest (batch_mem_ops s ops) k snap)) (c k) =
    fold (op_handle map_handler) ops c k" using snoc by (simp add: batch_mem_ops_append)
  show ?case
    using snoc.prems
    by (cases op) (simp_all add: batch_mem_ops_append overlay_newest_append IH, simp_all add: mem_newest_def op_result_def map_handler_def)
qed

lemma fold_map_pointwise: "c k = d k \<Longrightarrow> fold (op_handle map_handler) ops c k = fold (op_handle map_handler) ops d k"
proof (induction ops arbitrary: c d)
  case (Cons op ops)
  have "op_handle map_handler op c k = op_handle map_handler op d k"
    using Cons.prems by (cases op) (simp_all add: map_handler_def)
  from Cons.IH [of "op_handle map_handler op c" "op_handle map_handler op d", OF this] show ?case by simp
qed simp

text \<open>The result of a write by the front of the queue, whose batch has the operations \<open>ops\<close>, with
  the writers \<open>ws\<close> behind it, whose batches have the operations \<open>opss\<close>: some of them
  form a group with it, no synchronous one joins a group that is not, and the contents change by all the operations of
  the group or by none.\<close>

definition group_done :: "comparator \<Rightarrow> (bytes \<Rightarrow> bool) \<Rightarrow> ('f \<Rightarrow> bool) \<Rightarrow> ('f \<Rightarrow> bytes \<rightharpoonup> bytes) \<Rightarrow>
    'f dbimpl \<Rightarrow> writer \<Rightarrow> batch_op list \<Rightarrow> writer list \<Rightarrow> batch_op list list \<Rightarrow> status \<times> nat \<times> bytes option \<times> 'f dbimpl \<Rightarrow> bool" where
  "group_done C ok finv fc db w ops ws opss r \<longleftrightarrow> (case r of (s, cnt, b', db') \<Rightarrow>
     db_ok C ok finv db' \<and> (\<exists>t'. b' = Some (batch_of t' ops)) \<and>
     (\<exists>m. m \<le> length ws \<and> cnt = 1 + m \<and> (\<forall>w' \<in> set (take m ws). wr_sync w' \<longrightarrow> wr_sync w) \<and>
       (\<forall>k. key_ok ok k \<longrightarrow> db_content fc db' k =
         (if status_ok s then fold (op_handle map_handler) (ops @ concat (take m opss)) (db_content fc db) k else db_content fc db k))))"

section \<open>The contract of the file side\<close>

locale files_laws = comparator_laws C ok
  for C :: comparator and ok :: "bytes \<Rightarrow> bool" +
  fixes F :: "'f files"
    and finv :: "'f \<Rightarrow> bool"
    and fc :: "'f \<Rightarrow> bytes \<rightharpoonup> bytes"
  assumes version_get: "finv f \<Longrightarrow> key_ok ok k \<Longrightarrow> fs_VersionGet F (LookupKey k s) v f = (st, v', f') \<Longrightarrow>
      finv f' \<and> fc f' = fc f \<and> (status_ok st \<longrightarrow> fc f k = Some v') \<and> (IsNotFound st \<longrightarrow> fc f k = None)"
    and add_record: "finv f \<Longrightarrow> fs_AddRecord F b f = (st, f') \<Longrightarrow> finv f' \<and> fc f' = fc f"
    and sync_file: "finv f \<Longrightarrow> fs_Sync F f = (st, f') \<Longrightarrow> finv f' \<and> fc f' = fc f"
    and new_log: "finv f \<Longrightarrow> fs_NewLog F f = (st, f') \<Longrightarrow> finv f' \<and> fc f' = fc f"
    and background: "db_ok C ok finv db \<Longrightarrow>
      db_ok C ok finv (fs_Background F db) \<and> di_last_sequence (fs_Background F db) = di_last_sequence db \<and>
      di_mem (fs_Background F db) = di_mem db \<and>
      (\<forall>k. key_ok ok k \<longrightarrow> db_content fc (fs_Background F db) k = db_content fc db k)"
begin

abbreviation same_content :: "'f dbimpl \<Rightarrow> 'f dbimpl \<Rightarrow> bool" where
  "same_content db db' \<equiv> di_last_sequence db' = di_last_sequence db \<and> (\<forall>k. key_ok ok k \<longrightarrow> db_content fc db' k = db_content fc db k)"

lemma new_table_holds: "mt_holds C ok (MemTable_Ref MemTable_new) []"
  using new_holds by (simp add: mt_holds_def MemTable_Ref_def)

lemma new_table: "table_ok C ok snap (MemTable_Ref MemTable_new)"
  unfolding table_ok_def using new_table_holds by (intro exI [of _ "[]"]) simp

lemma switch_content:
  assumes d: "db_ok C ok finv db" and "di_imm db = None" and f: "finv f" "fc f = fc (di_files db)"
  defines "db' \<equiv> db\<lparr>di_files := f, di_imm := Some (di_mem db), di_mem := MemTable_Ref MemTable_new\<rparr>"
  shows "db_ok C ok finv db'" and "same_content db db'"
proof -
  show "db_ok C ok finv db'" using d f new_table by (simp add: db_ok_def db'_def)
  have "mem_find C (MemTable_Ref MemTable_new) (di_last_sequence db) k = None" if "key_ok ok k" for k
    using mem_find_newest [OF comparator_laws_axioms new_table_holds that] d by (simp add: db_ok_def mem_newest_def)
  then show "same_content db db'" using d assms(2) f(2) by (simp add: db'_def db_content_def db_ok_def split: option.split)
qed

lemma MakeRoom_content:
  assumes "MakeRoomForWrite F force allow_delay db = Some r" and "db_ok C ok finv db"
  shows "db_ok C ok finv (snd r) \<and> same_content db (snd r)"
proof -
  define P where "P = (\<lambda>F' (force :: bool) (allow :: bool) db (r :: status \<times> 'f dbimpl). F' = F \<longrightarrow> db_ok C ok finv db \<longrightarrow>
      db_ok C ok finv (snd r) \<and> same_content db (snd r))"
  have "P F force allow_delay db r"
  proof (rule MakeRoomForWrite.raw_induct [where P = P, OF _ assms(1)])
    fix rec F' force allow db r
    assume IH: "\<And>F' force allow db r. rec F' force allow db = Some r \<Longrightarrow> P F' force allow db r"
      and body: "(if \<not> status_ok (di_bg_error db) then Some (di_bg_error db, db)
        else if allow \<and> kL0_SlowdownWritesTrigger \<le> fs_NumLevel0 F' (di_files db) then rec F' force False (fs_Background F' db)
        else if \<not> force \<and> fs_HasRoom F' (di_mem db) then Some (Status_OK, db)
        else if di_imm db \<noteq> None then rec F' force allow (fs_Background F' db)
        else if kL0_StopWritesTrigger \<le> fs_NumLevel0 F' (di_files db) then rec F' force allow (fs_Background F' db)
        else case fs_NewLog F' (di_files db) of (s, f) \<Rightarrow>
          if \<not> status_ok s then Some (s, db\<lparr>di_files := f\<rparr>)
          else rec F' False allow (db\<lparr>di_files := f, di_imm := Some (di_mem db), di_mem := MemTable_Ref MemTable_new\<rparr>)) = Some r"
    show "P F' force allow db r" unfolding P_def
    proof (intro impI)
      assume F: "F' = F" and d: "db_ok C ok finv db"
      have bg: "db_ok C ok finv (snd r) \<and> same_content db (snd r)" if "rec F force' allow' (fs_Background F db) = Some r" for force' allow'
        using IH [OF that] background [OF d] by (simp add: P_def)
      obtain s f where l: "fs_NewLog F (di_files db) = (s, f)" by (cases "fs_NewLog F (di_files db)") auto
      then have f: "finv f" "fc f = fc (di_files db)" using new_log d by (auto simp: db_ok_def)
      have fl: "db_ok C ok finv (db\<lparr>di_files := f\<rparr>) \<and> same_content db (db\<lparr>di_files := f\<rparr>)"
        using d f by (simp add: db_ok_def db_content_def split: option.split)
      have sw: "db_ok C ok finv (snd r) \<and> same_content db (snd r)" if "di_imm db = None"
        "rec F False allow (db\<lparr>di_files := f, di_imm := Some (di_mem db), di_mem := MemTable_Ref MemTable_new\<rparr>) = Some r"
        using IH [OF that(2)] switch_content [OF d that(1) f] by (simp add: P_def)
      show "db_ok C ok finv (snd r) \<and> same_content db (snd r)"
        using body d bg sw fl unfolding F by (auto simp: l split: if_splits)
    qed
  qed
  then show ?thesis using assms(2) by (simp add: P_def)
qed

lemma table_ok_later: "table_ok C ok s mt \<Longrightarrow> s \<le> t \<Longrightarrow> table_ok C ok t mt"
  unfolding table_ok_def by (meson order_trans)

lemma mem_find_later:
  assumes "table_ok C ok s mt" and "s \<le> t" and "t \<le> kMaxSequenceNumber" and "key_ok ok k"
  shows "mem_find C mt t k = mem_find C mt s k"
proof -
  obtain ops where ops: "mt_holds C ok mt ops" "\<forall>m \<in> set ops. mo_seq m \<le> s" using assms(1) by (auto simp: table_ok_def)
  show ?thesis
    using mem_find_newest [OF comparator_laws_axioms ops(1) assms(4)] newest_later [OF ops(2) assms(2)] assms(2,3) by simp
qed

text \<open>A batch replayed into a memtable whose entries end at sequence number \<open>l\<close>.\<close>

lemma insert_table:
  assumes t: "table_ok C ok l mt" and ops: "ops_ok ok ops" and n: "unat l + length ops < 2 ^ 56"
  defines "l' \<equiv> l + of_nat (length ops)"
  obtains mem where "InsertInto C (batch_of (l + 1) ops) mt = (Some mem, Status_OK)" and "table_ok C ok l' mem"
    and "l \<le> l'" and "l' \<le> kMaxSequenceNumber"
    and "\<And>k d. key_ok ok k \<Longrightarrow> overlay (mem_find C mem l' k) (d k) = fold (op_handle map_handler) ops (\<lambda>k. overlay (mem_find C mt l k) (d k)) k"
proof -
  obtain old where old: "mt_holds C ok mt old" "\<forall>m \<in> set old. mo_seq m \<le> l" using t by (auto simp: table_ok_def)
  have s1: "unat (l + 1) = unat l + 1" by (rule unat_next) (use n in simp)
  have l': "unat l' = unat l + length ops" unfolding l'_def using n by (simp add: unat_word_ariths(1) unat_of_nat)
  have n': "unat (l + 1) + length ops \<le> 2 ^ 56" using n s1 by simp
  have o: "\<forall>op \<in> set ops. op_small op \<and> ok (op_key op) \<and> length (op_key op) + 8 < 2 ^ 32"
    using ops by (auto simp: ops_ok_def key_ok_def)
  have b: "batch_SetSequence (foldl op_add WriteBatch_Clear ops) (l + 1) = batch_of (l + 1) ops"
    using o by (simp add: Clear_bytes op_adds_bytes batch_of_def list_all_iff)
  have less: "\<forall>m \<in> set old. mo_seq m < l + 1" using old(2) s1 by (force simp: word_le_nat_alt word_less_nat_alt)
  obtain mem where mem: "InsertInto C (batch_of (l + 1) ops) mt = (Some mem, Status_OK)"
      "mt_holds C ok mem (old @ batch_mem_ops (l + 1) ops)"
    using InsertInto_holds [OF comparator_laws_axioms old(1) less o n'] b by auto
  have seq: "\<forall>m \<in> set (batch_mem_ops (l + 1) ops). mo_seq m \<le> l'"
    using batch_mem_ops_seq [OF n'] s1 l' by (force simp: word_le_nat_alt)
  have ll: "l \<le> l'" using l' by (simp add: word_le_nat_alt)
  have "unat kMaxSequenceNumber = 2 ^ 56 - 1" by (simp add: kMaxSequenceNumber_def)
  then have lmax: "l' \<le> kMaxSequenceNumber" using l' n by (simp add: word_le_nat_alt)
  have tok: "table_ok C ok l' mem"
    unfolding table_ok_def using mem(2) seq old(2) ll by (intro exI [of _ "old @ batch_mem_ops (l + 1) ops"]) auto
  have "overlay (mem_find C mem l' k) (d k) = fold (op_handle map_handler) ops (\<lambda>k. overlay (mem_find C mt l k) (d k)) k"
    if k: "key_ok ok k" for k d
    using newest_fold [OF seq, of k "\<lambda>k. overlay (mem_find C mt l k) (d k)"] ll lmax
    by (simp add: mem_find_newest [OF comparator_laws_axioms mem(2) k] mem_find_newest [OF comparator_laws_axioms old(1) k]
        overlay_newest_append newest_later [OF old(2) ll])
  then show ?thesis using that [OF mem(1) tok ll lmax] by blast
qed

lemma insert_content:
  assumes d: "db_ok C ok finv db" and ops: "ops_ok ok ops" and n: "unat (di_last_sequence db) + length ops < 2 ^ 56"
  defines "l' \<equiv> di_last_sequence db + of_nat (length ops)"
  obtains mem where "InsertInto C (batch_of (di_last_sequence db + 1) ops) (di_mem db) = (Some mem, Status_OK)"
    and "\<And>f. finv f \<Longrightarrow> db_ok C ok finv (db\<lparr>di_mem := mem, di_last_sequence := l', di_files := f\<rparr>)"
    and "\<And>f k. fc f = fc (di_files db) \<Longrightarrow> key_ok ok k \<Longrightarrow>
      db_content fc (db\<lparr>di_mem := mem, di_last_sequence := l', di_files := f\<rparr>) k = fold (op_handle map_handler) ops (db_content fc db) k"
proof -
  have t: "table_ok C ok (di_last_sequence db) (di_mem db)" and c: "di_cmp db = C" using d by (simp_all add: db_ok_def)
  obtain mem where mem: "InsertInto C (batch_of (di_last_sequence db + 1) ops) (di_mem db) = (Some mem, Status_OK)"
      "table_ok C ok l' mem" "di_last_sequence db \<le> l'" "l' \<le> kMaxSequenceNumber"
      "\<And>k d. key_ok ok k \<Longrightarrow> overlay (mem_find C mem l' k) (d k) =
        fold (op_handle map_handler) ops (\<lambda>k. overlay (mem_find C (di_mem db) (di_last_sequence db) k) (d k)) k"
    using insert_table [OF t ops n] unfolding l'_def by blast
  have "db_ok C ok finv (db\<lparr>di_mem := mem, di_last_sequence := l', di_files := f\<rparr>)" if "finv f" for f
    using d mem(2-4) table_ok_later that by (auto simp: db_ok_def)
  moreover have "db_content fc (db\<lparr>di_mem := mem, di_last_sequence := l', di_files := f\<rparr>) k = fold (op_handle map_handler) ops (db_content fc db) k"
    if f: "fc f = fc (di_files db)" and k: "key_ok ok k" for f k
  proof -
    define rest where "rest = (\<lambda>k. overlay (Option.bind (di_imm db) (\<lambda>m. mem_find C m (di_last_sequence db) k)) (fc (di_files db) k))"
    have "Option.bind (di_imm db) (\<lambda>m. mem_find C m l' k) = Option.bind (di_imm db) (\<lambda>m. mem_find C m (di_last_sequence db) k)"
      using d mem_find_later [OF _ mem(3,4) k] by (cases "di_imm db") (auto simp: db_ok_def)
    then have "db_content fc (db\<lparr>di_mem := mem, di_last_sequence := l', di_files := f\<rparr>) k = overlay (mem_find C mem l' k) (rest k)"
      using f c by (simp add: db_content_def rest_def)
    also have "\<dots> = fold (op_handle map_handler) ops (db_content fc db) k"
      unfolding mem(5) [OF k] by (rule fold_map_pointwise) (simp add: db_content_def rest_def c)
    finally show ?thesis .
  qed
  ultimately show ?thesis using that [OF mem(1)] by blast
qed

lemma Get_find:
  assumes "table_ok C ok l mt" and "key_ok ok k" and "l \<le> kMaxSequenceNumber"
  obtains b v s where "MemTable_Get C mt (LookupKey k l) [] Status_OK = Some (b, v, s)"
    and "mem_find C mt l k = (if b then Some (if status_ok s then Some v else None) else None)"
    and "\<not> (status_ok s \<and> IsNotFound s)"
proof -
  obtain ops where "mt_holds C ok mt ops" using assms(1) by (auto simp: table_ok_def)
  then have g: "MemTable_Get C mt (LookupKey k l) [] Status_OK = Some (mem_answer (mem_newest ops k l) [] Status_OK)"
    using Get_holds assms(2,3) by (simp add: key_ok_def)
  obtain b v s where m: "mem_answer (mem_newest ops k l) [] Status_OK = (b, v, s)" by (metis prod_cases3)
  have "\<not> (status_ok s \<and> IsNotFound s)"
    by (auto simp: status_ok_def IsNotFound_def status_code_def)
  then show ?thesis using that [of b v s] g m by (auto simp: mem_find_def split: bool.split)
qed

lemma Get_content:
  assumes d: "db_ok C ok finv db" and k: "key_ok ok k"
  obtains s v db' where "DBImpl_Get F k [] db = Some (s, v, db')" and "db_ok C ok finv db'" and "same_content db db'"
    and "status_ok s \<Longrightarrow> db_content fc db k = Some v" and "IsNotFound s \<Longrightarrow> db_content fc db k = None"
proof -
  let ?l = "di_last_sequence db"
  have c: "di_cmp db = C" and l: "?l \<le> kMaxSequenceNumber" and t: "table_ok C ok ?l (di_mem db)"
    using d by (simp_all add: db_ok_def)
  obtain b v s where m: "MemTable_Get C (di_mem db) (LookupKey k ?l) [] Status_OK = Some (b, v, s)"
      "mem_find C (di_mem db) ?l k = (if b then Some (if status_ok s then Some v else None) else None)"
      "\<not> (status_ok s \<and> IsNotFound s)" using Get_find [OF t k l] .
  obtain sf vf f where vg: "fs_VersionGet F (LookupKey k ?l) [] (di_files db) = (sf, vf, f)" by (metis prod_cases3)
  have files: "db_ok C ok finv (db\<lparr>di_files := f\<rparr>)" "same_content db (db\<lparr>di_files := f\<rparr>)"
      "status_ok sf \<Longrightarrow> fc (di_files db) k = Some vf" "IsNotFound sf \<Longrightarrow> fc (di_files db) k = None"
    using version_get [OF _ k vg] d by (auto simp: db_ok_def db_content_def)
  consider (mem) b | (none) "\<not> b" "di_imm db = None" | (imm) imm where "\<not> b" "di_imm db = Some imm" by auto
  then show ?thesis
  proof cases
    case mem
    then have "DBImpl_Get F k [] db = Some (s, v, db)" "db_content fc db k = (if status_ok s then Some v else None)"
      by (simp_all add: DBImpl_Get_def db_content_def c m)
    then show ?thesis using that [of s v db] d m(3) by (cases "status_ok s") auto
  next
    case none
    then have "DBImpl_Get F k [] db = Some (sf, vf, db\<lparr>di_files := f\<rparr>)" "db_content fc db k = fc (di_files db) k"
      by (simp_all add: DBImpl_Get_def db_content_def c m vg)
    then show ?thesis using that files by simp
  next
    case imm
    then have "table_ok C ok ?l imm" using d by (simp add: db_ok_def)
    from Get_find [OF this k l] obtain b2 v2 s2 where g: "MemTable_Get C imm (LookupKey k ?l) [] Status_OK = Some (b2, v2, s2)"
      "mem_find C imm ?l k = (if b2 then Some (if status_ok s2 then Some v2 else None) else None)"
      "\<not> (status_ok s2 \<and> IsNotFound s2)" .
    show ?thesis
    proof (cases b2)
      case True
      then have "DBImpl_Get F k [] db = Some (s2, v2, db)" "db_content fc db k = (if status_ok s2 then Some v2 else None)"
        using imm g by (simp_all add: DBImpl_Get_def db_content_def c m)
      then show ?thesis using that [of s2 v2 db] d g(3) by (cases "status_ok s2") auto
    next
      case False
      then have "DBImpl_Get F k [] db = Some (sf, vf, db\<lparr>di_files := f\<rparr>)" "db_content fc db k = fc (di_files db) k"
        using imm g by (simp_all add: DBImpl_Get_def db_content_def c m vg)
      then show ?thesis using that files by simp
    qed
  qed
qed

text \<open>The result of a write by the front of the queue, whose batch has the operations
  \<open>ops\<close>, and of the writers behind it.\<close>

lemma bump_content:
  assumes d: "db_ok C ok finv db" and l: "di_last_sequence db \<le> l'" "l' \<le> kMaxSequenceNumber"
    and f: "finv f" "fc f = fc (di_files db)"
    and db': "di_cmp db' = C" "di_mem db' = di_mem db" "di_imm db' = di_imm db" "di_last_sequence db' = l'" "di_files db' = f"
      "di_tmp_batch db' = WriteBatch_Clear"
  shows "db_ok C ok finv db'" and "key_ok ok k \<Longrightarrow> db_content fc db' k = db_content fc db k"
proof -
  show "db_ok C ok finv db'" using d l f db' table_ok_later by (auto simp: db_ok_def)
  assume k: "key_ok ok k"
  have "Option.bind (di_imm db) (\<lambda>m. mem_find C m l' k) = Option.bind (di_imm db) (\<lambda>m. mem_find C m (di_last_sequence db) k)"
    using d mem_find_later [OF _ l k] by (cases "di_imm db") (auto simp: db_ok_def)
  then show "db_content fc db' k = db_content fc db k"
    using d mem_find_later [OF _ l k, of "di_mem db"] f db' by (simp add: db_content_def db_ok_def)
qed

lemma Write_group:
  assumes d: "db_ok C ok finv db" and ops: "ops_ok ok ops" and n: "unat (di_last_sequence db) + length ops < 2 ^ 56" "length ops < 2 ^ 31"
    and ar: "fs_AddRecord F (batch_of (di_last_sequence db + 1) ops) (di_files db) = (s1, f1)"
    and sy: "(if status_ok s1 \<and> sync then fs_Sync F f1 else (s1, f1)) = (s2, f2)"
    and ii: "(if status_ok s2 then InsertInto C (batch_of (di_last_sequence db + 1) ops) (di_mem db) else (Some (di_mem db), s2)) = (mem, s3)"
  defines "l' \<equiv> di_last_sequence db + ucast (of_nat (length ops) :: u32)"
  obtains mem' where "mem = Some mem'"
    and "\<And>db'. di_cmp db' = C \<Longrightarrow> di_mem db' = mem' \<Longrightarrow> di_imm db' = di_imm db \<Longrightarrow> di_last_sequence db' = l' \<Longrightarrow> di_files db' = f2 \<Longrightarrow>
      di_tmp_batch db' = WriteBatch_Clear \<Longrightarrow> db_ok C ok finv db' \<and> (\<forall>k. key_ok ok k \<longrightarrow>
        db_content fc db' k = (if status_ok s3 then fold (op_handle map_handler) ops (db_content fc db) k else db_content fc db k))"
proof -
  have f1: "finv f1 \<and> fc f1 = fc (di_files db)" using add_record [OF _ ar] d by (simp add: db_ok_def)
  then have f2: "finv f2" "fc f2 = fc (di_files db)" using sync_file [of f1 s2 f2] sy by (auto split: if_splits)
  have l': "l' = di_last_sequence db + of_nat (length ops)"
    using n(2) by (simp add: l'_def unsigned_of_nat take_bit_nat_eq_self)
  obtain m where m: "InsertInto C (batch_of (di_last_sequence db + 1) ops) (di_mem db) = (Some m, Status_OK)"
      "\<And>f. finv f \<Longrightarrow> db_ok C ok finv (db\<lparr>di_mem := m, di_last_sequence := l', di_files := f\<rparr>)"
      "\<And>f k. fc f = fc (di_files db) \<Longrightarrow> key_ok ok k \<Longrightarrow>
        db_content fc (db\<lparr>di_mem := m, di_last_sequence := l', di_files := f\<rparr>) k = fold (op_handle map_handler) ops (db_content fc db) k"
    using insert_content [OF d ops n(1)] unfolding l' by blast
  show ?thesis
  proof (cases "status_ok s2")
    case True
    then have eq: "mem = Some m" "s3 = Status_OK" using ii m(1) by auto
    have "db_ok C ok finv db' \<and> (\<forall>k. key_ok ok k \<longrightarrow> db_content fc db' k = fold (op_handle map_handler) ops (db_content fc db) k)"
      if "di_cmp db' = C" "di_mem db' = m" "di_imm db' = di_imm db" "di_last_sequence db' = l'" "di_files db' = f2"
        "di_tmp_batch db' = WriteBatch_Clear" for db' :: "'f dbimpl"
      using that m(2) [OF f2(1)] m(3) [OF f2(2)] d by (simp add: db_ok_def db_content_def)
    then show ?thesis using that [OF eq(1)] eq(2) by (simp add: status_ok_def Status_OK_def)
  next
    case False
    have "di_last_sequence db \<le> l'" "l' \<le> kMaxSequenceNumber"
      using m(2) [OF f2(1)] n(1) by (simp_all add: db_ok_def l' word_le_nat_alt unat_word_ariths(1) unat_of_nat)
    note b = bump_content [OF d this f2]
    have "mem = Some (di_mem db)" "s3 = s2" using False ii by auto
    then show ?thesis using that b False by metis
  qed
qed

lemma group_doneI:
  assumes "db_ok C ok finv db'" and "\<exists>t'. b' = Some (batch_of t' ops)" and "m \<le> length ws"
    and "\<forall>w' \<in> set (take m ws). wr_sync w' \<longrightarrow> wr_sync w"
    and "\<And>k. key_ok ok k \<Longrightarrow> db_content fc db' k =
         (if status_ok s then fold (op_handle map_handler) (ops @ concat (take m opss)) (db_content fc db) k else db_content fc db k)"
  shows "group_done C ok finv fc db w ops ws opss (s, 1 + m, b', db')"
  unfolding group_done_def prod.case using assms by blast

lemma Write_committed:
  assumes d: "db_ok C ok finv db" and w: "wr_batch w = Some (batch_of t ops)" and ws: "list_all2 writer_ops ws opss"
    and ops: "ops_ok ok (ops @ concat opss)" and n: "unat (di_last_sequence db) + length (ops @ concat opss) < 2 ^ 56"
      "length (ops @ concat opss) < 2 ^ 31"
    and mr: "MakeRoomForWrite F False True db = Some (st, db1)" and st: "status_ok st"
  obtains r where "DBImpl_Write F w ws db = Some r" and "group_done C ok finv fc db w ops ws opss r"
proof -
  define G where "G = (\<lambda>m. ops @ concat (take m opss))"
  have d1: "db_ok C ok finv db1" "same_content db db1" using MakeRoom_content [OF mr d] by simp_all
  have c1: "di_cmp db1 = C" "di_tmp_batch db1 = batch_of 0 []" using d1(1) by (simp_all add: db_ok_def Clear_batch)
  obtain result c where g: "BuildBatchGroup (batch_of 0 []) (batch_of t ops) (wr_sync w) ws = (result, c)" by (metis prod.exhaust)
  then obtain m u where m: "c = 1 + m" "m \<le> length ws"
      "(case result of None \<Rightarrow> batch_of t ops | Some r \<Rightarrow> r) = batch_of u (G m)"
      "\<forall>w' \<in> set (take m ws). wr_sync w' \<longrightarrow> wr_sync w"
    using BuildBatchGroup_ops [OF ws g] unfolding G_def by metis
  obtain s1 f1 where ar: "fs_AddRecord F (batch_of (di_last_sequence db1 + 1) (G m)) (di_files db1) = (s1, f1)" by (metis prod.exhaust)
  obtain s2 f2 where sy: "(if status_ok s1 \<and> wr_sync w then fs_Sync F f1 else (s1, f1)) = (s2, f2)" by (metis prod.exhaust)
  obtain mem s3 where ii: "(if status_ok s2 then InsertInto C (batch_of (di_last_sequence db1 + 1) (G m)) (di_mem db1)
      else (Some (di_mem db1), s2)) = (mem, s3)" by (metis prod.exhaust)
  have len: "length (G m) \<le> length (ops @ concat opss)"
    unfolding G_def by (metis append_take_drop_id concat_append length_append le_add1 add_le_cancel_left)
  have ok: "ops_ok ok (G m)" using ops set_take_subset [of m opss] by (fastforce simp: ops_ok_def G_def)
  have n': "unat (di_last_sequence db1) + length (G m) < 2 ^ 56" "length (G m) < 2 ^ 31"
    using n len conjunct1 [OF d1(2)] by simp_all
  obtain mem' where mem': "mem = Some mem'"
    "\<And>db'. di_cmp db' = C \<Longrightarrow> di_mem db' = mem' \<Longrightarrow> di_imm db' = di_imm db1 \<Longrightarrow>
      di_last_sequence db' = di_last_sequence db1 + ucast (of_nat (length (G m)) :: u32) \<Longrightarrow> di_files db' = f2 \<Longrightarrow>
      di_tmp_batch db' = WriteBatch_Clear \<Longrightarrow> db_ok C ok finv db' \<and> (\<forall>k. key_ok ok k \<longrightarrow>
        db_content fc db' k = (if status_ok s3 then fold (op_handle map_handler) (G m) (db_content fc db1) k else db_content fc db1 k))"
    by (rule Write_group [OF d1(1) ok n' ar sy ii]) (rule that)
  define db2 where "db2 = db1\<lparr>di_files := f2, di_mem := mem'\<rparr>"
  define db3 where "db3 = (if status_ok s1 \<and> \<not> status_ok s2 then RecordBackgroundError s2 db2 else db2)"
  define db4 where "db4 = (if result \<noteq> None then db3\<lparr>di_tmp_batch := WriteBatch_Clear\<rparr> else db3)"
  define db' where "db' = db4\<lparr>di_last_sequence := di_last_sequence db1 + ucast (of_nat (length (G m)) :: u32)\<rparr>"
  define b' where "b' = (case result of None \<Rightarrow> batch_of (di_last_sequence db1 + 1) (G m) | Some _ \<Rightarrow> batch_of t ops)"
  have upd: "batch_SetSequence (case result of None \<Rightarrow> batch_of t ops | Some r \<Rightarrow> r) (di_last_sequence db1 + 1) =
      batch_of (di_last_sequence db1 + 1) (G m)" using m(3) by simp
  have "DBImpl_Write F w ws db = Some (s3, 1 + m, Some b', db')"
    by (simp only: DBImpl_Write_def w mr option.case prod.case c1 g Let_def upd ar batch_of_parts sy ii mem'(1) m(1) st
        option.distinct simp_thms if_False if_True b'_def db'_def db2_def db3_def db4_def)
  moreover have "\<exists>t'. Some b' = Some (batch_of t' ops)" using upd by (cases result) (auto simp: b'_def intro: sym)
  moreover have fin: "db_ok C ok finv db' \<and> (\<forall>k. key_ok ok k \<longrightarrow>
        db_content fc db' k = (if status_ok s3 then fold (op_handle map_handler) (G m) (db_content fc db1) k else db_content fc db1 k))"
    by (rule mem'(2)) (simp_all add: db'_def db4_def db3_def db2_def RecordBackgroundError_def c1 Clear_batch)
  moreover have "fold (op_handle map_handler) (G m) (db_content fc db1) k = fold (op_handle map_handler) (G m) (db_content fc db) k"
    if "key_ok ok k" for k using that d1(2) by (intro fold_map_pointwise) simp
  ultimately show ?thesis
    using that group_doneI [OF conjunct1 [OF fin] _ m(2,4)] d1(2) unfolding G_def by simp
qed

lemma Write_content:
  assumes "db_ok C ok finv db" and w: "wr_batch w = Some (batch_of t ops)" and ws: "list_all2 writer_ops ws opss"
    and ops: "ops_ok ok (ops @ concat opss)" and n: "unat (di_last_sequence db) + length (ops @ concat opss) < 2 ^ 56"
      "length (ops @ concat opss) < 2 ^ 31"
    and mr: "MakeRoomForWrite F False True db = Some r0"
  obtains r where "DBImpl_Write F w ws db = Some r" and "group_done C ok finv fc db w ops ws opss r"
proof -
  obtain st db1 where r0: "r0 = (st, db1)" by (cases r0)
  note mr' = mr [unfolded r0]
  have d1: "db_ok C ok finv db1" "same_content db db1" using MakeRoom_content [OF mr' assms(1)] by simp_all
  show ?thesis
  proof (cases "status_ok st")
    case True
    then show ?thesis using Write_committed [OF assms(1-6) mr'] that by blast
  next
    case False
    then have "DBImpl_Write F w ws db = Some (st, 1 + 0, Some (batch_of t ops), db1)" using w mr' by (simp add: DBImpl_Write_def)
    moreover have "group_done C ok finv fc db w ops ws opss (st, 1 + 0, Some (batch_of t ops), db1)"
      by (rule group_doneI) (use False d1 in auto)
    ultimately show ?thesis using that by blast
  qed
qed

text \<open>Making room ends when the background thread compacts: after it has run the immutable memtable
  is gone and level 0 is small, and a new memtable has room.\<close>

lemma MakeRoom_compacted:
  assumes "\<And>db. db_ok C ok finv db \<Longrightarrow> di_imm (fs_Background F db) = None \<and> fs_NumLevel0 F (di_files (fs_Background F db)) < kL0_SlowdownWritesTrigger"
    and room: "fs_HasRoom F (MemTable_Ref MemTable_new)"
    and d: "db_ok C ok finv db" and i: "di_imm db = None" and l: "fs_NumLevel0 F (di_files db) < kL0_StopWritesTrigger"
      "allow \<Longrightarrow> fs_NumLevel0 F (di_files db) < kL0_SlowdownWritesTrigger"
  shows "\<exists>r. MakeRoomForWrite F force allow db = Some r"
proof -
  have fresh: "\<exists>r. MakeRoomForWrite F False False db = Some r" if "di_mem db = MemTable_Ref MemTable_new" for db
    using that room by (subst MakeRoomForWrite.simps) simp
  have "\<exists>r. MakeRoomForWrite F False allow db = Some r" if "di_mem db = MemTable_Ref MemTable_new" "db_ok C ok finv db" for db
    using that room background [OF that(2)] fresh [of "fs_Background F db"] by (subst MakeRoomForWrite.simps) simp
  moreover obtain s f where nl: "fs_NewLog F (di_files db) = (s, f)" by (metis prod.exhaust)
  moreover have "db_ok C ok finv (db\<lparr>di_files := f, di_imm := Some (di_mem db), di_mem := MemTable_Ref MemTable_new\<rparr>)"
    by (rule switch_content(1) [OF d i]) (use new_log [OF _ nl] d in \<open>auto simp: db_ok_def\<close>)
  ultimately show ?thesis using i l by (subst MakeRoomForWrite.simps) auto
qed

lemma MakeRoom_returns:
  assumes bg: "\<And>db. db_ok C ok finv db \<Longrightarrow> di_imm (fs_Background F db) = None \<and> fs_NumLevel0 F (di_files (fs_Background F db)) < kL0_SlowdownWritesTrigger"
    and room: "fs_HasRoom F (MemTable_Ref MemTable_new)" and d: "db_ok C ok finv db"
  shows "\<exists>r. MakeRoomForWrite F force allow db = Some r"
proof -
  have after: "\<exists>r. MakeRoomForWrite F force allow' (fs_Background F db) = Some r" for allow'
    using MakeRoom_compacted [OF bg room, of "fs_Background F db" allow' force] background [OF d] bg [OF d]
    by (auto simp: kL0_SlowdownWritesTrigger_def kL0_StopWritesTrigger_def)
  show ?thesis
  proof (cases "di_imm db = None \<and> fs_NumLevel0 F (di_files db) < kL0_StopWritesTrigger \<and> (allow \<longrightarrow> fs_NumLevel0 F (di_files db) < kL0_SlowdownWritesTrigger)")
    case True
    then show ?thesis using MakeRoom_compacted [OF bg room d, of allow force] by blast
  next
    case False
    then show ?thesis using after by (subst MakeRoomForWrite.simps) auto
  qed
qed

end

section \<open>A reference file side\<close>

text \<open>The log is kept as a list of records and the compacted tables as a map; the background thread
  moves the immutable memtable into that map.  A memtable is full with 4096 entries.\<close>

record ref_files =
  rf_log :: "bytes list"
  rf_tab :: "bytes \<rightharpoonup> bytes"

definition ref_background :: "ref_files dbimpl \<Rightarrow> ref_files dbimpl" where
  "ref_background db =
     (case di_imm db of
        None \<Rightarrow> db
      | Some m \<Rightarrow>
          db\<lparr>di_imm := None,
             di_files := (di_files db)\<lparr>rf_tab := (\<lambda>k. overlay (mem_find (di_cmp db) m (di_last_sequence db) k) (rf_tab (di_files db) k))\<rparr>\<rparr>)"

definition ref_F :: "ref_files files" where
  "ref_F =
     \<lparr>fs_VersionGet = (\<lambda>lk v f. case rf_tab f (lk_user_key lk) of Some x \<Rightarrow> (Status_OK, x, f) | None \<Rightarrow> (Status_NotFound [] [], v, f)),
      fs_AddRecord = (\<lambda>b f. (Status_OK, f\<lparr>rf_log := rf_log f @ [b]\<rparr>)),
      fs_Sync = (\<lambda>f. (Status_OK, f)),
      fs_NewLog = (\<lambda>f. (Status_OK, f\<lparr>rf_log := []\<rparr>)),
      fs_NumLevel0 = (\<lambda>f. 0),
      fs_HasRoom = (\<lambda>mt. sl_alloc (mt_table mt) \<le> 4096),
      fs_Background = ref_background\<rparr>"

lemma ref_F_sel [simp]:
  "fs_VersionGet ref_F = (\<lambda>lk v f. case rf_tab f (lk_user_key lk) of Some x \<Rightarrow> (Status_OK, x, f) | None \<Rightarrow> (Status_NotFound [] [], v, f))"
  "fs_AddRecord ref_F = (\<lambda>b f. (Status_OK, f\<lparr>rf_log := rf_log f @ [b]\<rparr>))" "fs_Sync ref_F = (\<lambda>f. (Status_OK, f))"
  "fs_NewLog ref_F = (\<lambda>f. (Status_OK, f\<lparr>rf_log := []\<rparr>))" "fs_NumLevel0 ref_F = (\<lambda>f. 0)"
  "fs_HasRoom ref_F = (\<lambda>mt. sl_alloc (mt_table mt) \<le> 4096)" "fs_Background ref_F = ref_background"
  by (simp_all add: ref_F_def)

lemma ref_laws:
  assumes "comparator_laws C ok"
  shows "files_laws C ok ref_F (\<lambda>_. True) rf_tab"
proof (rule files_laws.intro [OF assms], unfold_locales)
  fix f f' :: ref_files and k v v' s st
  assume "key_ok ok k" "fs_VersionGet ref_F (LookupKey k s) v f = (st, v', f')"
  then show "True \<and> rf_tab f' = rf_tab f \<and> (status_ok st \<longrightarrow> rf_tab f k = Some v') \<and> (IsNotFound st \<longrightarrow> rf_tab f k = None)"
    by (auto simp: LookupKey_def Let_def status_ok_def IsNotFound_def status_code_def Status_OK_def Status_NotFound_def Status_new_def split: option.splits)
next
  fix db :: "ref_files dbimpl"
  assume d: "db_ok C ok (\<lambda>_. True) db"
  show "db_ok C ok (\<lambda>_. True) (fs_Background ref_F db) \<and> di_last_sequence (fs_Background ref_F db) = di_last_sequence db \<and>
      di_mem (fs_Background ref_F db) = di_mem db \<and>
      (\<forall>k. key_ok ok k \<longrightarrow> db_content rf_tab (fs_Background ref_F db) k = db_content rf_tab db k)"
    using d by (cases "di_imm db") (simp_all add: ref_background_def db_ok_def db_content_def)
qed auto

interpretation ref_bytes: files_laws BytewiseComparator "\<lambda>_. True" ref_F "\<lambda>_. True" rf_tab
  by (rule ref_laws) (rule bytewise.comparator_laws_axioms)

interpretation ref_num: files_laws "number_comparator k" "num_key k" ref_F "\<lambda>_. True" rf_tab for k
  by (rule ref_laws) (rule numeric.comparator_laws_axioms)

definition ref_db :: "comparator \<Rightarrow> ref_files dbimpl" where
  "ref_db C = \<lparr>di_cmp = C, di_mem = MemTable_Ref MemTable_new, di_imm = None, di_last_sequence = 0, di_bg_error = Status_OK,
     di_tmp_batch = WriteBatch_Clear, di_files = \<lparr>rf_log = [], rf_tab = Map.empty\<rparr>\<rparr>"

lemma ref_db_ok: "comparator_laws C ok \<Longrightarrow> db_ok C ok (\<lambda>_. True) (ref_db C)"
  using files_laws.new_table [OF ref_laws] by (simp add: db_ok_def ref_db_def)

lemma ref_db_content: "comparator_laws C ok \<Longrightarrow> key_ok ok k \<Longrightarrow> db_content rf_tab (ref_db C) k = None"
  by (simp add: db_content_def ref_db_def mem_find_newest [of C ok _ "[]"] files_laws.new_table_holds [OF ref_laws] mem_newest_def)

lemma ref_room: "\<exists>r. MakeRoomForWrite ref_F False True (ref_db C) = Some r"
  by (subst MakeRoomForWrite.simps)
    (simp add: ref_db_def Status_OK_def status_ok_def MemTable_Ref_def MemTable_new_def SkipList_new_def kL0_SlowdownWritesTrigger_def)

section \<open>Properties\<close>

text \<open>C22. Group commit.  When the front writer of the queue writes and there is room, the call returns; the writers it
  reports as done are the front writer and a prefix of those behind it, none of them synchronous unless the front writer
  is; if the status is OK the contents of the database are changed by exactly the operations of these writers in queue
  order, otherwise by none of them; the caller's own batch keeps its operations and the scratch batch is empty
  again.\<close>

theorem group_commit:
  assumes "files_laws C ok F finv fc" and "db_ok C ok finv db" and "wr_batch w = Some (batch_of t ops)"
    and "list_all2 writer_ops ws opss" and "ops_ok ok (ops @ concat opss)"
    and "unat (di_last_sequence db) + length (ops @ concat opss) < 2 ^ 56" and "length (ops @ concat opss) < 2 ^ 31"
    and "MakeRoomForWrite F False True db = Some r"
  shows "\<exists>s m t' db'. DBImpl_Write F w ws db = Some (s, 1 + m, Some (batch_of t' ops), db') \<and> m \<le> length ws \<and>
    (\<forall>w' \<in> set (take m ws). wr_sync w' \<longrightarrow> wr_sync w) \<and>
    db_ok C ok finv db' \<and> di_tmp_batch db' = WriteBatch_Clear \<and>
    (\<forall>k. key_ok ok k \<longrightarrow> db_content fc db' k =
      (if status_ok s then fold (op_handle map_handler) (ops @ concat (take m opss)) (db_content fc db) k else db_content fc db k))"
proof -
  obtain s cnt b' db' where r: "DBImpl_Write F w ws db = Some (s, cnt, b', db')" "group_done C ok finv fc db w ops ws opss (s, cnt, b', db')"
    using files_laws.Write_content [OF assms] by (metis prod_cases4)
  from r(2) obtain m t' where "m \<le> length ws" "cnt = 1 + m" "\<forall>w' \<in> set (take m ws). wr_sync w' \<longrightarrow> wr_sync w"
      "b' = Some (batch_of t' ops)" "db_ok C ok finv db'"
      "\<forall>k. key_ok ok k \<longrightarrow> db_content fc db' k =
        (if status_ok s then fold (op_handle map_handler) (ops @ concat (take m opss)) (db_content fc db) k else db_content fc db k)"
    unfolding group_done_def prod.case by metis
  moreover from this have "di_tmp_batch db' = WriteBatch_Clear" by (simp add: db_ok_def)
  ultimately show ?thesis using r(1) by blast
qed

theorem group_commit_witness:
  "\<exists>s m t' db'. DBImpl_Write ref_F \<lparr>wr_batch = Some (batch_of 0 [PutOp [1] [2]]), wr_sync = False\<rparr>
       [\<lparr>wr_batch = Some (batch_of 0 [DeleteOp [1]]), wr_sync = True\<rparr>] (ref_db BytewiseComparator) =
       Some (s, 1 + m, Some (batch_of t' [PutOp [1] [2]]), db') \<and>
     m = 0 \<and> (status_ok s \<longrightarrow> db_content rf_tab db' [1] = Some [2])"
proof -
  have ok: "ops_ok (\<lambda>_. True) ([PutOp [1] [2]] @ concat [[DeleteOp [1]]])" by (simp add: ops_ok_def key_ok_def)
  have l: "list_all2 writer_ops [\<lparr>wr_batch = Some (batch_of 0 [DeleteOp [1]]), wr_sync = True\<rparr>] [[DeleteOp [1]]]"
    by (auto simp: writer_ops_def)
  obtain r where r: "MakeRoomForWrite ref_F False True (ref_db BytewiseComparator) = Some r" using ref_room by blast
  have n: "unat (di_last_sequence (ref_db BytewiseComparator)) + length ([PutOp [1] [2]] @ concat [[DeleteOp [1]]]) < 2 ^ 56"
    "length ([PutOp [1] [2]] @ concat [[DeleteOp [1]]]) < 2 ^ 31" by (simp_all add: ref_db_def)
  have w: "wr_batch \<lparr>wr_batch = Some (batch_of 0 [PutOp [1] [2]]), wr_sync = False\<rparr> = Some (batch_of 0 [PutOp [1] [2]])" by simp
  from group_commit [OF ref_bytes.files_laws_axioms ref_db_ok [OF bytewise.comparator_laws_axioms] w l ok n r]
  obtain s m t' db' where g: "DBImpl_Write ref_F \<lparr>wr_batch = Some (batch_of 0 [PutOp [1] [2]]), wr_sync = False\<rparr>
       [\<lparr>wr_batch = Some (batch_of 0 [DeleteOp [1]]), wr_sync = True\<rparr>] (ref_db BytewiseComparator) =
       Some (s, 1 + m, Some (batch_of t' [PutOp [1] [2]]), db')"
      "\<forall>w' \<in> set (take m [\<lparr>wr_batch = Some (batch_of 0 [DeleteOp [1]]), wr_sync = True\<rparr>]). \<not> wr_sync w'" "m \<le> 1"
      "\<forall>k. key_ok (\<lambda>_. True) k \<longrightarrow> db_content rf_tab db' k =
        (if status_ok s then fold (op_handle map_handler) ([PutOp [1] [2]] @ concat (take m [[DeleteOp [1]]])) (db_content rf_tab (ref_db BytewiseComparator)) k
         else db_content rf_tab (ref_db BytewiseComparator) k)" by auto
  have "m = 0" using g(2,3) by (cases m) auto
  then show ?thesis using g(1,4) by (auto simp: key_ok_def map_handler_def)
qed





end
