(* ===== verification/Lvl_Iterator.thy ===== *)
theory Lvl_Iterator
  imports Lvl_MemTable "HOL-Library.Monad_Syntax"
begin

text \<open>
  The iterator interface, \<^verbatim>\<open>include/leveldb/iterator.h\<close>, as a record of operations
  with its contract, the locale \<open>iter_laws\<close>.  The contract is discharged for the iterator of the
  memtable (\<^verbatim>\<open>MemTableIterator\<close> of \<^verbatim>\<open>db/memtable.cc\<close>) and for the
  empty iterator (\<^verbatim>\<open>table/iterator.cc\<close>).
\<close>

section \<open>The interface\<close>

text \<open>An operation is \<open>None\<close> when it does not return or when its behaviour is undefined, like a
  \<^verbatim>\<open>Next\<close> of an iterator that is not valid.\<close>

record 'i iter_ops =
  it_Valid :: "'i \<Rightarrow> bool"
  it_SeekToFirst :: "'i \<Rightarrow> 'i option"
  it_SeekToLast :: "'i \<Rightarrow> 'i option"
  it_Seek :: "bytes \<Rightarrow> 'i \<Rightarrow> 'i option"
  it_Next :: "'i \<Rightarrow> 'i option"
  it_Prev :: "'i \<Rightarrow> 'i option"
  it_key :: "'i \<Rightarrow> bytes option"
  it_value :: "'i \<Rightarrow> bytes option"

text \<open>What a client sees when it walks to an end.\<close>

partial_function (option) iter_scan :: "'i iter_ops \<Rightarrow> 'i \<Rightarrow> (bytes \<times> bytes) list option" where
  "iter_scan IT i =
     (if it_Valid IT i
      then do { k \<leftarrow> it_key IT i; v \<leftarrow> it_value IT i; i' \<leftarrow> it_Next IT i; r \<leftarrow> iter_scan IT i'; Some ((k, v) # r) }
      else Some [])"

partial_function (option) iter_scan_back :: "'i iter_ops \<Rightarrow> 'i \<Rightarrow> (bytes \<times> bytes) list option" where
  "iter_scan_back IT i =
     (if it_Valid IT i
      then do { k \<leftarrow> it_key IT i; v \<leftarrow> it_value IT i; i' \<leftarrow> it_Prev IT i; r \<leftarrow> iter_scan_back IT i'; Some ((k, v) # r) }
      else Some [])"

section \<open>The contract\<close>

text \<open>\<open>rep i xs p\<close>: the iterator \<open>i\<close> runs over the entries \<open>xs\<close>, which are in the
  order of their keys, and stands at position \<open>p\<close>; it is not valid at position
  \<open>length xs\<close>.\<close>

locale iter_laws =
  fixes cmp :: "bytes \<Rightarrow> bytes \<Rightarrow> int"
    and ok :: "bytes \<Rightarrow> bool"
    and IT :: "'i iter_ops"
    and rep :: "'i \<Rightarrow> (bytes \<times> bytes) list \<Rightarrow> nat \<Rightarrow> bool"
  assumes rep_order: "rep i xs p \<Longrightarrow> oset_sorted cmp (map fst xs) \<and> (\<forall>e \<in> set xs. ok (fst e)) \<and> p \<le> length xs"
    and valid_iff: "rep i xs p \<Longrightarrow> it_Valid IT i \<longleftrightarrow> p < length xs"
    and current: "rep i xs p \<Longrightarrow> p < length xs \<Longrightarrow> it_key IT i = Some (fst (xs ! p)) \<and> it_value IT i = Some (snd (xs ! p))"
    and to_first: "rep i xs p \<Longrightarrow> \<exists>i'. it_SeekToFirst IT i = Some i' \<and> rep i' xs 0"
    and to_last: "rep i xs p \<Longrightarrow> \<exists>i'. it_SeekToLast IT i = Some i' \<and> rep i' xs (length xs - 1)"
    and seek: "rep i xs p \<Longrightarrow> ok t \<Longrightarrow>
      \<exists>i'. it_Seek IT t i = Some i' \<and> rep i' xs (length (takeWhile (\<lambda>e. cmp (fst e) t < 0) xs))"
    and to_next: "rep i xs p \<Longrightarrow> p < length xs \<Longrightarrow> \<exists>i'. it_Next IT i = Some i' \<and> rep i' xs (p + 1)"
    and to_prev: "rep i xs p \<Longrightarrow> p < length xs \<Longrightarrow>
      \<exists>i'. it_Prev IT i = Some i' \<and> rep i' xs (if p = 0 then length xs else p - 1)"
begin

lemma scan_rep: "rep i xs p \<Longrightarrow> iter_scan IT i = Some (drop p xs)"
proof (induction "length xs - p" arbitrary: i p)
  case 0
  then show ?case using rep_order [OF 0(2)] valid_iff [OF 0(2)] by (subst iter_scan.simps) simp
next
  case (Suc n)
  then have p: "p < length xs" by simp
  obtain i' where i': "it_Next IT i = Some i'" "rep i' xs (p + 1)" using to_next [OF Suc.prems p] by blast
  have "iter_scan IT i' = Some (drop (p + 1) xs)" using Suc.hyps i'(2) by simp
  then show ?case
    using current [OF Suc.prems p] valid_iff [OF Suc.prems] p i'(1)
    by (subst iter_scan.simps) (simp add: Cons_nth_drop_Suc [OF p, symmetric])
qed

lemma scan_back_rep: "rep i xs p \<Longrightarrow> p < length xs \<Longrightarrow> iter_scan_back IT i = Some (rev (take (p + 1) xs))"
proof (induction p arbitrary: i)
  case 0
  obtain i' where i': "it_Prev IT i = Some i'" "rep i' xs (length xs)" using to_prev [OF 0] by auto
  have "iter_scan_back IT i' = Some []" using valid_iff [OF i'(2)] by (subst iter_scan_back.simps) simp
  then show ?case
    using current [OF 0] valid_iff [OF 0(1)] 0(2) i'(1) by (subst iter_scan_back.simps) (cases xs, simp_all)
next
  case (Suc p)
  obtain i' where i': "it_Prev IT i = Some i'" "rep i' xs p" using to_prev [OF Suc.prems] by auto
  have "iter_scan_back IT i' = Some (rev (take (p + 1) xs))" using Suc.IH [OF i'(2)] Suc.prems(2) by simp
  then show ?case
    using current [OF Suc.prems] valid_iff [OF Suc.prems(1)] Suc.prems(2) i'(1)
    by (subst iter_scan_back.simps) (simp add: take_Suc_conv_app_nth)
qed

lemma scan_back_last:
  assumes "rep i xs p"
  shows "Option.bind (it_SeekToLast IT i) (iter_scan_back IT) = Some (rev xs)"
proof -
  obtain i' where i': "it_SeekToLast IT i = Some i'" "rep i' xs (length xs - 1)" using to_last [OF assms] by blast
  show ?thesis
  proof (cases "xs = []")
    case True
    then show ?thesis using i' valid_iff [OF i'(2)] by (simp add: iter_scan_back.simps)
  next
    case False
    then show ?thesis using i'(1) scan_back_rep [OF i'(2)] by simp
  qed
qed

lemma scan_first:
  assumes "rep i xs p"
  shows "Option.bind (it_SeekToFirst IT i) (iter_scan IT) = Some xs"
  using to_first [OF assms] scan_rep by fastforce

lemma scan_seek:
  assumes "rep i xs p" and "ok t"
  shows "Option.bind (it_Seek IT t i) (iter_scan IT) = Some (dropWhile (\<lambda>e. cmp (fst e) t < 0) xs)"
  using seek [OF assms] scan_rep by (fastforce simp: dropWhile_eq_drop)

end

section \<open>The empty iterator\<close>

definition NewEmptyIterator :: "unit iter_ops" where
  "NewEmptyIterator =
     \<lparr>it_Valid = (\<lambda>_. False), it_SeekToFirst = Some, it_SeekToLast = Some, it_Seek = (\<lambda>_. Some), it_Next = (\<lambda>_. None),
      it_Prev = (\<lambda>_. None), it_key = (\<lambda>_. None), it_value = (\<lambda>_. None)\<rparr>"

interpretation empty_iter: iter_laws cmp ok NewEmptyIterator "\<lambda>_ xs p. xs = [] \<and> p = 0" for cmp ok
  by unfold_locales (simp_all add: NewEmptyIterator_def)

section \<open>The iterator of the memtable\<close>

record mem_iter =
  mi_mt :: memtable
  mi_node :: nat

definition MemTableIterator :: "comparator \<Rightarrow> mem_iter iter_ops" where
  "MemTableIterator C =
     \<lparr>it_Valid = (\<lambda>i. iter_Valid (mi_node i)),
      it_SeekToFirst = (\<lambda>i. Some (i\<lparr>mi_node := iter_SeekToFirst (mt_table (mi_mt i))\<rparr>)),
      it_SeekToLast = (\<lambda>i. map_option (\<lambda>n. i\<lparr>mi_node := n\<rparr>) (iter_SeekToLast (mt_table (mi_mt i)))),
      it_Seek = (\<lambda>k i. map_option (\<lambda>n. i\<lparr>mi_node := n\<rparr>) (mem_Seek C (mi_mt i) k)),
      it_Next = (\<lambda>i. if iter_Valid (mi_node i) then Some (i\<lparr>mi_node := iter_Next (mt_table (mi_mt i)) (mi_node i)\<rparr>) else None),
      it_Prev = (\<lambda>i. if iter_Valid (mi_node i)
                     then map_option (\<lambda>n. i\<lparr>mi_node := n\<rparr>) (iter_Prev (KeyComparator C) (mt_table (mi_mt i)) (mi_node i))
                     else None),
      it_key = (\<lambda>i. if iter_Valid (mi_node i) then mem_key (mi_mt i) (mi_node i) else None),
      it_value = (\<lambda>i. if iter_Valid (mi_node i) then mem_value (mi_mt i) (mi_node i) else None)\<rparr>"

definition MemTable_NewIterator :: "memtable \<Rightarrow> mem_iter" where
  "MemTable_NewIterator mt = \<lparr>mi_mt = mt, mi_node = 0\<rparr>"

definition ikey_ok :: "(bytes \<Rightarrow> bool) \<Rightarrow> bytes \<Rightarrow> bool" where
  "ikey_ok ok k \<longleftrightarrow> internal_ok ok k \<and> length k < 2 ^ 32"

definition node_entry :: "memtable \<Rightarrow> nat \<Rightarrow> bytes \<times> bytes \<Rightarrow> bool" where
  "node_entry mt n e \<longleftrightarrow> mem_key mt n = Some (fst e) \<and> mem_value mt n = Some (snd e)"

definition node_at :: "nat list \<Rightarrow> nat \<Rightarrow> nat" where
  "node_at ns p = (if p < length ns then ns ! p else 0)"

definition mem_rep :: "comparator \<Rightarrow> (bytes \<Rightarrow> bool) \<Rightarrow> mem_iter \<Rightarrow> (bytes \<times> bytes) list \<Rightarrow> nat \<Rightarrow> bool" where
  "mem_rep C ok i xs p \<longleftrightarrow>
     (\<exists>ns ht. sl_inv (KeyComparator C) (entry_ok ok) (mt_table (mi_mt i)) ns ht \<and> list_all2 (node_entry (mi_mt i)) ns xs \<and>
       p \<le> length ns \<and> mi_node i = node_at ns p)"

lemma node_at_drop: "node_at ns p = first_node (drop p ns)"
  by (cases "p < length ns") (simp_all add: node_at_def first_node_def Cons_nth_drop_Suc [symmetric])

lemma node_at_valid: "sl_inv cmp ok s ns ht \<Longrightarrow> iter_Valid (node_at ns p) \<longleftrightarrow> p < length ns"
proof (cases "p < length ns")
  case True
  assume "sl_inv cmp ok s ns ht"
  then have "2 \<le> ns ! p" using nth_mem [OF True] by (auto simp: sl_inv_def)
  then show ?thesis using True by (simp add: node_at_def iter_Valid_def)
qed (simp add: node_at_def iter_Valid_def)

lemma path_next: "path nx l x ys \<Longrightarrow> p < length ys \<Longrightarrow> nx (ys ! p) l = node_at ys (p + 1)"
proof (induction ys arbitrary: x p)
  case (Cons y ys)
  show ?case
  proof (cases p)
    case 0
    then show ?thesis using Cons.prems(1) by (cases ys) (simp_all add: node_at_def)
  next
    case (Suc q)
    then show ?thesis using Cons.IH [of y q] Cons.prems by (simp add: node_at_def)
  qed
qed simp

lemma path_first: "path nx l x ys \<Longrightarrow> nx x l = node_at ys 0"
  by (cases ys) (simp_all add: node_at_def)

lemma entry_key:
  assumes "entry_ok ok (sl_key (mt_table mt) n)" and "node_entry mt n e"
  shows "ikey_ok ok (fst e)" and "\<exists>r. mem_slice (sl_key (mt_table mt) n) = Some (fst e, r)"
  using assms by (auto simp: entry_ok_def node_entry_def mem_key_def iter_key_def ikey_ok_def)

lemma EncodeKey_entry:
  assumes "ikey_ok ok k"
  shows "entry_ok ok (EncodeKey k)" and "mem_slice (EncodeKey k) = Some (k, [])"
proof -
  have "varint (unat (of_nat (length k) :: u32)) = varint (length k)"
    by (rule varint_of_nat) (use assms in \<open>simp add: ikey_ok_def\<close>)
  then have e: "EncodeKey k = varint (length k) @ k @ []"
    by (simp add: EncodeKey_def PutVarint32_def EncodeVarint32_varint)
  show "entry_ok ok (EncodeKey k)" unfolding entry_ok_def e using assms by (auto simp: ikey_ok_def)
  show "mem_slice (EncodeKey k) = Some (k, [])"
    unfolding e by (rule mem_slice_encoded) (use assms in \<open>simp add: ikey_ok_def\<close>)
qed

context comparator_laws
begin

lemma mem_node_cmp:
  assumes "entry_ok ok (sl_key (mt_table mt) n)" "node_entry mt n e" and "mem_slice b = Some (k, r)"
  shows "KeyComparator C (sl_key (mt_table mt) n) b = InternalKey_Compare C (fst e) k"
  using entry_key(2) [OF assms(1,2)] KeyComparator_slices assms(3) by fastforce

lemma nodes_sorted:
  assumes "sl_inv (KeyComparator C) (entry_ok ok) (mt_table mt) ns ht" and "list_all2 (node_entry mt) ns xs"
  shows "oset_sorted icmp (map fst xs) \<and> (\<forall>e \<in> set xs. ikey_ok ok (fst e))"
proof -
  have o: "\<forall>n \<in> set ns. entry_ok ok (sl_key (mt_table mt) n)" using assms(1) by (simp add: sl_inv_def)
  have s: "sorted_wrt (\<lambda>a b. KeyComparator C (sl_key (mt_table mt) a) (sl_key (mt_table mt) b) < 0) ns"
    using mem.sl_sorted [OF assms(1)] .
  from assms(2) s o show ?thesis
  proof (induction rule: list_all2_induct)
    case (Cons n ns e xs)
    have "icmp (fst e) (fst e') < 0" if "e' \<in> set xs" for e'
    proof -
      obtain j where j: "j < length xs" "xs ! j = e'" using \<open>e' \<in> set xs\<close> by (auto simp: in_set_conv_nth)
      define n' where "n' = ns ! j"
      have n': "n' \<in> set ns" "node_entry mt n' e'"
        using j list_all2_nthD2 [OF Cons.hyps(2), of j] list_all2_lengthD [OF Cons.hyps(2)] by (auto simp: n'_def)
      show ?thesis
        using mem_node_cmp [of mt n e "sl_key (mt_table mt) n'"] entry_key(2) [of ok mt n' e'] n' Cons.hyps(1) Cons.prems by fastforce
    qed
    then show ?case using Cons entry_key(1) [of ok mt n e] by simp
  qed simp
qed

lemma mem_iter_laws: "iter_laws icmp (ikey_ok ok) (MemTableIterator C) (mem_rep C ok)"
proof
  fix i xs p assume "mem_rep C ok i xs p"
  then obtain ns ht where i: "sl_inv (KeyComparator C) (entry_ok ok) (mt_table (mi_mt i)) ns ht"
    and a: "list_all2 (node_entry (mi_mt i)) ns xs" and p: "p \<le> length ns" "mi_node i = node_at ns p"
    by (auto simp: mem_rep_def)
  have len: "length ns = length xs" using a by (rule list_all2_lengthD)
  have move: "mem_rep C ok (i\<lparr>mi_node := node_at ns q\<rparr>) xs q" if "q \<le> length xs" for q
    unfolding mem_rep_def using i a len that by auto
  note path = mem.sl_path0 [OF i]
  have valid: "iter_Valid (mi_node i) \<longleftrightarrow> p < length xs" using node_at_valid [OF i, of p] p len by simp
  show "oset_sorted icmp (map fst xs) \<and> (\<forall>e \<in> set xs. ikey_ok ok (fst e)) \<and> p \<le> length xs"
    using nodes_sorted [OF i a] p len by simp
  show "it_Valid (MemTableIterator C) i \<longleftrightarrow> p < length xs" using valid by (simp add: MemTableIterator_def)
  show "\<exists>i'. it_SeekToFirst (MemTableIterator C) i = Some i' \<and> mem_rep C ok i' xs 0"
    using move [of 0] path_first [OF path] by (simp add: MemTableIterator_def iter_SeekToFirst_def)
  have "last ns \<noteq> 1" if "ns \<noteq> []" using i last_in_set [OF that] by (auto simp: sl_inv_def)
  then have "iter_SeekToLast (mt_table (mi_mt i)) = Some (node_at ns (length ns - 1))"
    by (simp add: iter_SeekToLast_def mem.find_last [OF i] node_at_def last_conv_nth)
  then show "\<exists>i'. it_SeekToLast (MemTableIterator C) i = Some i' \<and> mem_rep C ok i' xs (length xs - 1)"
    using move [of "length xs - 1"] len by (simp add: MemTableIterator_def)
  {
    assume lt: "p < length xs"
    then show "it_key (MemTableIterator C) i = Some (fst (xs ! p)) \<and> it_value (MemTableIterator C) i = Some (snd (xs ! p))"
      using valid p len list_all2_nthD [OF a, of p] by (simp add: MemTableIterator_def node_at_def node_entry_def)
    show "\<exists>i'. it_Next (MemTableIterator C) i = Some i' \<and> mem_rep C ok i' xs (p + 1)"
      using move [of "p + 1"] path_next [OF path, of p] lt valid p len
      by (simp add: MemTableIterator_def iter_Next_def node_at_def)
    define q where "q = (if p = 0 then length xs else p - 1)"
    have "iter_Prev (KeyComparator C) (mt_table (mi_mt i)) (ns ! p) = Some (if take p ns = [] then 0 else last (take p ns))"
      using mem.iter_Prev_node [of "mt_table (mi_mt i)" "take p ns" "ns ! p" "drop (Suc p) ns" ht] i lt len
      by (simp add: id_take_nth_drop [symmetric])
    moreover have "(if take p ns = [] then 0 else last (take p ns)) = node_at ns q"
      using lt len by (auto simp: node_at_def last_conv_nth q_def)
    moreover have "mi_node i = ns ! p" "q \<le> length xs" using p lt len by (auto simp: node_at_def q_def)
    ultimately show "\<exists>i'. it_Prev (MemTableIterator C) i = Some i' \<and> mem_rep C ok i' xs (if p = 0 then length xs else p - 1)"
      using move [of q] lt valid unfolding q_def [symmetric] by (simp add: MemTableIterator_def)
  }
  fix t assume t: "ikey_ok ok t"
  define P where "P = (\<lambda>n. KeyComparator C (sl_key (mt_table (mi_mt i)) n) (EncodeKey t) < 0)"
  have "P (ns ! j) \<longleftrightarrow> icmp (fst (xs ! j)) t < 0" if j: "j < length xs" for j
  proof -
    have "entry_ok ok (sl_key (mt_table (mi_mt i)) (ns ! j))" using i j len by (simp add: sl_inv_def)
    from mem_node_cmp [OF this list_all2_nthD2 [OF a j] EncodeKey_entry(2) [OF t]] show ?thesis by (simp add: P_def)
  qed
  then have "list_all2 (\<lambda>n e. P n \<longleftrightarrow> icmp (fst e) t < 0) ns xs" using len by (simp add: list_all2_conv_all_nth)
  then have "length (takeWhile P ns) = length (takeWhile (\<lambda>e. icmp (fst e) t < 0) xs)"
    by (induction rule: list_all2_induct) auto
  moreover have "mem_Seek C (mi_mt i) t = Some (first_node (drop (length (takeWhile P ns)) ns))"
    by (simp add: mem_Seek_def iter_Seek_def mem.find_ge [OF i EncodeKey_entry(1) [OF t]] P_def dropWhile_eq_drop)
  ultimately show "\<exists>i'. it_Seek (MemTableIterator C) t i = Some i' \<and>
      mem_rep C ok i' xs (length (takeWhile (\<lambda>e. icmp (fst e) t < 0) xs))"
    using move [OF length_takeWhile_le [of "\<lambda>e. icmp (fst e) t < 0"]]
    by (simp add: MemTableIterator_def node_at_drop)
qed

text \<open>The entries that the iterator of a memtable runs over are the ones that were added.\<close>

lemma mem_rep_holds:
  assumes "mt_holds C ok mt ops"
  obtains xs where "mem_rep C ok (MemTable_NewIterator mt) xs (length xs)"
    and "set xs = (\<lambda>m. (mo_ikey m, mo_val m)) ` set ops"
proof -
  obtain ks where "sl_rep (KeyComparator C) (entry_ok ok) (mt_table mt) ks" and ks: "set ks = mo_entry ` set ops"
    using assms by (auto simp: mt_holds_def)
  then obtain ns ht where i: "sl_inv (KeyComparator C) (entry_ok ok) (mt_table mt) ns ht" and kn: "ks = map (sl_key (mt_table mt)) ns"
    by (auto simp: sl_rep_def)
  define E where "E = (\<lambda>n. (the (mem_key mt n), the (mem_value mt n)))"
  have n: "node_entry mt n (E n) \<and> E n = (mo_ikey m, mo_val m)" if "m \<in> set ops" "sl_key (mt_table mt) n = mo_entry m" for n m
  proof -
    have v: "mo_valid ok m" using assms that(1) by (simp add: mt_holds_def list_all_iff)
    have "mem_slice (varint (length (mo_val m)) @ mo_val m @ []) = Some (mo_val m, [])"
      by (rule mem_slice_encoded) (use v in \<open>simp add: mo_valid_def\<close>)
    then show ?thesis
      using mo_entry_slice [OF v] that(2) by (simp add: node_entry_def E_def mem_key_def mem_value_def iter_key_def)
  qed
  have "\<exists>m \<in> set ops. sl_key (mt_table mt) x = mo_entry m" if "x \<in> set ns" for x using ks kn that by auto
  then have "\<forall>x \<in> set ns. node_entry mt x (E x)" using n by blast
  then have "list_all2 (node_entry mt) ns (map E ns)" by (simp add: list_all2_map2 list_all2_same)
  then have "mem_rep C ok (MemTable_NewIterator mt) (map E ns) (length (map E ns))"
    unfolding mem_rep_def using i by (auto simp: MemTable_NewIterator_def node_at_def)
  moreover have "set (map E ns) = (\<lambda>m. (mo_ikey m, mo_val m)) ` set ops"
  proof -
    have "E x \<in> (\<lambda>m. (mo_ikey m, mo_val m)) ` set ops" if "x \<in> set ns" for x using ks kn that n by fastforce
    moreover have "(mo_ikey m, mo_val m) \<in> set (map E ns)" if "m \<in> set ops" for m
    proof -
      have "mo_entry m \<in> set ks" using ks that by simp
      then obtain x where "x \<in> set ns" "sl_key (mt_table mt) x = mo_entry m" using kn by auto
      then show ?thesis using n [OF that] by force
    qed
    ultimately show ?thesis by auto
  qed
  ultimately show ?thesis using that by blast
qed

end

sublocale comparator_laws \<subseteq> mem_iter: iter_laws icmp "ikey_ok ok" "MemTableIterator C" "mem_rep C ok"
  by (rule mem_iter_laws)

end
