(* ===== verification/Lvl_DbIter.thy ===== *)
theory Lvl_DbIter
  imports Lvl_Iterator
begin

text \<open>
  The database iterator, \<^verbatim>\<open>db/db_iter.cc\<close>: it walks over internal entries and shows the
  user entries that are visible at a sequence number, in both directions.  It meets the iterator contract
  of \<open>Lvl_Iterator\<close> whenever the iterator below it does.
\<close>

section \<open>The iterator\<close>

datatype Direction = kForward | kReverse

text \<open>\<open>bi_samples\<close> records the calls of \<^verbatim>\<open>RecordReadSample\<close>, which only
  feed the compaction statistics.\<close>

record 'i dbiter =
  bi_iter :: 'i
  bi_sequence :: u64
  bi_status :: status
  bi_saved_key :: bytes
  bi_saved_value :: bytes
  bi_direction :: Direction
  bi_valid :: bool
  bi_rnd :: u32
  bi_bytes_counter :: int
  bi_samples :: "bytes list"

definition kReadBytesPeriod :: u32 where "kReadBytesPeriod = 1048576"

text \<open>The number, and the new state of the generator.\<close>

definition RandomPeriod :: "u32 \<Rightarrow> int \<times> u32" where
  "RandomPeriod rnd = (uint (Random_Uniform rnd (2 * kReadBytesPeriod)), Random_Next rnd)"

definition NewDBIterator :: "'i \<Rightarrow> u64 \<Rightarrow> u32 \<Rightarrow> 'i dbiter" where
  "NewDBIterator iter s seed =
     (case RandomPeriod (Random seed) of
        (counter, rnd) \<Rightarrow>
          \<lparr>bi_iter = iter, bi_sequence = s, bi_status = Status_OK, bi_saved_key = [], bi_saved_value = [],
           bi_direction = kForward, bi_valid = False, bi_rnd = rnd, bi_bytes_counter = counter, bi_samples = []\<rparr>)"

text \<open>The loop of \<^verbatim>\<open>ParseKey\<close>.\<close>

partial_function (option) sample_loop :: "bytes \<Rightarrow> int \<Rightarrow> u32 \<Rightarrow> bytes list \<Rightarrow> (int \<times> u32 \<times> bytes list) option" where
  "sample_loop k counter rnd samples =
     (if counter < 0
      then sample_loop k (counter + fst (RandomPeriod rnd)) (snd (RandomPeriod rnd)) (samples @ [k])
      else Some (counter, rnd, samples))"

definition ParseKey :: "'i iter_ops \<Rightarrow> 'i dbiter \<Rightarrow> (parsed_internal_key option \<times> 'i dbiter) option" where
  "ParseKey IT d =
     do { k \<leftarrow> it_key IT (bi_iter d);
          v \<leftarrow> it_value IT (bi_iter d);
          (counter, rnd, samples) \<leftarrow> sample_loop k (bi_bytes_counter d - int (length k + length v)) (bi_rnd d) (bi_samples d);
          let d1 = d\<lparr>bi_bytes_counter := counter, bi_rnd := rnd, bi_samples := samples\<rparr>;
          (case ParseInternalKey k of
             None \<Rightarrow> Some (None, d1\<lparr>bi_status := Status_Corruption (ascii ''corrupted internal key in DBIter'') []\<rparr>)
           | Some ikey \<Rightarrow> Some (Some ikey, d1)) }"

text \<open>One pass of the loop of \<^verbatim>\<open>FindNextUserEntry\<close>, up to the move of the inner
  iterator: \<open>Inl\<close> returns, \<open>Inr\<close> goes on with the flag \<^verbatim>\<open>skipping\<close>.
  Every caller passes \<^verbatim>\<open>saved_key_\<close> for \<^verbatim>\<open>skip\<close>.\<close>

definition next_pass :: "'i iter_ops \<Rightarrow> comparator \<Rightarrow> bool \<Rightarrow> 'i dbiter \<Rightarrow> ('i dbiter + bool \<times> 'i dbiter) option" where
  "next_pass IT C skipping d =
     do { (p, d1) \<leftarrow> ParseKey IT d;
          (case p of
             None \<Rightarrow> Some (Inr (skipping, d1))
           | Some ikey \<Rightarrow>
               if pik_sequence ikey \<le> bi_sequence d1
               then (case pik_type ikey of
                       kTypeDeletion \<Rightarrow> Some (Inr (True, d1\<lparr>bi_saved_key := pik_user_key ikey\<rparr>))
                     | kTypeValue \<Rightarrow>
                         if skipping \<and> cm_Compare C (pik_user_key ikey) (bi_saved_key d1) \<le> 0
                         then Some (Inr (skipping, d1))
                         else Some (Inl (d1\<lparr>bi_valid := True, bi_saved_key := []\<rparr>)))
               else Some (Inr (skipping, d1))) }"

partial_function (option) FindNextUserEntry :: "'i iter_ops \<Rightarrow> comparator \<Rightarrow> bool \<Rightarrow> 'i dbiter \<Rightarrow> 'i dbiter option" where
  "FindNextUserEntry IT C skipping d =
     do { r \<leftarrow> next_pass IT C skipping d;
          (case r of
             Inl d' \<Rightarrow> Some d'
           | Inr (skipping', d1) \<Rightarrow>
               do { i \<leftarrow> it_Next IT (bi_iter d1);
                    if it_Valid IT i then FindNextUserEntry IT C skipping' (d1\<lparr>bi_iter := i\<rparr>)
                    else Some (d1\<lparr>bi_iter := i, bi_saved_key := [], bi_valid := False\<rparr>) }) }"

definition dbi_Next :: "'i iter_ops \<Rightarrow> comparator \<Rightarrow> 'i dbiter \<Rightarrow> 'i dbiter option" where
  "dbi_Next IT C d =
     (if \<not> bi_valid d then None
      else if bi_direction d = kReverse
      then do { i \<leftarrow> (if \<not> it_Valid IT (bi_iter d) then it_SeekToFirst IT (bi_iter d) else it_Next IT (bi_iter d));
                let d1 = d\<lparr>bi_direction := kForward, bi_iter := i\<rparr>;
                if \<not> it_Valid IT i then Some (d1\<lparr>bi_valid := False, bi_saved_key := []\<rparr>)
                else FindNextUserEntry IT C True d1 }
      else do { k \<leftarrow> it_key IT (bi_iter d);
                FindNextUserEntry IT C True (d\<lparr>bi_saved_key := ExtractUserKey k\<rparr>) })"

text \<open>One pass of the loop of \<^verbatim>\<open>FindPrevUserEntry\<close>: \<open>Inl\<close> breaks, \<open>Inr\<close> goes on with the
  new \<^verbatim>\<open>value_type\<close>.\<close>

definition prev_pass :: "'i iter_ops \<Rightarrow> comparator \<Rightarrow> ValueType \<Rightarrow> 'i dbiter \<Rightarrow> ('i dbiter + ValueType \<times> 'i dbiter) option" where
  "prev_pass IT C value_type d =
     do { (p, d1) \<leftarrow> ParseKey IT d;
          (case p of
             None \<Rightarrow> Some (Inr (value_type, d1))
           | Some ikey \<Rightarrow>
               if pik_sequence ikey \<le> bi_sequence d1
               then if value_type \<noteq> kTypeDeletion \<and> cm_Compare C (pik_user_key ikey) (bi_saved_key d1) < 0
                    then Some (Inl d1)
                    else (case pik_type ikey of
                            kTypeDeletion \<Rightarrow> Some (Inr (kTypeDeletion, d1\<lparr>bi_saved_key := [], bi_saved_value := []\<rparr>))
                          | kTypeValue \<Rightarrow>
                              do { raw_value \<leftarrow> it_value IT (bi_iter d1);
                                   k \<leftarrow> it_key IT (bi_iter d1);
                                   Some (Inr (kTypeValue, d1\<lparr>bi_saved_key := ExtractUserKey k, bi_saved_value := raw_value\<rparr>)) })
               else Some (Inr (value_type, d1))) }"

partial_function (option) prev_loop :: "'i iter_ops \<Rightarrow> comparator \<Rightarrow> ValueType \<Rightarrow> 'i dbiter \<Rightarrow> (ValueType \<times> 'i dbiter) option" where
  "prev_loop IT C value_type d =
     do { r \<leftarrow> prev_pass IT C value_type d;
          (case r of
             Inl d1 \<Rightarrow> Some (value_type, d1)
           | Inr (value_type', d1) \<Rightarrow>
               do { i \<leftarrow> it_Prev IT (bi_iter d1);
                    if it_Valid IT i then prev_loop IT C value_type' (d1\<lparr>bi_iter := i\<rparr>)
                    else Some (value_type', d1\<lparr>bi_iter := i\<rparr>) }) }"

definition FindPrevUserEntry :: "'i iter_ops \<Rightarrow> comparator \<Rightarrow> 'i dbiter \<Rightarrow> 'i dbiter option" where
  "FindPrevUserEntry IT C d =
     do { (value_type, d1) \<leftarrow> (if it_Valid IT (bi_iter d) then prev_loop IT C kTypeDeletion d else Some (kTypeDeletion, d));
          if value_type = kTypeDeletion
          then Some (d1\<lparr>bi_valid := False, bi_saved_key := [], bi_saved_value := [], bi_direction := kForward\<rparr>)
          else Some (d1\<lparr>bi_valid := True\<rparr>) }"

text \<open>The loop of \<^verbatim>\<open>Prev\<close> that leaves the entries of the current key; \<open>None\<close>
  inside is that there are no more entries.\<close>

partial_function (option) back_loop :: "'i iter_ops \<Rightarrow> comparator \<Rightarrow> bytes \<Rightarrow> 'i \<Rightarrow> (bool \<times> 'i) option" where
  "back_loop IT C saved_key i =
     do { i1 \<leftarrow> it_Prev IT i;
          if \<not> it_Valid IT i1 then Some (False, i1)
          else do { k \<leftarrow> it_key IT i1;
                    if cm_Compare C (ExtractUserKey k) saved_key < 0 then Some (True, i1)
                    else back_loop IT C saved_key i1 } }"

definition dbi_Prev :: "'i iter_ops \<Rightarrow> comparator \<Rightarrow> 'i dbiter \<Rightarrow> 'i dbiter option" where
  "dbi_Prev IT C d =
     (if \<not> bi_valid d then None
      else if bi_direction d = kForward
      then do { k \<leftarrow> it_key IT (bi_iter d);
                (more, i) \<leftarrow> back_loop IT C (ExtractUserKey k) (bi_iter d);
                if \<not> more then Some (d\<lparr>bi_iter := i, bi_valid := False, bi_saved_key := [], bi_saved_value := []\<rparr>)
                else FindPrevUserEntry IT C (d\<lparr>bi_iter := i, bi_saved_key := ExtractUserKey k, bi_direction := kReverse\<rparr>) }
      else FindPrevUserEntry IT C d)"

definition dbi_Seek :: "'i iter_ops \<Rightarrow> comparator \<Rightarrow> bytes \<Rightarrow> 'i dbiter \<Rightarrow> 'i dbiter option" where
  "dbi_Seek IT C target d =
     (let key = AppendInternalKey [] \<lparr>pik_user_key = target, pik_sequence = bi_sequence d, pik_type = kValueTypeForSeek\<rparr>
      in do { i \<leftarrow> it_Seek IT key (bi_iter d);
              let d1 = d\<lparr>bi_direction := kForward, bi_saved_value := [], bi_saved_key := key, bi_iter := i\<rparr>;
              if it_Valid IT i then FindNextUserEntry IT C False d1 else Some (d1\<lparr>bi_valid := False\<rparr>) })"

definition dbi_SeekToFirst :: "'i iter_ops \<Rightarrow> comparator \<Rightarrow> 'i dbiter \<Rightarrow> 'i dbiter option" where
  "dbi_SeekToFirst IT C d =
     do { i \<leftarrow> it_SeekToFirst IT (bi_iter d);
          let d1 = d\<lparr>bi_direction := kForward, bi_saved_value := [], bi_iter := i\<rparr>;
          if it_Valid IT i then FindNextUserEntry IT C False d1 else Some (d1\<lparr>bi_valid := False\<rparr>) }"

definition dbi_SeekToLast :: "'i iter_ops \<Rightarrow> comparator \<Rightarrow> 'i dbiter \<Rightarrow> 'i dbiter option" where
  "dbi_SeekToLast IT C d =
     do { i \<leftarrow> it_SeekToLast IT (bi_iter d);
          FindPrevUserEntry IT C (d\<lparr>bi_direction := kReverse, bi_saved_value := [], bi_iter := i\<rparr>) }"

definition dbi_key :: "'i iter_ops \<Rightarrow> 'i dbiter \<Rightarrow> bytes option" where
  "dbi_key IT d =
     (if \<not> bi_valid d then None
      else if bi_direction d = kForward then map_option ExtractUserKey (it_key IT (bi_iter d)) else Some (bi_saved_key d))"

definition dbi_value :: "'i iter_ops \<Rightarrow> 'i dbiter \<Rightarrow> bytes option" where
  "dbi_value IT d =
     (if \<not> bi_valid d then None
      else if bi_direction d = kForward then it_value IT (bi_iter d) else Some (bi_saved_value d))"

definition DBIter :: "'i iter_ops \<Rightarrow> comparator \<Rightarrow> 'i dbiter iter_ops" where
  "DBIter IT C =
     \<lparr>it_Valid = bi_valid, it_SeekToFirst = dbi_SeekToFirst IT C, it_SeekToLast = dbi_SeekToLast IT C,
      it_Seek = dbi_Seek IT C, it_Next = dbi_Next IT C, it_Prev = dbi_Prev IT C, it_key = dbi_key IT,
      it_value = dbi_value IT\<rparr>"

section \<open>The sampling loop ends\<close>

text \<open>The generator may return a multiple of the period, which adds nothing to the counter, but never
  two of them in a row.\<close>

lemma lehmer_multiple:
  fixes x :: nat
  assumes "x mod 2097152 = 0" and "0 < x" and "x < 2147483647"
  shows "(x * 16807) mod 2147483647 mod 2097152 \<noteq> 0"
proof -
  obtain k where k: "x = k * 2097152" using assms(1) by (metis mod_0_imp_dvd dvd_def mult.commute)
  define a b where "a = k * 16807 div 1024" and "b = k * 16807 mod 1024"
  have kb: "1 \<le> k" "k \<le> 1023" using assms(2,3) k by simp_all
  have ab: "k * 16807 = a * 1024 + b" "b < 1024" by (simp_all add: a_def b_def)
  have a: "1 \<le> a" "a < 16807" using kb ab by simp_all
  have "x * 16807 = (k * 16807) * 2097152" by (simp add: k)
  also have "\<dots> = a * 2147483647 + (a + b * 2097152)" by (simp add: ab(1) algebra_simps)
  finally have "(x * 16807) mod 2147483647 = (a + b * 2097152) mod 2147483647" by (simp only: mod_mult_self3)
  moreover have "a + b * 2097152 < 2147483647" using a ab(2) by simp
  ultimately have "(x * 16807) mod 2147483647 mod 2097152 = (a + b * 2097152) mod 2097152" by simp
  also have "\<dots> = a" using a by simp
  finally show ?thesis using a by simp
qed

lemma Random_Next_ok: "seed_ok r \<Longrightarrow> seed_ok (Random_Next r)"
  using Random_Next_unat [of r] seed_step_nonzero [of r] by (simp add: seed_ok_def)

lemma RandomPeriod_unat:
  "seed_ok r \<Longrightarrow> fst (RandomPeriod r) = int ((unat r * 16807) mod 2147483647 mod 2097152)"
  by (simp add: RandomPeriod_def Random_Uniform_def kReadBytesPeriod_def uint_nat unat_mod Random_Next_unat)

lemma sample_returns:
  assumes "seed_ok r"
  shows "\<exists>c' r' s'. sample_loop k c r s = Some (c', r', s') \<and> seed_ok r'"
  using assms
proof (induction "nat (- c)" arbitrary: c r s rule: less_induct)
  case less
  define P where "P = fst (RandomPeriod r)"
  define r1 where "r1 = Random_Next r"
  have r1: "seed_ok r1" "snd (RandomPeriod r) = r1" using Random_Next_ok [OF less.prems] by (simp_all add: r1_def RandomPeriod_def)
  have P0: "0 \<le> P" using RandomPeriod_unat [OF less.prems] by (simp add: P_def)
  consider (stop) "c \<ge> 0" | (once) "c < 0" "P > 0" | (twice) "c < 0" "P = 0" using P0 by linarith
  then show ?case
  proof cases
    case stop
    then show ?thesis using less.prems by (subst sample_loop.simps) simp
  next
    case once
    then show ?thesis
      using less.hyps [of "c + P" r1 "s @ [k]"] r1 by (subst sample_loop.simps) (simp add: P_def)
  next
    case twice
    define P1 where "P1 = fst (RandomPeriod r1)"
    have x: "unat r1 = (unat r * 16807) mod 2147483647" using Random_Next_unat [OF less.prems] by (simp add: r1_def)
    have "unat r1 mod 2097152 = 0" using twice(2) RandomPeriod_unat [OF less.prems] by (simp add: P_def x)
    then have P1: "P1 > 0"
      using lehmer_multiple [of "unat r1"] r1(1) RandomPeriod_unat [OF r1(1)] by (simp add: P1_def seed_ok_def)
    have r2: "seed_ok (snd (RandomPeriod r1))" using Random_Next_ok [OF r1(1)] by (simp add: RandomPeriod_def)
    have "sample_loop k c r s = sample_loop k c r1 (s @ [k])"
      using twice r1 by (subst sample_loop.simps) (simp add: P_def)
    also have "\<dots> = sample_loop k (c + P1) (snd (RandomPeriod r1)) ((s @ [k]) @ [k])"
      using twice by (subst sample_loop.simps) (simp add: P1_def)
    finally show ?thesis using less.hyps [of "c + P1" "snd (RandomPeriod r1)" "(s @ [k]) @ [k]"] twice(1) P1 r2 by auto
  qed
qed

section \<open>Visible entries\<close>

definition e_user :: "bytes \<times> bytes \<Rightarrow> bytes" where "e_user e = ExtractUserKey (fst e)"
definition e_seq :: "bytes \<times> bytes \<Rightarrow> u64" where "e_seq e = drop_bit 8 (internal_tag (fst e))"

definition e_type :: "bytes \<times> bytes \<Rightarrow> ValueType" where
  "e_type e = (if (ucast (internal_tag (fst e) AND 0xff) :: byte) = 0 then kTypeDeletion else kTypeValue)"

definition e_parses :: "bytes \<times> bytes \<Rightarrow> bool" where "e_parses e \<longleftrightarrow> ParseInternalKey (fst e) \<noteq> None"

lemma e_parse:
  "e_parses e \<Longrightarrow> ParseInternalKey (fst e) = Some \<lparr>pik_user_key = e_user e, pik_sequence = e_seq e, pik_type = e_type e\<rparr>"
  by (simp add: e_parses_def ParseInternalKey_def e_user_def e_seq_def e_type_def Let_def split: if_splits)

text \<open>An entry shows at sequence number \<open>s\<close> if it holds a value, is not newer, and no earlier
  entry of its key, which would be a newer one, is.\<close>

definition visible :: "u64 \<Rightarrow> (bytes \<times> bytes) list \<Rightarrow> nat \<Rightarrow> bool" where
  "visible s xs i \<longleftrightarrow> i < length xs \<and> e_seq (xs ! i) \<le> s \<and> e_type (xs ! i) = kTypeValue \<and>
     (\<forall>j<i. e_user (xs ! j) = e_user (xs ! i) \<longrightarrow> \<not> e_seq (xs ! j) \<le> s)"

definition vis_list :: "u64 \<Rightarrow> (bytes \<times> bytes) list \<Rightarrow> (bytes \<times> bytes) list" where
  "vis_list s xs = map (\<lambda>i. (e_user (xs ! i), snd (xs ! i))) (filter (visible s xs) [0..<length xs])"

definition rank :: "u64 \<Rightarrow> (bytes \<times> bytes) list \<Rightarrow> nat \<Rightarrow> nat" where
  "rank s xs c = length (filter (visible s xs) [0..<c])"

lemma visible_less: "visible s xs c \<Longrightarrow> c < length xs"
  by (simp add: visible_def)

lemma rank_split:
  assumes "a \<le> b"
  shows "rank s xs b = rank s xs a + length (filter (visible s xs) [a..<b])"
  using upt_add_eq_append [of 0 a "b - a"] assms by (simp add: rank_def)

lemma rank_none: "a \<le> b \<Longrightarrow> \<forall>j. a \<le> j \<longrightarrow> j < b \<longrightarrow> \<not> visible s xs j \<Longrightarrow> rank s xs b = rank s xs a"
  by (subst rank_split [of a b]) auto

lemma rank_Suc: "visible s xs c \<Longrightarrow> rank s xs (c + 1) = rank s xs c + 1"
  by (simp add: rank_def)

lemma rank_length: "rank s xs (length xs) = length (vis_list s xs)"
  by (simp add: rank_def vis_list_def)

lemma rank_visible:
  assumes "visible s xs c"
  shows "rank s xs c < length (vis_list s xs)" and "vis_list s xs ! rank s xs c = (e_user (xs ! c), snd (xs ! c))"
proof -
  have c: "c < length xs" using assms by (rule visible_less)
  then have "[0..<length xs] = [0..<c] @ c # [c + 1..<length xs]"
    using upt_add_eq_append [of 0 c "length xs - c"] upt_conv_Cons [of c "length xs"] by simp
  then have "filter (visible s xs) [0..<length xs] =
      filter (visible s xs) [0..<c] @ c # filter (visible s xs) [c + 1..<length xs]" using assms by simp
  then show "rank s xs c < length (vis_list s xs)" "vis_list s xs ! rank s xs c = (e_user (xs ! c), snd (xs ! c))"
    by (simp_all add: vis_list_def rank_def nth_append)
qed

definition ticked :: "'i dbiter \<Rightarrow> 'i dbiter \<Rightarrow> bool" where
  "ticked d d1 \<longleftrightarrow> (\<exists>c r sm. d1 = d\<lparr>bi_bytes_counter := c, bi_rnd := r, bi_samples := sm\<rparr> \<and> seed_ok r)"

lemma tickedE:
  assumes "ticked d d1"
  shows "bi_iter d1 = bi_iter d" "bi_sequence d1 = bi_sequence d" "bi_saved_key d1 = bi_saved_key d"
    "bi_saved_value d1 = bi_saved_value d" "bi_direction d1 = bi_direction d" "bi_valid d1 = bi_valid d" "seed_ok (bi_rnd d1)"
  using assms by (auto simp: ticked_def)

text \<open>What a search for the first position from \<open>p\<close> on with \<open>Q\<close> leaves.\<close>

definition next_found :: "('i \<Rightarrow> (bytes \<times> bytes) list \<Rightarrow> nat \<Rightarrow> bool) \<Rightarrow> (bytes \<times> bytes) list \<Rightarrow> nat \<Rightarrow> (nat \<Rightarrow> bool) \<Rightarrow> 'i dbiter \<Rightarrow> bool" where
  "next_found rep xs p Q d \<longleftrightarrow>
     (if bi_valid d then \<exists>c. rep (bi_iter d) xs c \<and> p \<le> c \<and> Q c \<and> (\<forall>j. p \<le> j \<longrightarrow> j < c \<longrightarrow> \<not> Q j)
      else (\<exists>c. rep (bi_iter d) xs c) \<and> (\<forall>j. p \<le> j \<longrightarrow> j < length xs \<longrightarrow> \<not> Q j))"

lemma next_found_step:
  assumes "next_found rep xs (p + 1) Q' d" and "\<not> Q p" and "\<And>j. p < j \<Longrightarrow> j < length xs \<Longrightarrow> Q' j \<longleftrightarrow> Q j"
    and "\<And>j. Q' j \<Longrightarrow> j < length xs"
  shows "next_found rep xs p Q d"
proof (cases "bi_valid d")
  case True
  then obtain c where c: "rep (bi_iter d) xs c" "p + 1 \<le> c" "Q' c" "\<forall>j. p + 1 \<le> j \<longrightarrow> j < c \<longrightarrow> \<not> Q' j"
    using assms(1) by (auto simp: next_found_def)
  have "\<not> Q j" if "p \<le> j" "j < c" for j
    using that assms(2) assms(3) [of j] assms(4) [OF c(3)] c(4) by (cases "j = p") auto
  then show ?thesis using True c assms(3) [of c] assms(4) [OF c(3)] by (auto simp: next_found_def)
next
  case False
  have "\<not> Q j" if "p \<le> j" "j < length xs" for j
    using that assms(2) assms(3) [of j] assms(1) False by (cases "j = p") (auto simp: next_found_def)
  then show ?thesis using False assms(1) by (auto simp: next_found_def)
qed

text \<open>The backward search has passed the positions from \<open>n\<close> up to \<open>m\<close>.\<close>

abbreviation saved_at :: "u64 \<Rightarrow> (bytes \<times> bytes) list \<Rightarrow> nat \<Rightarrow> nat \<Rightarrow> 'i dbiter \<Rightarrow> bool" where
  "saved_at s xs m c d \<equiv> c < m \<and> bi_saved_key d = e_user (xs ! c) \<and> bi_saved_value d = snd (xs ! c) \<and>
     (\<forall>j. c < j \<longrightarrow> j < m \<longrightarrow> \<not> visible s xs j)"

definition passed :: "u64 \<Rightarrow> (bytes \<times> bytes) list \<Rightarrow> nat \<Rightarrow> nat \<Rightarrow> ValueType \<Rightarrow> 'i dbiter \<Rightarrow> bool" where
  "passed s xs n m vt d \<longleftrightarrow>
     (if vt = kTypeDeletion then \<forall>j. n \<le> j \<longrightarrow> j < m \<longrightarrow> \<not> visible s xs j
      else \<exists>c. n \<le> c \<and> saved_at s xs m c d \<and> e_seq (xs ! c) \<le> s \<and> e_type (xs ! c) = kTypeValue \<and>
             (\<forall>j. n \<le> j \<longrightarrow> j < c \<longrightarrow> \<not> e_seq (xs ! j) \<le> s))"

definition before :: "u64 \<Rightarrow> (bytes \<times> bytes) list \<Rightarrow> nat \<Rightarrow> nat \<Rightarrow> bool" where
  "before s xs c p \<longleftrightarrow>
     (if p < length xs then p < c \<and> (\<forall>j. p < j \<longrightarrow> j < c \<longrightarrow> \<not> e_seq (xs ! j) \<le> s)
      else \<forall>j<c. \<not> e_seq (xs ! j) \<le> s)"

definition prev_found :: "('i \<Rightarrow> (bytes \<times> bytes) list \<Rightarrow> nat \<Rightarrow> bool) \<Rightarrow> u64 \<Rightarrow> (bytes \<times> bytes) list \<Rightarrow> nat \<Rightarrow> ValueType \<Rightarrow> 'i dbiter \<Rightarrow> bool" where
  "prev_found rep s xs m vt d \<longleftrightarrow>
     (if vt = kTypeDeletion then (\<exists>p. rep (bi_iter d) xs p) \<and> (\<forall>j<m. \<not> visible s xs j)
      else \<exists>c p. saved_at s xs m c d \<and> visible s xs c \<and> rep (bi_iter d) xs p \<and> before s xs c p)"

text \<open>The iterator at position \<open>q\<close> of the visible entries: going forward it stands on the entry,
  going backward it holds a copy of it and stands before it, with no entry in between that is not newer than the
  sequence number.\<close>

definition db_rep :: "('i \<Rightarrow> (bytes \<times> bytes) list \<Rightarrow> nat \<Rightarrow> bool) \<Rightarrow> 'i dbiter \<Rightarrow> (bytes \<times> bytes) list \<Rightarrow> nat \<Rightarrow> bool" where
  "db_rep rep d vs q \<longleftrightarrow>
     (\<exists>xs p. rep (bi_iter d) xs p \<and> (\<forall>e \<in> set xs. e_parses e) \<and> vs = vis_list (bi_sequence d) xs \<and> seed_ok (bi_rnd d) \<and>
        bi_sequence d \<le> kMaxSequenceNumber \<and>
        (if bi_valid d
         then \<exists>c. visible (bi_sequence d) xs c \<and> q = rank (bi_sequence d) xs c \<and>
                (if bi_direction d = kForward then p = c
                 else bi_saved_key d = e_user (xs ! c) \<and> bi_saved_value d = snd (xs ! c) \<and> before (bi_sequence d) xs c p)
         else q = length vs))"

section \<open>The searches\<close>

locale dbiter_laws = comparator_laws C ok + inner: iter_laws "InternalKey_Compare C" "ikey_ok ok" IT rep
  for C :: comparator and ok :: "bytes \<Rightarrow> bool" and IT :: "'i iter_ops" and rep :: "'i \<Rightarrow> (bytes \<times> bytes) list \<Rightarrow> nat \<Rightarrow> bool"
begin

lemma users_sorted:
  assumes "rep i xs p" and "b < length xs" and "a \<le> b"
  shows "ok (e_user (xs ! a))" and "cm_Compare C (e_user (xs ! a)) (e_user (xs ! b)) \<le> 0"
proof -
  have o: "internal_ok ok (fst (xs ! j))" if "j < length xs" for j
    using inner.rep_order [OF assms(1)] that by (simp add: ikey_ok_def)
  then show oa: "ok (e_user (xs ! a))" using assms(2,3) by (simp add: internal_ok_def e_user_def)
  show "cm_Compare C (e_user (xs ! a)) (e_user (xs ! b)) \<le> 0"
  proof (cases "a = b")
    case True
    then show ?thesis using oa cmp_self by simp
  next
    case False
    then have "icmp (fst (xs ! a)) (fst (xs ! b)) < 0"
      using inner.rep_order [OF assms(1)] assms(2,3) by (simp add: oset_sorted_def sorted_wrt_iff_nth_less)
    then show ?thesis using icmp_less_iff [of "fst (xs ! a)" "fst (xs ! b)"] o assms(2,3) oa cmp_self by (auto simp: e_user_def)
  qed
qed

lemma users_between:
  assumes "rep i xs p" and "a \<le> b" and "b \<le> c" and "c < length xs" and "e_user (xs ! a) = e_user (xs ! c)"
  shows "e_user (xs ! b) = e_user (xs ! c)"
proof -
  have o: "ok (e_user (xs ! b))" "ok (e_user (xs ! c))"
    using users_sorted(1) [OF assms(1)] assms(2-4) by (meson le_less_trans order_refl)+
  have "cm_Compare C (e_user (xs ! c)) (e_user (xs ! b)) \<le> 0" "cm_Compare C (e_user (xs ! b)) (e_user (xs ! c)) \<le> 0"
    using users_sorted(2) [OF assms(1), of b a] users_sorted(2) [OF assms(1), of c b] assms by auto
  then have "cm_Compare C (e_user (xs ! b)) (e_user (xs ! c)) = 0" using cmp_swap_signs [OF o] by force
  then show ?thesis using cmp_zero_iff o by blast
qed

lemma ParseKey_rep:
  assumes "rep (bi_iter d) xs p" and "p < length xs" and "e_parses (xs ! p)" and "seed_ok (bi_rnd d)"
  obtains d1 where "ParseKey IT d = Some (Some \<lparr>pik_user_key = e_user (xs ! p), pik_sequence = e_seq (xs ! p), pik_type = e_type (xs ! p)\<rparr>, d1)"
    and "ticked d d1"
proof -
  obtain c r sm where s: "sample_loop (fst (xs ! p)) (bi_bytes_counter d - int (length (fst (xs ! p)) + length (snd (xs ! p)))) (bi_rnd d) (bi_samples d) =
      Some (c, r, sm)" "seed_ok r" using sample_returns [OF assms(4)] by blast
  then have "ticked d (d\<lparr>bi_bytes_counter := c, bi_rnd := r, bi_samples := sm\<rparr>)" unfolding ticked_def by blast
  then show ?thesis
    using that inner.current [OF assms(1,2)] s(1) e_parse [OF assms(3)] by (simp add: ParseKey_def)
qed

lemma FindNext_unfold:
  assumes "rep (bi_iter d) xs p" and "p < length xs" and "next_pass IT C sk d = Some (Inr (sk', d1))" and "bi_iter d1 = bi_iter d"
  obtains i where "rep i xs (p + 1)"
    and "FindNextUserEntry IT C sk d =
      (if p + 1 < length xs then FindNextUserEntry IT C sk' (d1\<lparr>bi_iter := i\<rparr>)
       else Some (d1\<lparr>bi_iter := i, bi_saved_key := [], bi_valid := False\<rparr>))"
proof -
  obtain i where i: "it_Next IT (bi_iter d) = Some i" "rep i xs (p + 1)" using inner.to_next [OF assms(1,2)] by blast
  then show ?thesis using that [of i] inner.valid_iff [OF i(2)] assms(3,4) FindNextUserEntry.simps [of IT C sk d] by simp
qed

text \<open>Entries before \<open>p\<close> that hide one from \<open>p\<close> on are those that are skipped.\<close>

abbreviation skips :: "u64 \<Rightarrow> (bytes \<times> bytes) list \<Rightarrow> nat \<Rightarrow> bool \<Rightarrow> bytes \<Rightarrow> bool" where
  "skips s xs p sk key \<equiv>
     (\<forall>j j'. p \<le> j \<longrightarrow> j < length xs \<longrightarrow> j' < p \<longrightarrow> e_user (xs ! j') = e_user (xs ! j) \<longrightarrow> e_seq (xs ! j') \<le> s \<longrightarrow> e_seq (xs ! j) \<le> s \<longrightarrow>
        sk \<and> e_user (xs ! j) = key) \<and>
     (sk \<longrightarrow> ok key \<and> (\<forall>j. p \<le> j \<longrightarrow> j < length xs \<longrightarrow> e_seq (xs ! j) \<le> s \<longrightarrow> cm_Compare C key (e_user (xs ! j)) \<le> 0))"

lemma skips_deletion:
  assumes r: "rep i xs p'" and p: "p < length xs" and q: "e_seq (xs ! p) \<le> s" and sk: "skips s xs p sk key"
  shows "skips s xs (p + 1) True (e_user (xs ! p))"
    and "\<And>j. p < j \<Longrightarrow> j < length xs \<Longrightarrow> visible s xs j \<Longrightarrow> e_user (xs ! j) \<noteq> e_user (xs ! p) \<and> \<not> (sk \<and> e_user (xs ! j) = key)"
proof -
  have "e_user (xs ! j) = e_user (xs ! p)" if "p + 1 \<le> j" "j < length xs" "j' < p + 1" "e_user (xs ! j') = e_user (xs ! j)" for j j'
    using users_between [OF r, of j' p j] that by simp
  then show "skips s xs (p + 1) True (e_user (xs ! p))" using users_sorted [OF r, of _ p] p by auto
next
  fix j assume j: "p < j" "j < length xs" "visible s xs j"
  have ne: "e_user (xs ! j) \<noteq> e_user (xs ! p)" using j q by (auto simp: visible_def)
  moreover have "\<not> (sk \<and> e_user (xs ! j) = key)"
  proof
    assume k: "sk \<and> e_user (xs ! j) = key"
    have o: "ok (e_user (xs ! p))" "ok key" using users_sorted(1) [OF r p] sk k by auto
    have "cm_Compare C key (e_user (xs ! p)) \<le> 0" "cm_Compare C (e_user (xs ! p)) key \<le> 0"
      using sk k p q users_sorted(2) [OF r j(2), of p] j(1) by auto
    then have "cm_Compare C (e_user (xs ! p)) key = 0" using cmp_swap_signs [OF o] by force
    then show False using ne k cmp_zero_iff [OF o] by simp
  qed
  ultimately show "e_user (xs ! j) \<noteq> e_user (xs ! p) \<and> \<not> (sk \<and> e_user (xs ! j) = key)" ..
qed

lemma next_pass_rep:
  assumes r: "rep (bi_iter d) xs p" and p: "p < length xs" and e: "e_parses (xs ! p)" and o: "seed_ok (bi_rnd d)"
  obtains d1 where "ticked d d1"
    and "next_pass IT C sk d = Some
      (if e_seq (xs ! p) \<le> bi_sequence d
       then if e_type (xs ! p) = kTypeDeletion then Inr (True, d1\<lparr>bi_saved_key := e_user (xs ! p)\<rparr>)
            else if sk \<and> cm_Compare C (e_user (xs ! p)) (bi_saved_key d) \<le> 0 then Inr (sk, d1)
            else Inl (d1\<lparr>bi_valid := True, bi_saved_key := []\<rparr>)
       else Inr (sk, d1))"
proof -
  obtain d1 where d1: "ParseKey IT d = Some (Some \<lparr>pik_user_key = e_user (xs ! p), pik_sequence = e_seq (xs ! p), pik_type = e_type (xs ! p)\<rparr>, d1)"
      "ticked d d1" using ParseKey_rep [OF r p e o] .
  then show ?thesis using that [OF d1(2)] tickedE [OF d1(2)] by (cases "e_type (xs ! p)") (simp_all add: next_pass_def)
qed

lemma FindNext_rep:
  assumes "rep (bi_iter d) xs p" and "p < length xs" and "\<forall>e \<in> set xs. e_parses e" and "seed_ok (bi_rnd d)"
    and "skips (bi_sequence d) xs p sk (bi_saved_key d)"
  shows "\<exists>d'. FindNextUserEntry IT C sk d = Some d' \<and> bi_sequence d' = bi_sequence d \<and> bi_direction d' = bi_direction d \<and> seed_ok (bi_rnd d') \<and>
    next_found rep xs p (\<lambda>j. visible (bi_sequence d) xs j \<and> \<not> (sk \<and> e_user (xs ! j) = bi_saved_key d)) d'"
  using assms
proof (induction "length xs - p" arbitrary: d p sk rule: less_induct)
  case less
  define s where "s = bi_sequence d"
  define Q where "Q = (\<lambda>j. visible s xs j \<and> \<not> (sk \<and> e_user (xs ! j) = bi_saved_key d))"
  note r = less.prems(1) and p = less.prems(2)
  have e: "e_parses (xs ! p)" using less.prems(3) p by simp
  obtain d1 where d1: "ticked d d1"
    and pass: "next_pass IT C sk d = Some
      (if e_seq (xs ! p) \<le> bi_sequence d
       then if e_type (xs ! p) = kTypeDeletion then Inr (True, d1\<lparr>bi_saved_key := e_user (xs ! p)\<rparr>)
            else if sk \<and> cm_Compare C (e_user (xs ! p)) (bi_saved_key d) \<le> 0 then Inr (sk, d1)
            else Inl (d1\<lparr>bi_valid := True, bi_saved_key := []\<rparr>)
       else Inr (sk, d1))" using next_pass_rep [OF r p e less.prems(4)] .
  note t = tickedE [OF d1]
  have go: ?case
    if np: "next_pass IT C sk d = Some (Inr (sk', d2))"
      and d2: "bi_iter d2 = bi_iter d" "bi_sequence d2 = s" "bi_direction d2 = bi_direction d" "seed_ok (bi_rnd d2)"
      and sk': "skips s xs (p + 1) sk' (bi_saved_key d2)" and nQ: "\<not> Q p"
      and eq: "\<And>j. p < j \<Longrightarrow> j < length xs \<Longrightarrow> visible s xs j \<and> \<not> (sk' \<and> e_user (xs ! j) = bi_saved_key d2) \<longleftrightarrow> Q j"
    for sk' d2
  proof -
    obtain i where i: "rep i xs (p + 1)" and u: "FindNextUserEntry IT C sk d =
      (if p + 1 < length xs then FindNextUserEntry IT C sk' (d2\<lparr>bi_iter := i\<rparr>)
       else Some (d2\<lparr>bi_iter := i, bi_saved_key := [], bi_valid := False\<rparr>))"
      using FindNext_unfold [OF r p np d2(1)] .
    show ?thesis
    proof (cases "p + 1 < length xs")
      case True
      have "\<exists>d'. FindNextUserEntry IT C sk' (d2\<lparr>bi_iter := i\<rparr>) = Some d' \<and> bi_sequence d' = s \<and> bi_direction d' = bi_direction d \<and> seed_ok (bi_rnd d') \<and>
          next_found rep xs (p + 1) (\<lambda>j. visible s xs j \<and> \<not> (sk' \<and> e_user (xs ! j) = bi_saved_key d2)) d'"
        using less.hyps [of "p + 1" "d2\<lparr>bi_iter := i\<rparr>" sk'] True i less.prems(3) d2 sk' by simp
      then show ?thesis
        using u True next_found_step [where rep = rep and Q = Q, OF _ nQ eq] visible_less unfolding s_def Q_def by (simp, blast)
    next
      case False
      then have "next_found rep xs p Q (d2\<lparr>bi_iter := i, bi_saved_key := [], bi_valid := False\<rparr>)"
        using i nQ p by (auto simp: next_found_def dest: le_antisym less_antisym)
      then show ?thesis using u False d2 unfolding s_def Q_def by simp
    qed
  qed
  consider (new) "\<not> e_seq (xs ! p) \<le> s" | (del) "e_seq (xs ! p) \<le> s" "e_type (xs ! p) = kTypeDeletion"
    | (hidden) "e_seq (xs ! p) \<le> s" "e_type (xs ! p) = kTypeValue" "sk \<and> cm_Compare C (e_user (xs ! p)) (bi_saved_key d) \<le> 0"
    | (found) "e_seq (xs ! p) \<le> s" "e_type (xs ! p) = kTypeValue" "\<not> (sk \<and> cm_Compare C (e_user (xs ! p)) (bi_saved_key d) \<le> 0)"
    by (cases "e_type (xs ! p)") auto
  then show ?case
  proof cases
    case new
    have "skips s xs (p + 1) sk (bi_saved_key d1)"
      using less.prems(5) new unfolding s_def [symmetric] t(3) by (metis Suc_eq_plus1 Suc_leD less_Suc_eq)
    then show ?thesis using go [of sk d1] pass new t by (simp add: s_def Q_def visible_def)
  next
    case del
    note sd = skips_deletion [OF r p del(1) less.prems(5) [folded s_def]]
    have "visible s xs j \<and> \<not> (True \<and> e_user (xs ! j) = e_user (xs ! p)) \<longleftrightarrow> Q j" if "p < j" "j < length xs" for j
      using sd(2) [OF that] by (auto simp: Q_def)
    then show ?thesis
      using go [of True "d1\<lparr>bi_saved_key := e_user (xs ! p)\<rparr>"] sd(1) pass del t by (simp add: s_def Q_def visible_def)
  next
    case hidden
    have o: "ok (e_user (xs ! p))" "ok (bi_saved_key d)" using users_sorted(1) [OF r p] less.prems(5) hidden by auto
    have "cm_Compare C (bi_saved_key d) (e_user (xs ! p)) \<le> 0" using less.prems(5) hidden p by (auto simp: s_def)
    then have "cm_Compare C (e_user (xs ! p)) (bi_saved_key d) = 0" using hidden cmp_swap_signs [OF o] by force
    then have u: "e_user (xs ! p) = bi_saved_key d" using cmp_zero_iff [OF o] by simp
    then have "skips s xs (p + 1) sk (bi_saved_key d1)"
      using less.prems(5) hidden unfolding s_def [symmetric] t(3) by (metis Suc_eq_plus1 Suc_leD less_Suc_eq)
    then show ?thesis using go [of sk d1] pass hidden t u by (simp add: s_def Q_def)
  next
    case found
    have o: "ok (e_user (xs ! p))" using users_sorted(1) [OF r p] by simp
    have nk: "\<not> (sk \<and> e_user (xs ! p) = bi_saved_key d)" using found(3) cmp_self [OF o] by auto
    then have "Q p" using found(1,2) p less.prems(5) by (auto simp: Q_def visible_def s_def)
    then have "next_found rep xs p Q (d1\<lparr>bi_valid := True, bi_saved_key := []\<rparr>)" using r t by (auto simp: next_found_def)
    moreover have "FindNextUserEntry IT C sk d = Some (d1\<lparr>bi_valid := True, bi_saved_key := []\<rparr>)"
      using pass found by (subst FindNextUserEntry.simps) (auto simp: s_def)
    ultimately show ?thesis using t by (simp add: s_def Q_def)
  qed
qed

lemma prev_pass_rep:
  assumes r: "rep (bi_iter d) xs p" and p: "p < length xs" and e: "e_parses (xs ! p)" and o: "seed_ok (bi_rnd d)"
  obtains d1 where "ticked d d1"
    and "prev_pass IT C vt d = Some
      (if e_seq (xs ! p) \<le> bi_sequence d
       then if vt \<noteq> kTypeDeletion \<and> cm_Compare C (e_user (xs ! p)) (bi_saved_key d) < 0 then Inl d1
            else if e_type (xs ! p) = kTypeDeletion then Inr (kTypeDeletion, d1\<lparr>bi_saved_key := [], bi_saved_value := []\<rparr>)
            else Inr (kTypeValue, d1\<lparr>bi_saved_key := e_user (xs ! p), bi_saved_value := snd (xs ! p)\<rparr>)
       else Inr (vt, d1))"
proof -
  obtain d1 where d1: "ParseKey IT d = Some (Some \<lparr>pik_user_key = e_user (xs ! p), pik_sequence = e_seq (xs ! p), pik_type = e_type (xs ! p)\<rparr>, d1)"
      "ticked d d1" using ParseKey_rep [OF r p e o] .
  then show ?thesis using that [OF d1(2)] tickedE [OF d1(2)] inner.current [OF r p]
    by (cases "e_type (xs ! p)") (simp_all add: prev_pass_def e_user_def)
qed

lemma passed_cong:
  "bi_saved_key d' = bi_saved_key d \<Longrightarrow> bi_saved_value d' = bi_saved_value d \<Longrightarrow> passed s xs n m vt d' = passed s xs n m vt d"
  by (simp only: passed_def)

lemma passed_all:
  assumes "passed s xs 0 m vt d" and "m \<le> length xs" and "rep (bi_iter d) xs (length xs)"
  shows "prev_found rep s xs m vt d"
proof (cases "vt = kTypeDeletion")
  case True
  then show ?thesis using assms by (auto simp: passed_def prev_found_def)
next
  case False
  then obtain c where c: "saved_at s xs m c d" "e_seq (xs ! c) \<le> s" "e_type (xs ! c) = kTypeValue" "\<forall>j<c. \<not> e_seq (xs ! j) \<le> s"
    using assms(1) by (auto simp: passed_def)
  then have "visible s xs c" "before s xs c (length xs)" using assms(2) by (auto simp: visible_def before_def)
  then show ?thesis using False c assms(3) unfolding prev_found_def by auto
qed

lemma passed_break:
  assumes i: "passed s xs (p + 1) m kTypeValue d" and m: "m \<le> length xs" and r: "rep (bi_iter d) xs p" and p: "p < length xs"
    and less: "cm_Compare C (e_user (xs ! p)) (bi_saved_key d) < 0"
  shows "prev_found rep s xs m kTypeValue d"
proof -
  obtain c where c: "p + 1 \<le> c" "saved_at s xs m c d" "e_seq (xs ! c) \<le> s" "e_type (xs ! c) = kTypeValue"
      "\<forall>j. p + 1 \<le> j \<longrightarrow> j < c \<longrightarrow> \<not> e_seq (xs ! j) \<le> s" using i by (auto simp: passed_def)
  have ok: "ok (e_user (xs ! j))" if "j < length xs" for j using users_sorted(1) [OF r that] by simp
  have "\<not> e_seq (xs ! j) \<le> s" if j: "j < c" "e_user (xs ! j) = e_user (xs ! c)" for j
  proof (cases "j \<le> p")
    case True
    have "e_user (xs ! p) = e_user (xs ! c)" using users_between [OF r True, of c] c(1,2) m j(2) by simp
    then show ?thesis using less c(2) cmp_self [OF ok [OF p]] by simp
  next
    case False
    then show ?thesis using c(5) j by simp
  qed
  then have "visible s xs c" using c(2-4) m by (auto simp: visible_def)
  moreover have "before s xs c p" using c(1,5) p by (auto simp: before_def)
  ultimately show ?thesis using c(2) r unfolding prev_found_def by auto
qed

lemma passed_on:
  assumes i: "passed s xs (p + 1) m vt d" and m: "m \<le> length xs" "p < m" and r: "rep (bi_iter d) xs p"
    and q: "e_seq (xs ! p) \<le> s" and "\<not> (vt \<noteq> kTypeDeletion \<and> cm_Compare C (e_user (xs ! p)) (bi_saved_key d) < 0)"
    and j: "p < j" "j < m"
  shows "\<not> visible s xs j"
proof (cases "vt = kTypeDeletion")
  case True
  then show ?thesis using i j by (auto simp: passed_def)
next
  case False
  then obtain c where c: "p + 1 \<le> c" "saved_at s xs m c d" "\<forall>j. p + 1 \<le> j \<longrightarrow> j < c \<longrightarrow> \<not> e_seq (xs ! j) \<le> s"
    using i by (auto simp: passed_def)
  have cl: "c < length xs" using c(2) m by simp
  have o: "ok (e_user (xs ! p))" "ok (e_user (xs ! c))" 
    using users_sorted(1) [OF r cl, of p] users_sorted(1) [OF r cl, of c] c(1) by auto
  have "cm_Compare C (e_user (xs ! p)) (e_user (xs ! c)) = 0"
    using assms(6) False c(1,2) users_sorted(2) [OF r cl, of p] by auto
  then have "e_user (xs ! p) = e_user (xs ! c)" using cmp_zero_iff [OF o] by simp
  moreover have "p < c" using c(1) by simp
  ultimately have "\<not> visible s xs c" using q unfolding visible_def by blast
  moreover have "\<not> visible s xs j" if "j < c" using c(3) j that by (simp add: visible_def)
  moreover have "\<not> visible s xs j" if "c < j" using c(2) j(2) that by blast
  ultimately show ?thesis by (metis nat_neq_iff)
qed

lemma passed_skip:
  assumes i: "passed s xs (p + 1) m vt d" and q: "\<not> e_seq (xs ! p) \<le> s"
  shows "passed s xs p m vt d"
proof (cases "vt = kTypeDeletion")
  case True
  have "\<not> visible s xs p" using q by (simp add: visible_def)
  then have "\<not> visible s xs j" if "p \<le> j" "j < m" for j
    using i True that by (cases "j = p") (simp_all add: passed_def)
  then show ?thesis using True by (simp add: passed_def)
next
  case False
  then obtain c where c: "p + 1 \<le> c" "saved_at s xs m c d" "e_seq (xs ! c) \<le> s" "e_type (xs ! c) = kTypeValue"
      "\<forall>j. p + 1 \<le> j \<longrightarrow> j < c \<longrightarrow> \<not> e_seq (xs ! j) \<le> s" using i by (auto simp: passed_def)
  have "\<not> e_seq (xs ! j) \<le> s" if "p \<le> j" "j < c" for j using c(5) q that by (cases "j = p") simp_all
  then show ?thesis unfolding passed_def using False c(1-4) by (auto intro!: exI [of _ c])
qed

lemma prev_loop_rep:
  assumes "rep (bi_iter d) xs p" and "p < m" and "m \<le> length xs" and "\<forall>e \<in> set xs. e_parses e" and "seed_ok (bi_rnd d)"
    and "passed (bi_sequence d) xs (p + 1) m vt d"
  shows "\<exists>vt' d'. prev_loop IT C vt d = Some (vt', d') \<and> bi_sequence d' = bi_sequence d \<and> bi_direction d' = bi_direction d \<and>
    seed_ok (bi_rnd d') \<and> prev_found rep (bi_sequence d) xs m vt' d'"
  using assms
proof (induction p arbitrary: d vt rule: less_induct)
  case (less p)
  define s where "s = bi_sequence d"
  note r = less.prems(1)
  have p: "p < length xs" using less.prems(2,3) by simp
  have e: "e_parses (xs ! p)" using less.prems(4) p by simp
  obtain d1 where d1: "ticked d d1"
    and pass: "prev_pass IT C vt d = Some
      (if e_seq (xs ! p) \<le> bi_sequence d
       then if vt \<noteq> kTypeDeletion \<and> cm_Compare C (e_user (xs ! p)) (bi_saved_key d) < 0 then Inl d1
            else if e_type (xs ! p) = kTypeDeletion then Inr (kTypeDeletion, d1\<lparr>bi_saved_key := [], bi_saved_value := []\<rparr>)
            else Inr (kTypeValue, d1\<lparr>bi_saved_key := e_user (xs ! p), bi_saved_value := snd (xs ! p)\<rparr>)
       else Inr (vt, d1))" using prev_pass_rep [OF r p e less.prems(5)] .
  note t = tickedE [OF d1]
  have go: ?case
    if np: "prev_pass IT C vt d = Some (Inr (vt', d2))"
      and d2: "bi_iter d2 = bi_iter d" "bi_sequence d2 = s" "bi_direction d2 = bi_direction d" "seed_ok (bi_rnd d2)"
      and i': "passed s xs p m vt' d2" for vt' d2
  proof -
    obtain i where i: "it_Prev IT (bi_iter d) = Some i" "rep i xs (if p = 0 then length xs else p - 1)"
      using inner.to_prev [OF r p] by blast
    have pi: "passed s xs p m vt' (d2\<lparr>bi_iter := i\<rparr>)" using i' passed_cong [of "d2\<lparr>bi_iter := i\<rparr>" d2] by simp
    show ?thesis
    proof (cases "p = 0")
      case True
      then have "prev_loop IT C vt d = Some (vt', d2\<lparr>bi_iter := i\<rparr>)"
        using np i d2(1) inner.valid_iff [OF i(2)] by (subst prev_loop.simps) simp
      moreover have "prev_found rep s xs m vt' (d2\<lparr>bi_iter := i\<rparr>)"
        by (rule passed_all) (use True pi i(2) less.prems(3) in auto)
      ultimately show ?thesis using d2 by (simp add: s_def)
    next
      case False
      then have "it_Valid IT i" using inner.valid_iff [OF i(2)] p by auto
      then have "prev_loop IT C vt d = prev_loop IT C vt' (d2\<lparr>bi_iter := i\<rparr>)"
        using np i(1) d2(1) prev_loop.simps [of IT C vt d] by simp
      then show ?thesis
        using less.IH [of "p - 1" "d2\<lparr>bi_iter := i\<rparr>" vt'] False i(2) less.prems(2-4) d2 pi by (simp add: s_def)
    qed
  qed
  consider (new) "\<not> e_seq (xs ! p) \<le> s"
    | (break) "e_seq (xs ! p) \<le> s" "vt = kTypeValue" "cm_Compare C (e_user (xs ! p)) (bi_saved_key d) < 0"
    | (take) "e_seq (xs ! p) \<le> s" "\<not> (vt \<noteq> kTypeDeletion \<and> cm_Compare C (e_user (xs ! p)) (bi_saved_key d) < 0)"
    by (cases vt) auto
  then show ?case
  proof cases
    case new
    have "passed s xs p m vt d" by (rule passed_skip) (use less.prems(6) new in \<open>auto simp: s_def\<close>)
    then have "passed s xs p m vt d1" using passed_cong t by metis
    then show ?thesis using go [of vt d1] pass new t by (simp add: s_def)
  next
    case break
    have "passed s xs (p + 1) m kTypeValue d1" using less.prems(6) break(2) t passed_cong unfolding s_def by metis
    then have "prev_found rep s xs m kTypeValue d1" by (rule passed_break) (use less.prems r p t break in auto)
    then show ?thesis using pass break t by (subst prev_loop.simps) (simp add: s_def)
  next
    case take
    have nv: "\<not> visible s xs j" if "p < j" "j < m" for j
      using passed_on [OF _ less.prems(3,2) r take that] less.prems(6) by (simp add: s_def)
    show ?thesis
    proof (cases "e_type (xs ! p)")
      case kTypeDeletion
      have "passed s xs p m kTypeDeletion (d1\<lparr>bi_saved_key := [], bi_saved_value := []\<rparr>)"
        using nv kTypeDeletion by (auto simp: passed_def visible_def le_eq_less_or_eq)
      then show ?thesis using go pass take kTypeDeletion t by (simp add: s_def)
    next
      case kTypeValue
      have "passed s xs p m kTypeValue (d1\<lparr>bi_saved_key := e_user (xs ! p), bi_saved_value := snd (xs ! p)\<rparr>)"
        unfolding passed_def using nv kTypeValue take(1) less.prems(2) by auto
      then show ?thesis using go pass take kTypeValue t by (simp add: s_def)
    qed
  qed
qed

lemma FindPrev_rep:
  assumes r: "rep (bi_iter d) xs p" and pm: "p < length xs \<and> m = p + 1 \<or> p = length xs \<and> m = 0" and e: "\<forall>e \<in> set xs. e_parses e"
    and o: "seed_ok (bi_rnd d)"
  shows "\<exists>d'. FindPrevUserEntry IT C d = Some d' \<and> bi_sequence d' = bi_sequence d \<and> seed_ok (bi_rnd d') \<and>
    prev_found rep (bi_sequence d) xs m (if bi_valid d' then kTypeValue else kTypeDeletion) d' \<and>
    bi_direction d' = (if bi_valid d' then bi_direction d else kForward)"
proof -
  define s where "s = bi_sequence d"
  have "\<exists>vt d1. (if it_Valid IT (bi_iter d) then prev_loop IT C kTypeDeletion d else Some (kTypeDeletion, d)) = Some (vt, d1) \<and>
      bi_sequence d1 = s \<and> bi_direction d1 = bi_direction d \<and> seed_ok (bi_rnd d1) \<and> prev_found rep s xs m vt d1"
  proof (cases "p < length xs")
    case True
    then have "passed s xs (p + 1) m kTypeDeletion d" using pm by (auto simp: passed_def)
    then show ?thesis using prev_loop_rep [OF r _ _ e o, of m kTypeDeletion] pm True inner.valid_iff [OF r] by (simp add: s_def)
  next
    case False
    then show ?thesis using pm inner.valid_iff [OF r] r o by (auto simp: prev_found_def s_def)
  qed
  then obtain vt d1 where "(if it_Valid IT (bi_iter d) then prev_loop IT C kTypeDeletion d else Some (kTypeDeletion, d)) = Some (vt, d1)"
      "bi_sequence d1 = s" "bi_direction d1 = bi_direction d" "seed_ok (bi_rnd d1)" "prev_found rep s xs m vt d1" by blast
  then show ?thesis by (cases vt) (simp_all add: FindPrevUserEntry_def prev_found_def s_def)
qed

lemma back_loop_rep:
  assumes "rep i xs p" and "p < length xs" and "ok key"
  shows "\<exists>more i' p'. back_loop IT C key i = Some (more, i') \<and> rep i' xs p' \<and>
    (if more then p' < p \<and> cm_Compare C (e_user (xs ! p')) key < 0 \<and> (\<forall>j. p' < j \<longrightarrow> j < p \<longrightarrow> \<not> cm_Compare C (e_user (xs ! j)) key < 0)
     else (\<forall>j<p. \<not> cm_Compare C (e_user (xs ! j)) key < 0))"
  using assms
proof (induction p arbitrary: i)
  case 0
  then obtain i' where i': "it_Prev IT i = Some i'" "rep i' xs (length xs)" using inner.to_prev [OF 0(1,2)] by auto
  then show ?case using inner.valid_iff [OF i'(2)] back_loop.simps [of IT C key i]
    by (intro exI [of _ False] exI [of _ i'] exI [of _ "length xs"]) simp
next
  case (Suc p)
  then obtain i' where i': "it_Prev IT i = Some i'" "rep i' xs p" using inner.to_prev [OF Suc.prems(1,2)] by auto
  have c: "it_key IT i' = Some (fst (xs ! p))" "it_Valid IT i'" using inner.current [OF i'(2)] inner.valid_iff [OF i'(2)] Suc.prems(2) by auto
  show ?case
  proof (cases "cm_Compare C (e_user (xs ! p)) key < 0")
    case True
    then have "back_loop IT C key i = Some (True, i')" using i' c back_loop.simps [of IT C key i] by (simp add: e_user_def)
    then show ?thesis using True i'(2) by (intro exI [of _ True] exI [of _ i'] exI [of _ p]) simp
  next
    case False
    then have "back_loop IT C key i = back_loop IT C key i'" using i' c back_loop.simps [of IT C key i] by (simp add: e_user_def)
    moreover obtain more i'' p' where "back_loop IT C key i' = Some (more, i'')" "rep i'' xs p'"
      "if more then p' < p \<and> cm_Compare C (e_user (xs ! p')) key < 0 \<and> (\<forall>j. p' < j \<longrightarrow> j < p \<longrightarrow> \<not> cm_Compare C (e_user (xs ! j)) key < 0)
       else (\<forall>j<p. \<not> cm_Compare C (e_user (xs ! j)) key < 0)" using Suc.IH [OF i'(2)] Suc.prems(2,3) by auto
    ultimately show ?thesis using False by (intro exI [of _ more] exI [of _ i''] exI [of _ p']) (auto simp: less_Suc_eq)
  qed
qed

lemma vis_sorted:
  assumes r: "rep i xs p"
  shows "oset_sorted (cm_Compare C) (map fst (vis_list s xs)) \<and> (\<forall>e \<in> set (vis_list s xs). key_ok ok (fst e))"
proof -
  define L where "L = filter (visible s xs) [0..<length xs]"
  have "sorted_wrt (\<lambda>a b. a < b) L" unfolding L_def by (rule sorted_wrt_filter) simp
  then have "sorted_wrt (\<lambda>a b. cm_Compare C (e_user (xs ! a)) (e_user (xs ! b)) < 0) L"
  proof (rule sorted_wrt_mono_rel [rotated])
    fix a b assume ab: "a \<in> set L" "b \<in> set L" "a < b"
    then have v: "visible s xs a" "visible s xs b" by (auto simp: L_def)
    then have bl: "b < length xs" and ne: "e_user (xs ! a) \<noteq> e_user (xs ! b)" using ab(3) by (auto simp: visible_def)
    have o: "ok (e_user (xs ! a))" "ok (e_user (xs ! b))"
      using users_sorted(1) [OF r bl, of a] users_sorted(1) [OF r bl, of b] ab(3) by auto
    show "cm_Compare C (e_user (xs ! a)) (e_user (xs ! b)) < 0"
      using users_sorted(2) [OF r bl, of a] ab(3) ne cmp_zero_iff [OF o] by linarith
  qed
  then have "oset_sorted (cm_Compare C) (map fst (vis_list s xs))"
    by (simp add: oset_sorted_def vis_list_def L_def [symmetric] sorted_wrt_map comp_def)
  moreover have "key_ok ok (e_user (xs ! j))" if "j < length xs" for j
  proof -
    have "ikey_ok ok (fst (xs ! j))" using inner.rep_order [OF r] that by simp
    then show ?thesis by (auto simp: key_ok_def ikey_ok_def internal_ok_def e_user_def ExtractUserKey_def)
  qed
  ultimately show ?thesis by (auto simp: vis_list_def)
qed

lemma next_found_rep:
  assumes "next_found rep xs p (visible (bi_sequence d) xs) d" and "p \<le> length xs" and "bi_direction d = kForward"
    and "\<forall>e \<in> set xs. e_parses e" and "seed_ok (bi_rnd d)" and "bi_sequence d \<le> kMaxSequenceNumber"
  shows "db_rep rep d (vis_list (bi_sequence d) xs) (rank (bi_sequence d) xs p)"
proof (cases "bi_valid d")
  case True
  then obtain c where c: "rep (bi_iter d) xs c" "p \<le> c" "visible (bi_sequence d) xs c"
      "\<forall>j. p \<le> j \<longrightarrow> j < c \<longrightarrow> \<not> visible (bi_sequence d) xs j" using assms(1) by (auto simp: next_found_def)
  then show ?thesis using True assms(3-6) rank_none [OF c(2,4)] unfolding db_rep_def by (intro exI [of _ xs] exI [of _ c]) simp
next
  case False
  then obtain c where "rep (bi_iter d) xs c" and c: "\<forall>j. p \<le> j \<longrightarrow> j < length xs \<longrightarrow> \<not> visible (bi_sequence d) xs j"
    using assms(1) by (auto simp: next_found_def)
  moreover have "rank (bi_sequence d) xs p = length (vis_list (bi_sequence d) xs)"
    using rank_none [OF assms(2) c] rank_length by metis
  ultimately show ?thesis using False assms(4-6) unfolding db_rep_def by auto
qed

lemma prev_found_rep:
  assumes f: "prev_found rep (bi_sequence d) xs m (if bi_valid d then kTypeValue else kTypeDeletion) d" and m: "m \<le> length xs"
    and dir: "bi_valid d \<Longrightarrow> bi_direction d = kReverse"
    and "\<forall>e \<in> set xs. e_parses e" and "seed_ok (bi_rnd d)" and "bi_sequence d \<le> kMaxSequenceNumber"
  shows "db_rep rep d (vis_list (bi_sequence d) xs)
    (if rank (bi_sequence d) xs m = 0 then length (vis_list (bi_sequence d) xs) else rank (bi_sequence d) xs m - 1)"
proof (cases "bi_valid d")
  case True
  then obtain c p where c: "saved_at (bi_sequence d) xs m c d" "visible (bi_sequence d) xs c" "rep (bi_iter d) xs p" "before (bi_sequence d) xs c p"
    using f by (auto simp: prev_found_def)
  have "rank (bi_sequence d) xs m = rank (bi_sequence d) xs (c + 1)"
    by (rule rank_none) (use c(1) in auto)
  then have "rank (bi_sequence d) xs m = rank (bi_sequence d) xs c + 1" using rank_Suc [OF c(2)] by simp
  then show ?thesis using True c assms(4-6) dir unfolding db_rep_def by auto
next
  case False
  then obtain p where "rep (bi_iter d) xs p" and n: "\<forall>j<m. \<not> visible (bi_sequence d) xs j" using f by (auto simp: prev_found_def)
  moreover have "rank (bi_sequence d) xs m = 0" using n by (simp add: rank_def)
  ultimately show ?thesis using False assms(4-6) unfolding db_rep_def by auto
qed

lemma hidden_before:
  assumes r: "rep i xs p" and c: "visible s xs c" and j: "j < c" and "\<not> cm_Compare C (e_user (xs ! j)) (e_user (xs ! c)) < 0"
  shows "\<not> visible s xs j"
proof -
  have cl: "c < length xs" using c by (rule visible_less)
  have "ok (e_user (xs ! j))" "ok (e_user (xs ! c))" using users_sorted(1) [OF r cl, of j] users_sorted(1) [OF r cl, of c] j by auto
  moreover have "cm_Compare C (e_user (xs ! j)) (e_user (xs ! c)) = 0" using users_sorted(2) [OF r cl, of j] j assms(4) by simp
  ultimately have "e_user (xs ! j) = e_user (xs ! c)" using cmp_zero_iff by blast
  then show ?thesis using c j unfolding visible_def by blast
qed

lemma db_repE:
  assumes "db_rep rep d vs q"
  obtains xs p where "rep (bi_iter d) xs p" and "\<forall>e \<in> set xs. e_parses e" and "vs = vis_list (bi_sequence d) xs"
    and "seed_ok (bi_rnd d)" and "bi_sequence d \<le> kMaxSequenceNumber"
    and "if bi_valid d
         then \<exists>c. visible (bi_sequence d) xs c \<and> q = rank (bi_sequence d) xs c \<and>
                (if bi_direction d = kForward then p = c
                 else bi_saved_key d = e_user (xs ! c) \<and> bi_saved_value d = snd (xs ! c) \<and> before (bi_sequence d) xs c p)
         else q = length vs"
  using assms unfolding db_rep_def by blast

text \<open>A forward search from the start of the entries of a position.\<close>

lemma search_from:
  assumes r: "rep i xs p" and e: "\<forall>e \<in> set xs. e_parses e" and o: "seed_ok (bi_rnd d)" and s: "bi_sequence d \<le> kMaxSequenceNumber"
    and d: "bi_direction d = kForward" "bi_iter d = i"
    and hide: "\<forall>j j'. p \<le> j \<longrightarrow> j < length xs \<longrightarrow> j' < p \<longrightarrow> e_user (xs ! j') = e_user (xs ! j) \<longrightarrow> e_seq (xs ! j') \<le> bi_sequence d \<longrightarrow>
      \<not> e_seq (xs ! j) \<le> bi_sequence d"
  shows "\<exists>d'. (if it_Valid IT i then FindNextUserEntry IT C False d else Some (d\<lparr>bi_valid := False\<rparr>)) = Some d' \<and>
    db_rep rep d' (vis_list (bi_sequence d) xs) (rank (bi_sequence d) xs p)"
proof (cases "p < length xs")
  case True
  have "skips (bi_sequence d) xs p False (bi_saved_key d)" using hide by blast
  from FindNext_rep [OF _ True e o this] obtain d' where d': "FindNextUserEntry IT C False d = Some d'" "bi_sequence d' = bi_sequence d"
      "bi_direction d' = bi_direction d" "seed_ok (bi_rnd d')" "next_found rep xs p (visible (bi_sequence d) xs) d'"
    using r d by auto
  then show ?thesis using True inner.valid_iff [OF r] next_found_rep [of xs p d'] e s d by auto
next
  case False
  then have p: "p = length xs" using inner.rep_order [OF r] by simp
  then show ?thesis using inner.valid_iff [OF r] rank_length [of "bi_sequence d" xs] r e o s d unfolding db_rep_def by auto
qed

lemma dbi_first:
  assumes "db_rep rep d vs q"
  shows "\<exists>d'. dbi_SeekToFirst IT C d = Some d' \<and> db_rep rep d' vs 0"
proof -
  obtain xs p where x: "rep (bi_iter d) xs p" "\<forall>e \<in> set xs. e_parses e" "vs = vis_list (bi_sequence d) xs"
      "seed_ok (bi_rnd d)" "bi_sequence d \<le> kMaxSequenceNumber" using db_repE [OF assms] .
  obtain i where i: "it_SeekToFirst IT (bi_iter d) = Some i" "rep i xs 0" using inner.to_first [OF x(1)] by blast
  show ?thesis
    using search_from [OF i(2) x(2), of "d\<lparr>bi_direction := kForward, bi_saved_value := [], bi_iter := i\<rparr>"] x i(1)
    by (simp add: dbi_SeekToFirst_def rank_def Let_def)
qed

lemma tag_bound: "e_parses e \<Longrightarrow> unat (internal_tag (fst e)) \<le> 256 * unat (e_seq e) + 1"
proof -
  define t where "t = internal_tag (fst e)"
  assume "e_parses e"
  then have "(ucast (t AND 0xff) :: byte) \<le> 1"
    by (auto simp: e_parses_def ParseInternalKey_def t_def Let_def split: if_splits)
  moreover have "unat (ucast (t AND 0xff) :: byte) = unat t mod 256"
    by (simp add: ucast_and_255 unsigned_ucast_eq take_bit_eq_mod)
  ultimately have "unat t mod 256 \<le> 1" by (simp add: word_le_nat_alt)
  moreover have "unat (e_seq e) = unat t div 256" by (simp add: e_seq_def t_def unat_shift)
  ultimately show ?thesis unfolding t_def [symmetric] by (metis add_le_cancel_left mult_div_mod_eq)
qed

lemma seek_split:
  assumes r: "rep i xs p" and e: "\<forall>e \<in> set xs. e_parses e" and s: "s \<le> kMaxSequenceNumber" and t: "key_ok ok t"
  defines "n \<equiv> length (takeWhile (\<lambda>e. icmp (fst e) (InternalKey t s kTypeValue) < 0) xs)"
  shows "j < n \<Longrightarrow> e_seq (xs ! j) \<le> s \<Longrightarrow> cm_Compare C (e_user (xs ! j)) t < 0"
    and "n \<le> j \<Longrightarrow> j < length xs \<Longrightarrow> \<not> cm_Compare C (e_user (xs ! j)) t < 0"
proof -
  define k where "k = InternalKey t s kTypeValue"
  define P where "P = (\<lambda>e :: bytes \<times> bytes. icmp (fst e) k < 0)"
  have n: "n = length (takeWhile P xs)" "n \<le> length xs" by (simp_all add: n_def P_def k_def length_takeWhile_le)
  have ko: "internal_ok ok k" "ok t" "ExtractUserKey k = t" using t by (simp_all add: internal_ok_def k_def key_ok_def)
  have xo: "internal_ok ok (fst (xs ! j))" "ok (e_user (xs ! j))" if "j < length xs" for j
    using inner.rep_order [OF r] that by (auto simp: ikey_ok_def internal_ok_def e_user_def)
  have tag: "unat (internal_tag k) = 256 * unat s + 1" using pack_nat(1) [OF s, of kTypeValue] by (simp add: k_def)
  {
    assume j: "j < n" "e_seq (xs ! j) \<le> s"
    have "P (xs ! j)" using j(1) nth_mem [of j "takeWhile P xs"] set_takeWhileD [of "xs ! j" P xs] by (simp add: n(1) takeWhile_nth)
    then have "icmp (fst (xs ! j)) k < 0" by (simp add: P_def)
    then have "cm_Compare C (e_user (xs ! j)) t < 0 \<or> internal_tag k < internal_tag (fst (xs ! j))"
      using icmp_less_iff [OF xo(1) ko(1), of j] j(1) n ko(3) by (auto simp: e_user_def)
    moreover have "unat (internal_tag (fst (xs ! j))) \<le> 256 * unat (e_seq (xs ! j)) + 1" using tag_bound e j(1) n by simp
    then have "unat (internal_tag (fst (xs ! j))) \<le> unat (internal_tag k)" using j(2) tag by (simp add: word_le_nat_alt)
    ultimately show "cm_Compare C (e_user (xs ! j)) t < 0" by (simp add: word_less_nat_alt)
  next
    assume j: "n \<le> j" "j < length xs"
    have nl: "n < length xs" using j by simp
    then have "\<not> P (xs ! n)" using nth_length_takeWhile [of P xs] by (simp add: n(1))
    then have "\<not> cm_Compare C (e_user (xs ! n)) t < 0" using icmp_less_iff [OF xo(1) [OF nl] ko(1)] ko(3) by (auto simp: P_def e_user_def)
    then have "cm_Compare C t (e_user (xs ! n)) \<le> 0" using cmp_swap_signs [OF xo(2) [OF nl] ko(2)] by linarith
    then have "cm_Compare C t (e_user (xs ! j)) \<le> 0"
      using cmp_trans [OF ko(2) xo(2) [OF nl] xo(2) [OF j(2)]] users_sorted(2) [OF r j(2,1)] by blast
    then show "\<not> cm_Compare C (e_user (xs ! j)) t < 0" using cmp_swap_signs [OF ko(2) xo(2) [OF j(2)]] by linarith
  }
qed

lemma vis_takeWhile:
  assumes r: "rep i xs p" and e: "\<forall>e \<in> set xs. e_parses e" and s: "s \<le> kMaxSequenceNumber" and t: "key_ok ok t"
  shows "length (takeWhile (\<lambda>e. cm_Compare C (fst e) t < 0) (vis_list s xs)) =
    rank s xs (length (takeWhile (\<lambda>e. icmp (fst e) (InternalKey t s kTypeValue) < 0) xs))"
proof -
  define n where "n = length (takeWhile (\<lambda>e. icmp (fst e) (InternalKey t s kTypeValue) < 0) xs)"
  define f where "f = (\<lambda>i. (e_user (xs ! i), snd (xs ! i)))"
  note sp = seek_split [OF assms, folded n_def]
  have "n \<le> length xs" by (simp add: n_def length_takeWhile_le)
  then have "[0..<length xs] = [0..<n] @ [n..<length xs]" using upt_add_eq_append [of 0 n "length xs - n"] by simp
  then have v: "vis_list s xs = map f (filter (visible s xs) [0..<n]) @ map f (filter (visible s xs) [n..<length xs])"
    by (simp add: vis_list_def f_def)
  have "takeWhile (\<lambda>e. cm_Compare C (fst e) t < 0) (map f (filter (visible s xs) [n..<length xs])) = []"
    using while_none [of "map f (filter (visible s xs) [n..<length xs])" "\<lambda>e. cm_Compare C (fst e) t < 0"] sp(2) by (auto simp: f_def)
  moreover have "\<forall>e \<in> set (map f (filter (visible s xs) [0..<n])). cm_Compare C (fst e) t < 0"
    using sp(1) by (auto simp: f_def visible_def)
  ultimately have "takeWhile (\<lambda>e. cm_Compare C (fst e) t < 0) (vis_list s xs) = map f (filter (visible s xs) [0..<n])"
    unfolding v by (subst takeWhile_append2) auto
  then show ?thesis by (simp add: rank_def n_def)
qed

lemma dbi_seek:
  assumes "db_rep rep d vs q" and t: "key_ok ok t"
  shows "\<exists>d'. dbi_Seek IT C t d = Some d' \<and> db_rep rep d' vs (length (takeWhile (\<lambda>e. cm_Compare C (fst e) t < 0) vs))"
proof -
  obtain xs p where x: "rep (bi_iter d) xs p" "\<forall>e \<in> set xs. e_parses e" "vs = vis_list (bi_sequence d) xs"
      "seed_ok (bi_rnd d)" "bi_sequence d \<le> kMaxSequenceNumber" using db_repE [OF assms(1)] .
  define k where "k = InternalKey t (bi_sequence d) kTypeValue"
  define n where "n = length (takeWhile (\<lambda>e. icmp (fst e) k < 0) xs)"
  have "ikey_ok ok k" using t by (simp add: ikey_ok_def internal_ok_def k_def key_ok_def)
  then obtain i where i: "it_Seek IT k (bi_iter d) = Some i" "rep i xs n" using inner.seek [OF x(1)] unfolding n_def by blast
  have hide: "\<not> e_seq (xs ! j) \<le> bi_sequence d"
    if "n \<le> j" "j < length xs" "j' < n" "e_user (xs ! j') = e_user (xs ! j)" "e_seq (xs ! j') \<le> bi_sequence d" for j j'
    using seek_split(1) [OF x(1,2,5) t, folded k_def, folded n_def, of j'] seek_split(2) [OF x(1,2,5) t, folded k_def, folded n_def, of j] that by simp
  show ?thesis
    using search_from [OF i(2) x(2), of "d\<lparr>bi_direction := kForward, bi_saved_value := [], bi_saved_key := k, bi_iter := i\<rparr>"]
      x i(1) hide vis_takeWhile [OF x(1,2,5) t]
    by (simp add: dbi_Seek_def Let_def k_def [symmetric] InternalKey_def [symmetric] kValueTypeForSeek_def n_def)
qed

lemma found_after:
  assumes f: "next_found rep xs n (\<lambda>j. visible s xs j \<and> \<not> (True \<and> e_user (xs ! j) = e_user (xs ! c))) d" and n: "n \<le> c"
    and c: "visible s xs c" and none: "\<forall>j. n \<le> j \<longrightarrow> j < c \<longrightarrow> \<not> visible s xs j"
  shows "next_found rep xs (c + 1) (visible s xs) d"
proof -
  define Q where "Q = (\<lambda>j. visible s xs j \<and> e_user (xs ! j) \<noteq> e_user (xs ! c))"
  have before: "\<not> Q j" if "n \<le> j" "j \<le> c" for j using none that by (cases "j = c") (auto simp: Q_def)
  have after: "Q j \<longleftrightarrow> visible s xs j" if "c < j" for j using c that by (auto simp: Q_def visible_def)
  have f': "next_found rep xs n Q d" using f by (simp add: Q_def)
  show ?thesis
  proof (cases "bi_valid d")
    case True
    then obtain c' where c': "rep (bi_iter d) xs c'" "n \<le> c'" "Q c'" "\<forall>j. n \<le> j \<longrightarrow> j < c' \<longrightarrow> \<not> Q j"
      using f' by (auto simp: next_found_def)
    have "c < c'" using before [of c'] c'(2,3) by (meson not_le)
    moreover have "\<not> visible s xs j" if "c + 1 \<le> j" "j < c'" for j using c'(4) after [of j] n that by simp
    ultimately show ?thesis using True c'(1,3) after [of c'] unfolding next_found_def by (simp, intro exI [of _ c']) auto
  next
    case False
    then have "\<not> visible s xs j" if "c + 1 \<le> j" "j < length xs" for j using f' after [of j] n that by (simp add: next_found_def)
    then show ?thesis using f' False by (simp add: next_found_def)
  qed
qed

lemma next_from:
  assumes r: "rep i xs n" and e: "\<forall>e \<in> set xs. e_parses e" and o: "seed_ok (bi_rnd d)" and s: "bi_sequence d \<le> kMaxSequenceNumber"
    and d: "bi_direction d = kForward" "bi_iter d = i" "bi_saved_key d = e_user (xs ! c)"
    and c: "visible (bi_sequence d) xs c" and n: "n \<le> c" and gap: "\<forall>j. n \<le> j \<longrightarrow> j < c \<longrightarrow> \<not> e_seq (xs ! j) \<le> bi_sequence d"
  shows "\<exists>d'. FindNextUserEntry IT C True d = Some d' \<and> db_rep rep d' (vis_list (bi_sequence d) xs) (rank (bi_sequence d) xs c + 1)"
proof -
  have cl: "c < length xs" using c by (rule visible_less)
  have late: "c \<le> j" if "n \<le> j" "e_seq (xs ! j) \<le> bi_sequence d" for j using gap that by (meson not_le)
  have same: "e_user (xs ! j) = e_user (xs ! c)"
    if "n \<le> j" "j < length xs" "j' < n" "e_user (xs ! j') = e_user (xs ! j)" "e_seq (xs ! j) \<le> bi_sequence d" for j j'
    using users_between [OF r, of j' c j] that n late [OF that(1,5)] by simp
  have "ok (e_user (xs ! c))" using users_sorted(1) [OF r cl] by simp
  moreover have "cm_Compare C (e_user (xs ! c)) (e_user (xs ! j)) \<le> 0" if "n \<le> j" "j < length xs" "e_seq (xs ! j) \<le> bi_sequence d" for j
    using users_sorted(2) [OF r that(2) late [OF that(1,3)]] .
  ultimately have "skips (bi_sequence d) xs n True (bi_saved_key d)" using same d(3) by metis
  from FindNext_rep [OF _ _ e o this] obtain d' where d': "FindNextUserEntry IT C True d = Some d'" "bi_sequence d' = bi_sequence d"
      "bi_direction d' = bi_direction d" "seed_ok (bi_rnd d')"
      "next_found rep xs n (\<lambda>j. visible (bi_sequence d) xs j \<and> \<not> (True \<and> e_user (xs ! j) = e_user (xs ! c))) d'"
    using r d n cl by auto
  have "next_found rep xs (c + 1) (visible (bi_sequence d) xs) d'"
    by (rule found_after [OF d'(5) n c]) (use gap in \<open>auto simp: visible_def\<close>)
  then have "db_rep rep d' (vis_list (bi_sequence d) xs) (rank (bi_sequence d) xs (c + 1))"
    using next_found_rep [of xs "c + 1" d'] d' cl e s d(1) by simp
  then show ?thesis using d'(1) rank_Suc [OF c] by simp
qed

lemma dbi_next:
  assumes "db_rep rep d vs q" and "q < length vs"
  shows "\<exists>d'. dbi_Next IT C d = Some d' \<and> db_rep rep d' vs (q + 1)"
proof -
  obtain xs p where x: "rep (bi_iter d) xs p" "\<forall>e \<in> set xs. e_parses e" "vs = vis_list (bi_sequence d) xs"
      "seed_ok (bi_rnd d)" "bi_sequence d \<le> kMaxSequenceNumber"
      "if bi_valid d
         then \<exists>c. visible (bi_sequence d) xs c \<and> q = rank (bi_sequence d) xs c \<and>
                (if bi_direction d = kForward then p = c
                 else bi_saved_key d = e_user (xs ! c) \<and> bi_saved_value d = snd (xs ! c) \<and> before (bi_sequence d) xs c p)
         else q = length vs" using db_repE [OF assms(1)] .
  then have v: "bi_valid d" using assms(2) by (auto split: if_splits)
  then obtain c where c: "visible (bi_sequence d) xs c" "q = rank (bi_sequence d) xs c"
      "if bi_direction d = kForward then p = c
       else bi_saved_key d = e_user (xs ! c) \<and> bi_saved_value d = snd (xs ! c) \<and> before (bi_sequence d) xs c p" using x(6) by auto
  have cl: "c < length xs" using c(1) by (rule visible_less)
  show ?thesis
  proof (cases "bi_direction d")
    case kForward
    then have p: "p = c" using c(3) by simp
    have "it_key IT (bi_iter d) = Some (fst (xs ! c))" using inner.current [OF x(1)] p cl by simp
    then show ?thesis
      using next_from [OF x(1,2), of "d\<lparr>bi_saved_key := e_user (xs ! c)\<rparr>" c] x kForward v c(1,2) p
      by (simp add: dbi_Next_def e_user_def)
  next
    case kReverse
    then have b: "bi_saved_key d = e_user (xs ! c)" "before (bi_sequence d) xs c p" using c(3) by auto
    define n where "n = (if p < length xs then p + 1 else 0)"
    have n: "n \<le> c" "\<forall>j. n \<le> j \<longrightarrow> j < c \<longrightarrow> \<not> e_seq (xs ! j) \<le> bi_sequence d"
      using b(2) by (auto simp: before_def n_def split: if_splits)
    obtain i where i: "(if \<not> it_Valid IT (bi_iter d) then it_SeekToFirst IT (bi_iter d) else it_Next IT (bi_iter d)) = Some i" "rep i xs n"
      using inner.valid_iff [OF x(1)] inner.to_first [OF x(1)] inner.to_next [OF x(1)] by (cases "p < length xs") (auto simp: n_def)
    have "it_Valid IT i" using inner.valid_iff [OF i(2)] n(1) cl by simp
    then show ?thesis
      using next_from [OF i(2) x(2), of "d\<lparr>bi_direction := kForward, bi_iter := i\<rparr>" c] x v b c(1,2) n i(1) kReverse
      by (simp add: dbi_Next_def Let_def)
  qed
qed

lemma prev_from:
  assumes r: "rep i xs p" and pm: "p < length xs \<and> m = p + 1 \<or> p = length xs \<and> m = 0" and e: "\<forall>e \<in> set xs. e_parses e"
    and o: "seed_ok (bi_rnd d)" and s: "bi_sequence d \<le> kMaxSequenceNumber" and d: "bi_direction d = kReverse" "bi_iter d = i"
  shows "\<exists>d'. FindPrevUserEntry IT C d = Some d' \<and> db_rep rep d' (vis_list (bi_sequence d) xs)
    (if rank (bi_sequence d) xs m = 0 then length (vis_list (bi_sequence d) xs) else rank (bi_sequence d) xs m - 1)"
proof -
  obtain d' where d': "FindPrevUserEntry IT C d = Some d'" "bi_sequence d' = bi_sequence d" "seed_ok (bi_rnd d')"
    "prev_found rep (bi_sequence d) xs m (if bi_valid d' then kTypeValue else kTypeDeletion) d'"
    "bi_direction d' = (if bi_valid d' then bi_direction d else kForward)"
    using FindPrev_rep [OF _ pm e o] r d by auto
  have "m \<le> length xs" using pm by auto
  then show ?thesis using prev_found_rep [of d' xs m] d' e s d(1) by auto
qed

lemma dbi_last:
  assumes "db_rep rep d vs q"
  shows "\<exists>d'. dbi_SeekToLast IT C d = Some d' \<and> db_rep rep d' vs (length vs - 1)"
proof -
  obtain xs p where x: "rep (bi_iter d) xs p" "\<forall>e \<in> set xs. e_parses e" "vs = vis_list (bi_sequence d) xs"
      "seed_ok (bi_rnd d)" "bi_sequence d \<le> kMaxSequenceNumber" using db_repE [OF assms] .
  obtain i where i: "it_SeekToLast IT (bi_iter d) = Some i" "rep i xs (length xs - 1)" using inner.to_last [OF x(1)] by blast
  have "length xs - 1 < length xs \<and> length xs = length xs - 1 + 1 \<or> length xs - 1 = length xs \<and> length xs = 0" by (cases xs) auto
  from prev_from [OF i(2) this x(2), of "d\<lparr>bi_direction := kReverse, bi_saved_value := [], bi_iter := i\<rparr>"]
  show ?thesis using x i(1) rank_length [of "bi_sequence d" xs] by (auto simp: dbi_SeekToLast_def split: if_splits)
qed

lemma dbi_prev:
  assumes "db_rep rep d vs q" and "q < length vs"
  shows "\<exists>d'. dbi_Prev IT C d = Some d' \<and> db_rep rep d' vs (if q = 0 then length vs else q - 1)"
proof -
  obtain xs p where x: "rep (bi_iter d) xs p" "\<forall>e \<in> set xs. e_parses e" "vs = vis_list (bi_sequence d) xs"
      "seed_ok (bi_rnd d)" "bi_sequence d \<le> kMaxSequenceNumber"
      "if bi_valid d
         then \<exists>c. visible (bi_sequence d) xs c \<and> q = rank (bi_sequence d) xs c \<and>
                (if bi_direction d = kForward then p = c
                 else bi_saved_key d = e_user (xs ! c) \<and> bi_saved_value d = snd (xs ! c) \<and> before (bi_sequence d) xs c p)
         else q = length vs" using db_repE [OF assms(1)] .
  then have v: "bi_valid d" using assms(2) by (auto split: if_splits)
  then obtain c where c: "visible (bi_sequence d) xs c" "q = rank (bi_sequence d) xs c"
      "if bi_direction d = kForward then p = c
       else bi_saved_key d = e_user (xs ! c) \<and> bi_saved_value d = snd (xs ! c) \<and> before (bi_sequence d) xs c p" using x(6) by auto
  have cl: "c < length xs" using c(1) by (rule visible_less)
  show ?thesis
  proof (cases "bi_direction d")
    case kReverse
    define m where "m = (if p < length xs then p + 1 else 0)"
    have b: "before (bi_sequence d) xs c p" using c(3) kReverse by auto
    have "p \<le> length xs" using inner.rep_order [OF x(1)] by blast
    then have pm: "p < length xs \<and> m = p + 1 \<or> p = length xs \<and> m = 0" by (auto simp: m_def)
    have "rank (bi_sequence d) xs c = rank (bi_sequence d) xs m"
      by (rule rank_none) (use b in \<open>auto simp: before_def m_def visible_def split: if_splits\<close>)
    then show ?thesis using prev_from [OF x(1) pm x(2,4,5) kReverse] v kReverse x(3) c(2)
      by (cases "rank (bi_sequence d) xs m = 0") (simp_all add: dbi_Prev_def)
  next
    case kForward
    then have p: "p = c" using c(3) by simp
    have k: "it_key IT (bi_iter d) = Some (fst (xs ! c))" using inner.current [OF x(1)] p cl by simp
    have ok: "ok (e_user (xs ! c))" using users_sorted(1) [OF x(1) cl] by simp
    obtain more i' p' where l: "back_loop IT C (e_user (xs ! c)) (bi_iter d) = Some (more, i')" "rep i' xs p'"
      "if more then p' < c \<and> cm_Compare C (e_user (xs ! p')) (e_user (xs ! c)) < 0 \<and>
          (\<forall>j. p' < j \<longrightarrow> j < c \<longrightarrow> \<not> cm_Compare C (e_user (xs ! j)) (e_user (xs ! c)) < 0)
       else (\<forall>j<c. \<not> cm_Compare C (e_user (xs ! j)) (e_user (xs ! c)) < 0)"
      using back_loop_rep [OF x(1) _ ok] p cl by blast
    show ?thesis
    proof (cases more)
      case True
      then have p': "p' < c" "\<forall>j. p' + 1 \<le> j \<longrightarrow> j < c \<longrightarrow> \<not> visible (bi_sequence d) xs j"
        using l(3) hidden_before [OF x(1) c(1)] by auto
      have "rank (bi_sequence d) xs c = rank (bi_sequence d) xs (p' + 1)" by (rule rank_none) (use p' in auto)
      then show ?thesis
        using prev_from [OF l(2) _ x(2), of "p' + 1" "d\<lparr>bi_iter := i', bi_saved_key := e_user (xs ! c), bi_direction := kReverse\<rparr>"]
          True p'(1) cl v kForward x k l(1) c(2)
        by (cases "rank (bi_sequence d) xs (p' + 1) = 0") (simp_all add: dbi_Prev_def e_user_def)
    next
      case False
      then have "\<forall>j. 0 \<le> j \<longrightarrow> j < c \<longrightarrow> \<not> visible (bi_sequence d) xs j" using l(3) hidden_before [OF x(1) c(1)] by auto
      then have "q = 0" using rank_none [of 0 c "bi_sequence d" xs] c(2) by (simp add: rank_def)
      then show ?thesis using False v kForward x k l unfolding db_rep_def by (auto simp: dbi_Prev_def e_user_def)
    qed
  qed
qed

lemma DBIter_laws: "iter_laws (cm_Compare C) (key_ok ok) (DBIter IT C) (db_rep rep)"
proof
  fix d vs q assume r: "db_rep rep d vs q"
  obtain xs p where x: "rep (bi_iter d) xs p" "vs = vis_list (bi_sequence d) xs"
      "if bi_valid d
         then \<exists>c. visible (bi_sequence d) xs c \<and> q = rank (bi_sequence d) xs c \<and>
                (if bi_direction d = kForward then p = c
                 else bi_saved_key d = e_user (xs ! c) \<and> bi_saved_value d = snd (xs ! c) \<and> before (bi_sequence d) xs c p)
         else q = length vs" using db_repE [OF r] .
  show "oset_sorted (cm_Compare C) (map fst vs) \<and> (\<forall>e \<in> set vs. key_ok ok (fst e)) \<and> q \<le> length vs"
    using vis_sorted [OF x(1), of "bi_sequence d"] x(2,3) rank_visible(1) by (fastforce split: if_splits)
  show "it_Valid (DBIter IT C) d \<longleftrightarrow> q < length vs" using x(2,3) rank_visible(1) by (auto simp: DBIter_def split: if_splits)
  show "\<exists>d'. it_SeekToFirst (DBIter IT C) d = Some d' \<and> db_rep rep d' vs 0" using dbi_first [OF r] by (simp add: DBIter_def)
  show "\<exists>d'. it_SeekToLast (DBIter IT C) d = Some d' \<and> db_rep rep d' vs (length vs - 1)" using dbi_last [OF r] by (simp add: DBIter_def)
  {
    fix t assume "key_ok ok t"
    then show "\<exists>d'. it_Seek (DBIter IT C) t d = Some d' \<and> db_rep rep d' vs (length (takeWhile (\<lambda>e. cm_Compare C (fst e) t < 0) vs))"
      using dbi_seek [OF r] by (simp add: DBIter_def)
  }
  assume q: "q < length vs"
  show "\<exists>d'. it_Next (DBIter IT C) d = Some d' \<and> db_rep rep d' vs (q + 1)" using dbi_next [OF r q] by (simp add: DBIter_def)
  show "\<exists>d'. it_Prev (DBIter IT C) d = Some d' \<and> db_rep rep d' vs (if q = 0 then length vs else q - 1)"
    using dbi_prev [OF r q] by (simp add: DBIter_def)
  show "it_key (DBIter IT C) d = Some (fst (vs ! q)) \<and> it_value (DBIter IT C) d = Some (snd (vs ! q))"
  proof -
    have v: "bi_valid d" using x(3) q by (auto split: if_splits)
    then obtain c where c: "visible (bi_sequence d) xs c" "q = rank (bi_sequence d) xs c"
      "if bi_direction d = kForward then p = c
       else bi_saved_key d = e_user (xs ! c) \<and> bi_saved_value d = snd (xs ! c) \<and> before (bi_sequence d) xs c p" using x(3) by auto
    have "vs ! q = (e_user (xs ! c), snd (xs ! c))" using rank_visible(2) [OF c(1)] c(2) x(2) by simp
    then show ?thesis
      using v c(3) inner.current [OF x(1)] visible_less [OF c(1)]
      by (cases "bi_direction d") (auto simp: DBIter_def dbi_key_def dbi_value_def e_user_def)
  qed
qed

end

sublocale dbiter_laws \<subseteq> user: iter_laws "cm_Compare C" "key_ok ok" "DBIter IT C" "db_rep rep"
  by (rule DBIter_laws)

text \<open>A database iterator over the iterator of a memtable.\<close>

sublocale comparator_laws \<subseteq> mem_db: dbiter_laws C ok "MemTableIterator C" "mem_rep C ok"
  by unfold_locales

section \<open>Scans and lookups agree\<close>

text \<open>The entry of an operation in a memtable.\<close>

lemma mo_ikey_entry:
  assumes "mo_valid ok m"
  shows "e_parses (mo_ikey m, v)" and "e_user (mo_ikey m, v) = mo_key m" and "e_seq (mo_ikey m, v) = mo_seq m"
    and "e_type (mo_ikey m, v) = mo_type m"
proof -
  have p: "ParseInternalKey (mo_ikey m) = Some \<lparr>pik_user_key = mo_key m, pik_sequence = mo_seq m, pik_type = mo_type m\<rparr>"
    using ParseInternalKey_append [of "\<lparr>pik_user_key = mo_key m, pik_sequence = mo_seq m, pik_type = mo_type m\<rparr>"] assms
    by (simp add: mo_valid_def mo_ikey_def InternalKey_def)
  then show e: "e_parses (mo_ikey m, v)" by (simp add: e_parses_def)
  show "e_user (mo_ikey m, v) = mo_key m" "e_seq (mo_ikey m, v) = mo_seq m" "e_type (mo_ikey m, v) = mo_type m"
    using e_parse [OF e] p by simp_all
qed

context comparator_laws
begin

lemma mem_before_iff:
  assumes r: "mem_rep C ok i xs p" and b: "b < length xs" and a: "a < length xs"
    and v: "mo_valid ok m" "mo_valid ok m'" and e: "fst (xs ! a) = mo_ikey m" "fst (xs ! b) = mo_ikey m'" and k: "mo_key m = mo_key m'"
  shows "a < b \<longleftrightarrow> internal_tag (mo_ikey m') < internal_tag (mo_ikey m)"
proof -
  have o: "internal_ok ok (mo_ikey m)" "internal_ok ok (mo_ikey m')" using v by (auto simp: internal_ok_def mo_valid_def)
  have s: "sorted_wrt (\<lambda>x y. icmp x y < 0) (map fst xs)" using mem_iter.rep_order [OF r] by (simp add: oset_sorted_def)
  have less: "icmp (fst (xs ! x)) (fst (xs ! y)) < 0" if "x < y" "y < length xs" for x y
    using s that by (simp add: sorted_wrt_iff_nth_less)
  have "a < b \<Longrightarrow> icmp (mo_ikey m) (mo_ikey m') < 0" "b < a \<Longrightarrow> icmp (mo_ikey m') (mo_ikey m) < 0" using less a b e by metis+
  moreover have "a = b \<Longrightarrow> mo_ikey m = mo_ikey m'" using e by simp
  moreover have kk: "cm_Compare C (mo_key m') (mo_key m') = 0" using cmp_self v(2) by (simp add: mo_valid_def)
  ultimately show ?thesis
    using icmp_less_iff [OF o] icmp_less_iff [OF o(2,1)] k by (cases a b rule: linorder_cases) auto
qed

lemma visible_newest:
  assumes h: "mt_holds C ok mt ops" and r: "mem_rep C ok i xs p" and x: "set xs = (\<lambda>m. (mo_ikey m, mo_val m)) ` set ops"
    and k: "key_ok ok k" and s: "s \<le> kMaxSequenceNumber"
  shows "(k, v) \<in> set (vis_list s xs) \<longleftrightarrow> MemTable_Get C mt (LookupKey k s) [] Status_OK = Some (True, v, Status_OK)"
proof -
  have so: "sorted_wrt (\<lambda>a b. mo_seq a < mo_seq b) ops" and va: "\<And>m. m \<in> set ops \<Longrightarrow> mo_valid ok m"
    using h by (auto simp: mt_holds_def list_all_iff)
  have op: "\<exists>m \<in> set ops. xs ! j = (mo_ikey m, mo_val m)" if "j < length xs" for j using x nth_mem [OF that] by auto
  have idx: "\<exists>j<length xs. xs ! j = (mo_ikey m, mo_val m)" if "m \<in> set ops" for m
  proof -
    have "(mo_ikey m, mo_val m) \<in> set xs" using x that by blast
    then show ?thesis by (simp add: in_set_conv_nth)
  qed
  have tag: "mo_seq m \<le> mo_seq m'" if "internal_tag (mo_ikey m) < internal_tag (mo_ikey m')" "m \<in> set ops" "m' \<in> set ops" for m m'
    using that(1) value_type_less [of "mo_type m'"] unfolding word_less_nat_alt mo_tag [OF va [OF that(2)]] mo_tag [OF va [OF that(3)]] word_le_nat_alt
    by linarith
  have "(k, v) \<in> set (vis_list s xs) \<longleftrightarrow> (\<exists>m. mem_newest ops k s = Some m \<and> mo_type m = kTypeValue \<and> v = mo_val m)"
  proof
    assume "(k, v) \<in> set (vis_list s xs)"
    then obtain j where j: "visible s xs j" "e_user (xs ! j) = k" "snd (xs ! j) = v" by (auto simp: vis_list_def)
    have jl: "j < length xs" using j(1) by (rule visible_less)
    obtain m where m: "m \<in> set ops" "xs ! j = (mo_ikey m, mo_val m)" using op [OF jl] by blast
    note en = mo_ikey_entry [OF va [OF m(1)]]
    have mk: "mo_key m = k" "mo_seq m \<le> s" "mo_type m = kTypeValue" using j en m by (auto simp: visible_def)
    then have "mem_newest ops k s \<noteq> None" using m(1) by (auto simp: mem_newest_def find_None_iff)
    then obtain m' where m': "mem_newest ops k s = Some m'" by blast
    note n = mem_newest_Some [OF so m']
    obtain j' where j': "j' < length xs" "xs ! j' = (mo_ikey m', mo_val m')" using idx [OF n(1)] by blast
    have "e_user (xs ! j') = e_user (xs ! j)" "e_seq (xs ! j') \<le> s"
      using mo_ikey_entry [OF va [OF n(1)]] n(2,3) j'(2) j(2) by simp_all
    then have "\<not> j' < j" using j(1) unfolding visible_def by blast
    then have "\<not> internal_tag (mo_ikey m) < internal_tag (mo_ikey m')"
      using mem_before_iff [OF r jl j'(1) va [OF n(1)] va [OF m(1)]] j'(2) m(2) n(2) mk(1) by simp
    then have "unat (mo_seq m') \<le> unat (mo_seq m)"
      using value_type_less [of "mo_type m"]
      unfolding word_less_nat_alt mo_tag [OF va [OF m(1)]] mo_tag [OF va [OF n(1)]] by linarith
    then have "mo_seq m' \<le> mo_seq m" by (simp add: word_le_nat_alt)
    then have "mo_seq m = mo_seq m'" using n(4) [OF m(1) mk(1,2)] by (rule antisym [rotated])
    then have "m = m'" by (rule n(5) [OF m(1)])
    then show "\<exists>m. mem_newest ops k s = Some m \<and> mo_type m = kTypeValue \<and> v = mo_val m" using m' mk j(3) m(2) by auto
  next
    assume "\<exists>m. mem_newest ops k s = Some m \<and> mo_type m = kTypeValue \<and> v = mo_val m"
    then obtain m where m: "mem_newest ops k s = Some m" "mo_type m = kTypeValue" "v = mo_val m" by blast
    note n = mem_newest_Some [OF so m(1)] and en = mo_ikey_entry [OF va [OF mem_newest_Some(1) [OF so m(1)]]]
    obtain j where j: "j < length xs" "xs ! j = (mo_ikey m, mo_val m)" using idx [OF n(1)] by blast
    have "\<not> e_seq (xs ! j') \<le> s" if j': "j' < j" "e_user (xs ! j') = e_user (xs ! j)" for j'
    proof
      assume q: "e_seq (xs ! j') \<le> s"
      have jl: "j' < length xs" using j(1) j'(1) by simp
      obtain m' where m': "m' \<in> set ops" "xs ! j' = (mo_ikey m', mo_val m')" using op [OF jl] by blast
      note en' = mo_ikey_entry [OF va [OF m'(1)]]
      have k': "mo_key m' = k" "mo_seq m' \<le> s" using j'(2) q en en' m'(2) j(2) n(2) by auto
      have lt: "internal_tag (mo_ikey m) < internal_tag (mo_ikey m')"
        using mem_before_iff [OF r j(1) jl va [OF m'(1)] va [OF n(1)]] m'(2) j(2) k'(1) n(2) j'(1) by simp
      have "mo_seq m' = mo_seq m" using tag [OF lt n(1) m'(1)] n(4) [OF m'(1) k'] by simp
      then have "m' = m" using n(5) m'(1) by blast
      then show False using lt by simp
    qed
    then have "visible s xs j" using j en m(2) n(3) by (auto simp: visible_def)
    then have "(e_user (xs ! j), snd (xs ! j)) \<in> set (vis_list s xs)" unfolding vis_list_def set_map using j(1) by simp
    then show "(k, v) \<in> set (vis_list s xs)" using j(2) en n(2) m(3) by simp
  qed
  moreover have "MemTable_Get C mt (LookupKey k s) [] Status_OK = Some (mem_answer (mem_newest ops k s) [] Status_OK)"
    using Get_holds [OF h _ _ s] k by (simp add: key_ok_def)
  ultimately show ?thesis
    by (auto simp: mem_answer_def Status_OK_def Status_NotFound_def Status_new_def Let_def split: option.splits ValueType.splits)
qed

end

section \<open>Properties\<close>

text \<open>
  C25.  The database iterator is an iterator over the visible user entries: over any inner iterator that meets the
  iterator contract for internal keys, it meets the same contract for user keys, with the entries that are visible at
  its sequence number.  Every operation returns, also after the direction has changed between calls.
\<close>

theorem dbiter_refines:
  assumes "dbiter_laws C ok IT rep"
  shows "iter_laws (cm_Compare C) (key_ok ok) (DBIter IT C) (db_rep rep)"
  using dbiter_laws.DBIter_laws [OF assms] .

theorem dbiter_refines_witness:
  "iter_laws (cm_Compare BytewiseComparator) (key_ok (\<lambda>_. True)) (DBIter (MemTableIterator BytewiseComparator) BytewiseComparator)
    (db_rep (mem_rep BytewiseComparator (\<lambda>_. True)))"
  using dbiter_refines [OF bytewise.mem_db.dbiter_laws_axioms] .

text \<open>
  C26.  A scan and the lookups agree: walking over a memtable with the database iterator, forward from the first entry or
  backward from the last, ends and meets exactly the keys and values that \<^verbatim>\<open>Get\<close> returns at the
  sequence number of the iterator, in the order of the keys.
\<close>

theorem scan_agrees_with_get:
  assumes "comparator_laws C ok" and "mt_holds C ok mt ops" and "s \<le> kMaxSequenceNumber"
  shows "\<exists>vs. Option.bind (dbi_SeekToFirst (MemTableIterator C) C (NewDBIterator (MemTable_NewIterator mt) s seed))
        (iter_scan (DBIter (MemTableIterator C) C)) = Some vs \<and>
      Option.bind (dbi_SeekToLast (MemTableIterator C) C (NewDBIterator (MemTable_NewIterator mt) s seed))
        (iter_scan_back (DBIter (MemTableIterator C) C)) = Some (rev vs) \<and>
      oset_sorted (cm_Compare C) (map fst vs) \<and>
      (\<forall>k v. key_ok ok k \<longrightarrow>
        ((k, v) \<in> set vs \<longleftrightarrow> MemTable_Get C mt (LookupKey k s) [] Status_OK = Some (True, v, Status_OK)))"
proof -
  obtain xs where x: "mem_rep C ok (MemTable_NewIterator mt) xs (length xs)" "set xs = (\<lambda>m. (mo_ikey m, mo_val m)) ` set ops"
    using comparator_laws.mem_rep_holds [OF assms(1,2)] .
  have "e_parses e" if "e \<in> set xs" for e
    using that x(2) mo_ikey_entry(1) assms(2) by (auto simp: mt_holds_def list_all_iff)
  then have d: "db_rep (mem_rep C ok) (NewDBIterator (MemTable_NewIterator mt) s seed) (vis_list s xs) (length (vis_list s xs))"
    unfolding db_rep_def using x(1) assms(3) Random_Next_ok [OF Random_ok]
    by (auto simp: NewDBIterator_def RandomPeriod_def)
  have l: "iter_laws (cm_Compare C) (key_ok ok) (DBIter (MemTableIterator C) C) (db_rep (mem_rep C ok))"
    using dbiter_laws.DBIter_laws [OF dbiter_laws.intro [OF assms(1) comparator_laws.mem_iter_laws [OF assms(1)]]] .
  show ?thesis
    using iter_laws.scan_first [OF l d] iter_laws.scan_back_last [OF l d] iter_laws.rep_order [OF l d]
      comparator_laws.visible_newest [OF assms(1,2) x] assms(3)
    by (intro exI [of _ "vis_list s xs"]) (simp add: DBIter_def)
qed

theorem scan_agrees_with_get_witness:
  "\<exists>mt vs. MemTable_Add BytewiseComparator 3 kTypeValue [5] [9] MemTable_new = Some mt \<and>
    Option.bind (dbi_SeekToFirst (MemTableIterator BytewiseComparator) BytewiseComparator (NewDBIterator (MemTable_NewIterator mt) 7 1))
        (iter_scan (DBIter (MemTableIterator BytewiseComparator) BytewiseComparator)) = Some vs \<and> ([5], [9]) \<in> set vs"
proof -
  define m where "m = \<lparr>mo_seq = 3, mo_type = kTypeValue, mo_key = [5], mo_val = [9]\<rparr>"
  have "mo_valid (\<lambda>_. True) m" by (simp add: m_def mo_valid_def kMaxSequenceNumber_def)
  from bytewise.Add_holds [OF bytewise.new_holds this] obtain mt where
    mt: "MemTable_Add BytewiseComparator 3 kTypeValue [5] [9] MemTable_new = Some mt"
      "mt_holds BytewiseComparator (\<lambda>_. True) mt [m]" by (auto simp: m_def)
  have "MemTable_Get BytewiseComparator mt (LookupKey [5] 7) [] Status_OK = Some (True, [9], Status_OK)"
    using bytewise.Get_holds [OF mt(2), of "[5]" 7] by (simp add: kMaxSequenceNumber_def mem_newest_def mem_answer_def m_def)
  then show ?thesis
    using scan_agrees_with_get [OF bytewise.comparator_laws_axioms mt(2), of 7 1] mt(1) by (auto simp: kMaxSequenceNumber_def key_ok_def)
qed

end
