(* ===== verification/Lvl_Bind.thy ===== *)
theory Lvl_Bind
  imports Lvl_DbImpl Lvl_DbIter Lmdb_World Kv_Codec
begin

text \<open>
  The LevelDB half of the binding, \<^verbatim>\<open>src/src/leveldb\<close>: the handlers of the database, batch
  and cursor objects.  What they call of LevelDB is the record \<open>'e ldb\<close>; its contract is the locale
  \<open>ldb_laws\<close>, which is discharged for the database of \<open>Lvl_DbImpl\<close>, and the contract of its
  iterators the locale \<open>it_laws\<close>, discharged for the iterators of \<open>Lvl_DbIter\<close>.
\<close>

section \<open>The library interface\<close>

datatype iter_move = MoveNext | MovePrev | MoveFirst | MoveLast | MoveSeek bytes

text \<open>Pointers are natural numbers and \<open>0\<close> is \<^verbatim>\<open>NULL\<close>.  A call is \<open>None\<close>
  when it does not return, or for an iterator when its behaviour is undefined.  The key and the value of an iterator
  are slices into memory that goes on behind them.\<close>

record 'e itops =
  ld_DeleteIterator :: "ptr \<Rightarrow> 'e \<Rightarrow> 'e"
  ld_Valid :: "ptr \<Rightarrow> 'e \<Rightarrow> bool"
  ld_move :: "iter_move \<Rightarrow> ptr \<Rightarrow> 'e \<Rightarrow> 'e option"
  ld_key :: "ptr \<Rightarrow> 'e \<Rightarrow> mdb_val option"
  ld_value :: "ptr \<Rightarrow> 'e \<Rightarrow> mdb_val option"

record 'e ldb = "'e itops" +
  ld_NewLRUCache :: "nat \<Rightarrow> 'e \<Rightarrow> ptr \<times> 'e"
  ld_DeleteCache :: "ptr \<Rightarrow> 'e \<Rightarrow> 'e"
  ld_Open :: "comparator \<Rightarrow> ptr \<Rightarrow> bytes \<Rightarrow> 'e \<Rightarrow> status \<times> ptr \<times> 'e"
  ld_DeleteDB :: "ptr \<Rightarrow> 'e \<Rightarrow> 'e"
  ld_Get :: "ptr \<Rightarrow> bytes \<Rightarrow> 'e \<Rightarrow> (status \<times> bytes \<times> 'e) option"
  ld_Put :: "ptr \<Rightarrow> bytes \<Rightarrow> bytes \<Rightarrow> 'e \<Rightarrow> (status \<times> 'e) option"
  ld_Delete :: "ptr \<Rightarrow> bytes \<Rightarrow> 'e \<Rightarrow> (status \<times> 'e) option"
  ld_Write :: "ptr \<Rightarrow> bytes \<Rightarrow> 'e \<Rightarrow> (status \<times> bytes \<times> 'e) option"
  ld_NewIterator :: "ptr \<Rightarrow> 'e \<Rightarrow> ptr \<times> 'e"

section \<open>Native objects\<close>

record lvl_db =
  lo_K :: kv_type
  lo_V :: kv_type
  lo_db :: ptr
  lo_cache :: ptr

record lvl_cursor =
  lc_K :: kv_type
  lc_V :: kv_type
  lc_cursor :: ptr

text \<open>A batch object is the representation string of its \<^verbatim>\<open>WriteBatch\<close>.\<close>

record 'e lvl_world =
  lw_e :: 'e
  lw_dbs :: "nat \<rightharpoonup> lvl_db"
  lw_batches :: "nat \<rightharpoonup> bytes"
  lw_cursors :: "nat \<rightharpoonup> lvl_cursor"

section \<open>Batches\<close>

definition lvl_batch_ctor :: "nat \<Rightarrow> 'e lvl_world \<Rightarrow> outcome \<times> 'e lvl_world" where
  "lvl_batch_ctor this w = (Return (JObject this), w\<lparr>lw_batches := (lw_batches w)(this \<mapsto> WriteBatch_Clear)\<rparr>)"

definition lvl_batch_clear :: "nat \<Rightarrow> 'e lvl_world \<Rightarrow> outcome \<times> 'e lvl_world" where
  "lvl_batch_clear this w =
     (case lw_batches w this of
        None \<Rightarrow> (Undef, w)
      | Some _ \<Rightarrow> (Return JUndefined, w\<lparr>lw_batches := (lw_batches w)(this \<mapsto> WriteBatch_Clear)\<rparr>))"

section \<open>Databases\<close>

text \<open>The comparator of the options: the one of the key class, else the default of LevelDB.\<close>

fun lvl_comparator :: "kv_type \<Rightarrow> comparator" where
  "lvl_comparator (Number k) = number_comparator k"
| "lvl_comparator _ = BytewiseComparator"

text \<open>A \<^verbatim>\<open>const char*\<close> ends at its first zero.\<close>

definition c_str :: "bytes \<Rightarrow> bytes" where
  "c_str s = takeWhile (\<lambda>c. c \<noteq> 0) s"

definition status_error :: "status \<Rightarrow> outcome" where
  "status_error s = Throw (StatusError (c_str (status_ToString s)))"

text \<open>A number outside the range of \<^verbatim>\<open>size_t\<close> has no conversion to it.\<close>

definition lvl_cache :: "'e ldb \<Rightarrow> js \<Rightarrow> 'e \<Rightarrow> (ptr \<times> 'e) option" where
  "lvl_cache LD carg e =
     (case carg of
        JNumber n \<Rightarrow> (if 0 \<le> n \<and> n < 2 ^ 64 then Some (ld_NewLRUCache LD (nat n) e) else None)
      | _ \<Rightarrow> Some (0, e))"

definition lvl_ctor :: "'e ldb \<Rightarrow> v8 \<Rightarrow> kv_type \<Rightarrow> kv_type \<Rightarrow> nat \<Rightarrow> js \<Rightarrow> js \<Rightarrow> 'e lvl_world \<Rightarrow> outcome \<times> 'e lvl_world" where
  "lvl_ctor LD V K T this parg carg w =
     (case lvl_cache LD carg (lw_e w) of
        None \<Rightarrow> (Undef, w)
      | Some (block_cache, e) \<Rightarrow>
          (case ld_Open LD (lvl_comparator K) block_cache (c_str (ToString V parg)) e of
             (s, pdb, e1) \<Rightarrow>
               if \<not> status_ok s then (status_error s, w\<lparr>lw_e := e1\<rparr>)
               else (Return (JObject this),
                     w\<lparr>lw_e := e1,
                       lw_dbs := (lw_dbs w)(this \<mapsto> \<lparr>lo_K = K, lo_V = T, lo_db = pdb, lo_cache = block_cache\<rparr>)\<rparr>)))"

text \<open>The memory behind the characters of a \<^verbatim>\<open>std::string\<close> is its terminating zero.  The
  return value set for a missing key does not matter, since the exception thrown after it prevails.\<close>

definition lvl_get :: "'e ldb \<Rightarrow> v8 \<Rightarrow> (nat \<Rightarrow> bytes) \<Rightarrow> nat \<Rightarrow> js \<Rightarrow> 'e lvl_world \<Rightarrow> outcome \<times> 'e lvl_world" where
  "lvl_get LD V g this karg w =
     (case lw_dbs w this of
        None \<Rightarrow> (Undef, w)
      | Some dw \<Rightarrow>
          (case kv_encode (lo_K dw) V karg of
             None \<Rightarrow> (Undef, w)
           | Some key \<Rightarrow>
               (case ld_Get LD (lo_db dw) key (lw_e w) of
                  None \<Rightarrow> (Hang, w)
                | Some (s, val, e) \<Rightarrow>
                    let w1 = w\<lparr>lw_e := e\<rparr>;
                        ret = (if IsNotFound s then Return JNull else Return JUndefined);
                        ret = (if \<not> status_ok s then status_error s
                               else case kv_decode (lo_V dw) g (val @ [0]) (length val) of None \<Rightarrow> Undef | Some j \<Rightarrow> Return j)
                    in (ret, w1))))"

definition lvl_put :: "'e ldb \<Rightarrow> v8 \<Rightarrow> nat \<Rightarrow> js \<Rightarrow> js \<Rightarrow> js \<Rightarrow> 'e lvl_world \<Rightarrow> outcome \<times> 'e lvl_world" where
  "lvl_put LD V this karg varg barg w =
     (case lw_dbs w this of
        None \<Rightarrow> (Undef, w)
      | Some dw \<Rightarrow>
          (case (kv_encode (lo_K dw) V karg, kv_encode (lo_V dw) V varg) of
             (Some key, Some val) \<Rightarrow>
               if IsObject barg
               then (case unwrap (lw_batches w) barg of
                       None \<Rightarrow> (Undef, w)
                     | Some (a, b) \<Rightarrow>
                         (Return JUndefined, w\<lparr>lw_batches := (lw_batches w)(a \<mapsto> WriteBatch_Put b key val)\<rparr>))
               else (case ld_Put LD (lo_db dw) key val (lw_e w) of
                       None \<Rightarrow> (Hang, w)
                     | Some (s, e) \<Rightarrow> (if \<not> status_ok s then status_error s else Return JUndefined, w\<lparr>lw_e := e\<rparr>))
           | _ \<Rightarrow> (Undef, w)))"

definition lvl_del :: "'e ldb \<Rightarrow> v8 \<Rightarrow> nat \<Rightarrow> js \<Rightarrow> js \<Rightarrow> 'e lvl_world \<Rightarrow> outcome \<times> 'e lvl_world" where
  "lvl_del LD V this karg barg w =
     (case lw_dbs w this of
        None \<Rightarrow> (Undef, w)
      | Some dw \<Rightarrow>
          (case kv_encode (lo_K dw) V karg of
             None \<Rightarrow> (Undef, w)
           | Some key \<Rightarrow>
               if IsObject barg
               then (case unwrap (lw_batches w) barg of
                       None \<Rightarrow> (Undef, w)
                     | Some (a, b) \<Rightarrow>
                         (Return JUndefined, w\<lparr>lw_batches := (lw_batches w)(a \<mapsto> WriteBatch_Delete b key)\<rparr>))
               else (case ld_Delete LD (lo_db dw) key (lw_e w) of
                       None \<Rightarrow> (Hang, w)
                     | Some (s, e) \<Rightarrow> (if \<not> status_ok s then status_error s else Return JUndefined, w\<lparr>lw_e := e\<rparr>))))"

definition lvl_write :: "'e ldb \<Rightarrow> nat \<Rightarrow> js \<Rightarrow> 'e lvl_world \<Rightarrow> outcome \<times> 'e lvl_world" where
  "lvl_write LD this barg w =
     (case (lw_dbs w this, unwrap (lw_batches w) barg) of
        (Some dw, Some (a, b)) \<Rightarrow>
          (case ld_Write LD (lo_db dw) b (lw_e w) of
             None \<Rightarrow> (Hang, w)
           | Some (s, b', e) \<Rightarrow>
               (if \<not> status_ok s then status_error s else Return JUndefined,
                w\<lparr>lw_e := e, lw_batches := (lw_batches w)(a \<mapsto> b')\<rparr>))
      | _ \<Rightarrow> (Undef, w))"

definition lvl_dtor :: "'e ldb \<Rightarrow> nat \<Rightarrow> 'e lvl_world \<Rightarrow> 'e lvl_world" where
  "lvl_dtor LD this w =
     (case lw_dbs w this of
        None \<Rightarrow> w
      | Some dw \<Rightarrow>
          let e1 = ld_DeleteDB LD (lo_db dw) (lw_e w);
              e2 = (if lo_cache dw \<noteq> 0 then ld_DeleteCache LD (lo_cache dw) e1 else e1)
          in w\<lparr>lw_e := e2, lw_dbs := (lw_dbs w)(this := None)\<rparr>)"

section \<open>Cursors\<close>

definition lvl_cursor_ctor :: "'e ldb \<Rightarrow> kv_type \<Rightarrow> kv_type \<Rightarrow> nat \<Rightarrow> js \<Rightarrow> 'e lvl_world \<Rightarrow> outcome \<times> 'e lvl_world" where
  "lvl_cursor_ctor LD K T this darg w =
     (case unwrap (lw_dbs w) darg of
        None \<Rightarrow> (Undef, w)
      | Some (_, dw) \<Rightarrow>
          (case ld_NewIterator LD (lo_db dw) (lw_e w) of
             (cur, e) \<Rightarrow>
               (Return (JObject this),
                w\<lparr>lw_e := e, lw_cursors := (lw_cursors w)(this \<mapsto> \<lparr>lc_K = K, lc_V = T, lc_cursor = cur\<rparr>)\<rparr>)))"

definition lvl_cursorOp :: "('e, 'z) itops_scheme \<Rightarrow> iter_move \<Rightarrow> nat \<Rightarrow> 'e lvl_world \<Rightarrow> outcome \<times> 'e lvl_world" where
  "lvl_cursorOp LD FN this w =
     (case lw_cursors w this of
        None \<Rightarrow> (Undef, w)
      | Some cw \<Rightarrow>
          (case ld_move LD FN (lc_cursor cw) (lw_e w) of
             None \<Rightarrow> (Undef, w)
           | Some e \<Rightarrow> (Return (JBool (ld_Valid LD (lc_cursor cw) e)), w\<lparr>lw_e := e\<rparr>)))"

definition slice_outcome :: "kv_type \<Rightarrow> (nat \<Rightarrow> bytes) \<Rightarrow> mdb_val option \<Rightarrow> outcome" where
  "slice_outcome T g v =
     (case v of
        None \<Rightarrow> Undef
      | Some s \<Rightarrow> (case kv_decode T g (mv_data s) (mv_size s) of None \<Rightarrow> Undef | Some j \<Rightarrow> Return j))"

text \<open>Neither \<^verbatim>\<open>key\<close> nor \<^verbatim>\<open>value\<close> returns when the iterator is not valid:
  the null they set is overwritten by what the following call of the iterator gives.\<close>

definition lvl_cursor_key :: "('e, 'z) itops_scheme \<Rightarrow> (nat \<Rightarrow> bytes) \<Rightarrow> nat \<Rightarrow> 'e lvl_world \<Rightarrow> outcome \<times> 'e lvl_world" where
  "lvl_cursor_key LD g this w =
     (case lw_cursors w this of
        None \<Rightarrow> (Undef, w)
      | Some cw \<Rightarrow>
          let ret = (if \<not> ld_Valid LD (lc_cursor cw) (lw_e w) then Return JNull else Return JUndefined);
              ret = slice_outcome (lc_K cw) g (ld_key LD (lc_cursor cw) (lw_e w))
          in (ret, w))"

definition lvl_cursor_value :: "('e, 'z) itops_scheme \<Rightarrow> (nat \<Rightarrow> bytes) \<Rightarrow> nat \<Rightarrow> 'e lvl_world \<Rightarrow> outcome \<times> 'e lvl_world" where
  "lvl_cursor_value LD g this w =
     (case lw_cursors w this of
        None \<Rightarrow> (Undef, w)
      | Some cw \<Rightarrow>
          let ret = (if \<not> ld_Valid LD (lc_cursor cw) (lw_e w) then Return JNull else Return JUndefined);
              ret = slice_outcome (lc_V cw) g (ld_value LD (lc_cursor cw) (lw_e w))
          in (ret, w))"

definition lvl_cursor_next :: "('e, 'z) itops_scheme \<Rightarrow> nat \<Rightarrow> 'e lvl_world \<Rightarrow> outcome \<times> 'e lvl_world" where
  "lvl_cursor_next LD = lvl_cursorOp LD MoveNext"

definition lvl_cursor_prev :: "('e, 'z) itops_scheme \<Rightarrow> nat \<Rightarrow> 'e lvl_world \<Rightarrow> outcome \<times> 'e lvl_world" where
  "lvl_cursor_prev LD = lvl_cursorOp LD MovePrev"

definition lvl_cursor_first :: "('e, 'z) itops_scheme \<Rightarrow> nat \<Rightarrow> 'e lvl_world \<Rightarrow> outcome \<times> 'e lvl_world" where
  "lvl_cursor_first LD = lvl_cursorOp LD MoveFirst"

definition lvl_cursor_last :: "('e, 'z) itops_scheme \<Rightarrow> nat \<Rightarrow> 'e lvl_world \<Rightarrow> outcome \<times> 'e lvl_world" where
  "lvl_cursor_last LD = lvl_cursorOp LD MoveLast"

definition lvl_cursor_gte :: "('e, 'z) itops_scheme \<Rightarrow> v8 \<Rightarrow> nat \<Rightarrow> js \<Rightarrow> 'e lvl_world \<Rightarrow> outcome \<times> 'e lvl_world" where
  "lvl_cursor_gte LD V this karg w =
     (case lw_cursors w this of
        None \<Rightarrow> (Undef, w)
      | Some cw \<Rightarrow>
          (case kv_encode (lc_K cw) V karg of
             None \<Rightarrow> (Undef, w)
           | Some key \<Rightarrow>
               (case ld_move LD (MoveSeek key) (lc_cursor cw) (lw_e w) of
                  None \<Rightarrow> (Undef, w)
                | Some e \<Rightarrow> (Return (JBool (ld_Valid LD (lc_cursor cw) e)), w\<lparr>lw_e := e\<rparr>))))"

definition lvl_cursor_dtor :: "('e, 'z) itops_scheme \<Rightarrow> nat \<Rightarrow> 'e lvl_world \<Rightarrow> 'e lvl_world" where
  "lvl_cursor_dtor LD this w =
     (case lw_cursors w this of
        None \<Rightarrow> w
      | Some cw \<Rightarrow>
          w\<lparr>lw_e := ld_DeleteIterator LD (lc_cursor cw) (lw_e w), lw_cursors := (lw_cursors w)(this := None)\<rparr>)"

section \<open>The contract of LevelDB\<close>

text \<open>What a call leaves alone: the open databases other than \<open>P\<close> keep their contents, and the
  iterators other than \<open>I\<close> on databases other than \<open>D\<close> keep their entries and position.\<close>

definition ldb_kept :: "(comparator \<Rightarrow> (bytes \<Rightarrow> bool) \<Rightarrow> ptr \<Rightarrow> 'e \<Rightarrow> bool) \<Rightarrow> (ptr \<Rightarrow> 'e \<Rightarrow> bytes \<rightharpoonup> bytes) \<Rightarrow> (ptr \<Rightarrow> 'e \<Rightarrow> nat) \<Rightarrow>
    (comparator \<Rightarrow> (bytes \<Rightarrow> bool) \<Rightarrow> ptr \<Rightarrow> ptr \<Rightarrow> (bytes \<times> bytes) list \<Rightarrow> nat \<Rightarrow> 'e \<Rightarrow> bool) \<Rightarrow>
    ptr set \<Rightarrow> ptr set \<Rightarrow> ptr set \<Rightarrow> 'e \<Rightarrow> 'e \<Rightarrow> bool" where
  "ldb_kept live content room irep P D I e e' \<longleftrightarrow>
     (\<forall>q C ok. q \<notin> P \<longrightarrow> live C ok q e \<longrightarrow> live C ok q e' \<and> content q e' = content q e \<and> room q e' = room q e) \<and>
     (\<forall>C ok i p xs n. i \<notin> I \<longrightarrow> p \<notin> D \<longrightarrow> irep C ok i p xs n e \<longrightarrow> irep C ok i p xs n e')"

text \<open>Where a move takes an iterator, and when it may be made.\<close>

fun move_ok :: "(bytes \<Rightarrow> bool) \<Rightarrow> iter_move \<Rightarrow> (bytes \<times> bytes) list \<Rightarrow> nat \<Rightarrow> bool" where
  "move_ok ok MoveNext xs n \<longleftrightarrow> n < length xs"
| "move_ok ok MovePrev xs n \<longleftrightarrow> n < length xs"
| "move_ok ok (MoveSeek t) xs n \<longleftrightarrow> key_ok ok t"
| "move_ok ok _ xs n \<longleftrightarrow> True"

fun move_to :: "comparator \<Rightarrow> iter_move \<Rightarrow> (bytes \<times> bytes) list \<Rightarrow> nat \<Rightarrow> nat" where
  "move_to C MoveNext xs n = n + 1"
| "move_to C MovePrev xs n = (if n = 0 then length xs else n - 1)"
| "move_to C MoveFirst xs n = 0"
| "move_to C MoveLast xs n = length xs - 1"
| "move_to C (MoveSeek t) xs n = length (takeWhile (\<lambda>x. cm_Compare C (fst x) t < 0) xs)"

definition slice_of :: "bytes \<Rightarrow> mdb_val \<Rightarrow> bool" where
  "slice_of b v \<longleftrightarrow> mv_size v = length b \<and> (\<exists>rest. mv_data v = b @ rest)"

text \<open>\<open>irep C ok i p xs n e\<close>: \<open>i\<close> is an iterator of the database \<open>p\<close>, with the
  comparator \<open>C\<close> for the keys \<open>ok\<close>, at position \<open>n\<close> of the entries \<open>xs\<close>.\<close>

locale it_laws =
  fixes LD :: "('e, 'z) itops_scheme"
    and irep :: "comparator \<Rightarrow> (bytes \<Rightarrow> bool) \<Rightarrow> ptr \<Rightarrow> ptr \<Rightarrow> (bytes \<times> bytes) list \<Rightarrow> nat \<Rightarrow> 'e \<Rightarrow> bool"
  assumes iter_valid: "irep C ok i p xs n e \<Longrightarrow> ld_Valid LD i e \<longleftrightarrow> n < length xs"
    and iter_current: "irep C ok i p xs n e \<Longrightarrow> n < length xs \<Longrightarrow>
      \<exists>k v. ld_key LD i e = Some k \<and> ld_value LD i e = Some v \<and> slice_of (fst (xs ! n)) k \<and> slice_of (snd (xs ! n)) v"
    and iter_move: "irep C ok i p xs n e \<Longrightarrow> move_ok ok m xs n \<Longrightarrow>
      \<exists>e'. ld_move LD m i e = Some e' \<and> irep C ok i p xs (move_to C m xs n) e'"

text \<open>\<open>live C ok p e\<close>: \<open>p\<close> is an open database with the comparator \<open>C\<close> for the keys
  \<open>ok\<close>, \<open>content\<close> its contents, \<open>room\<close> how many operations its sequence numbers
  have room for.\<close>

locale ldb_laws = it_laws LD irep
  for LD :: "'e ldb"
    and irep :: "comparator \<Rightarrow> (bytes \<Rightarrow> bool) \<Rightarrow> ptr \<Rightarrow> ptr \<Rightarrow> (bytes \<times> bytes) list \<Rightarrow> nat \<Rightarrow> 'e \<Rightarrow> bool" +
  fixes live :: "comparator \<Rightarrow> (bytes \<Rightarrow> bool) \<Rightarrow> ptr \<Rightarrow> 'e \<Rightarrow> bool"
    and content :: "ptr \<Rightarrow> 'e \<Rightarrow> bytes \<rightharpoonup> bytes"
    and room :: "ptr \<Rightarrow> 'e \<Rightarrow> nat"
  assumes new_cache: "ld_NewLRUCache LD n e = (c, e') \<Longrightarrow> ldb_kept live content room irep {} {} {} e e'"
    and delete_cache: "ldb_kept live content room irep {} {} {} e (ld_DeleteCache LD c e)"
    and open_db: "comparator_laws C ok \<Longrightarrow> ld_Open LD C c nm e = (s, p, e') \<Longrightarrow>
      ldb_kept live content room irep {} {} {} e e' \<and> (status_ok s \<longrightarrow> live C ok p e' \<and> (\<forall>C ok. \<not> live C ok p e))"
    and delete_db: "ldb_kept live content room irep {p} {p} {} e (ld_DeleteDB LD p e)"
    and get_key: "live C ok p e \<Longrightarrow> key_ok ok k \<Longrightarrow>
      \<exists>s v e'. ld_Get LD p k e = Some (s, v, e') \<and> ldb_kept live content room irep {p} {} {} e e' \<and>
        live C ok p e' \<and> room p e' = room p e \<and> (\<forall>k. key_ok ok k \<longrightarrow> content p e' k = content p e k) \<and>
        (status_ok s \<longrightarrow> content p e k = Some v) \<and> (IsNotFound s \<longrightarrow> content p e k = None)"
    and put_key: "live C ok p e \<Longrightarrow> key_ok ok k \<Longrightarrow> length v < 2 ^ 32 \<Longrightarrow> 0 < room p e \<Longrightarrow>
      \<exists>s e'. ld_Put LD p k v e = Some (s, e') \<and> ldb_kept live content room irep {p} {} {} e e' \<and>
        live C ok p e' \<and> room p e \<le> room p e' + 1 \<and>
        (\<forall>k'. key_ok ok k' \<longrightarrow> content p e' k' = (if status_ok s then ((content p e)(k \<mapsto> v)) k' else content p e k'))"
    and delete_key: "live C ok p e \<Longrightarrow> key_ok ok k \<Longrightarrow> 0 < room p e \<Longrightarrow>
      \<exists>s e'. ld_Delete LD p k e = Some (s, e') \<and> ldb_kept live content room irep {p} {} {} e e' \<and>
        live C ok p e' \<and> room p e \<le> room p e' + 1 \<and>
        (\<forall>k'. key_ok ok k' \<longrightarrow> content p e' k' = (if status_ok s then ((content p e)(k := None)) k' else content p e k'))"
    and write_batch: "live C ok p e \<Longrightarrow> ops_ok ok ops \<Longrightarrow> length ops < 2 ^ 31 \<Longrightarrow> length ops \<le> room p e \<Longrightarrow>
      \<exists>s t' e'. ld_Write LD p (batch_of t ops) e = Some (s, batch_of t' ops, e') \<and> ldb_kept live content room irep {p} {} {} e e' \<and>
        live C ok p e' \<and> room p e \<le> room p e' + length ops \<and>
        (\<forall>k. key_ok ok k \<longrightarrow> content p e' k =
          (if status_ok s then fold (op_handle map_handler) ops (content p e) k else content p e k))"
    and new_iter: "live C ok p e \<Longrightarrow> ld_NewIterator LD p e = (i, e') \<Longrightarrow>
      ldb_kept live content room irep {} {} {} e e' \<and> (\<exists>xs. irep C ok i p xs (length xs) e') \<and>
      (\<forall>C ok p xs n. \<not> irep C ok i p xs n e)"
    and delete_iter: "ldb_kept live content room irep {} {} {i} e (ld_DeleteIterator LD i e)"
    and move_keeps: "irep C ok i p xs n e \<Longrightarrow> ld_move LD m i e = Some e' \<Longrightarrow> ldb_kept live content room irep {} {} {i} e e'"

section \<open>LevelDB on the database model\<close>

text \<open>The heap of a process: databases, and iterators with the database and the comparator they were made for.
  The file side \<open>F\<close>, the iterators over internal keys \<open>IT\<close>, how one is made for a database, and what
  opening gives are parameters.\<close>

record ('f, 'i) lvl_heap =
  hp_dbs :: "ptr \<rightharpoonup> 'f dbimpl"
  hp_iters :: "ptr \<rightharpoonup> ptr \<times> comparator \<times> 'i dbiter"
  hp_next :: ptr

definition with_db :: "ptr \<Rightarrow> ('f, 'i) lvl_heap \<Rightarrow> ('f dbimpl \<Rightarrow> ('r \<times> 'f dbimpl) option) \<Rightarrow> ('r \<times> ('f, 'i) lvl_heap) option" where
  "with_db p h f =
     (case hp_dbs h p of
        None \<Rightarrow> None
      | Some db \<Rightarrow> map_option (\<lambda>(r, db'). (r, h\<lparr>hp_dbs := (hp_dbs h)(p \<mapsto> db')\<rparr>)) (f db))"

fun move_iter :: "'i iter_ops \<Rightarrow> iter_move \<Rightarrow> 'i \<Rightarrow> 'i option" where
  "move_iter IT MoveNext = it_Next IT"
| "move_iter IT MovePrev = it_Prev IT"
| "move_iter IT MoveFirst = it_SeekToFirst IT"
| "move_iter IT MoveLast = it_SeekToLast IT"
| "move_iter IT (MoveSeek t) = it_Seek IT t"

definition whole_slice :: "bytes \<Rightarrow> mdb_val" where
  "whole_slice b = \<lparr>mv_data = b, mv_size = length b\<rparr>"

definition heap_iter :: "('f, 'i) lvl_heap \<Rightarrow> ptr \<Rightarrow> (comparator \<Rightarrow> 'i dbiter \<Rightarrow> 'r option) \<Rightarrow> 'r option" where
  "heap_iter h i f = Option.bind (hp_iters h i) (\<lambda>(p, C, d). f C d)"

definition leveldb :: "'f files \<Rightarrow> (comparator \<Rightarrow> 'i iter_ops) \<Rightarrow> ('f dbimpl \<Rightarrow> 'i) \<Rightarrow> (comparator \<Rightarrow> bytes \<Rightarrow> status \<times> 'f dbimpl) \<Rightarrow>
    ('f, 'i) lvl_heap ldb" where
  "leveldb F IT mk opened =
     \<lparr>ld_DeleteIterator = (\<lambda>i h. h\<lparr>hp_iters := (hp_iters h)(i := None)\<rparr>),
      ld_Valid = (\<lambda>i h. case hp_iters h i of None \<Rightarrow> False | Some (p, C, d) \<Rightarrow> it_Valid (DBIter (IT C) C) d),
      ld_move = (\<lambda>m i h. Option.bind (hp_iters h i) (\<lambda>(p, C, d).
         map_option (\<lambda>d'. h\<lparr>hp_iters := (hp_iters h)(i \<mapsto> (p, C, d'))\<rparr>) (move_iter (DBIter (IT C) C) m d))),
      ld_key = (\<lambda>i h. map_option whole_slice (heap_iter h i (\<lambda>C. it_key (DBIter (IT C) C)))),
      ld_value = (\<lambda>i h. map_option whole_slice (heap_iter h i (\<lambda>C. it_value (DBIter (IT C) C)))),
      ld_NewLRUCache = (\<lambda>n h. (hp_next h, h\<lparr>hp_next := hp_next h + 1\<rparr>)),
      ld_DeleteCache = (\<lambda>c h. h),
      ld_Open = (\<lambda>C c name h. case opened C name of
         (s, db) \<Rightarrow> if status_ok s then (s, hp_next h, h\<lparr>hp_dbs := (hp_dbs h)(hp_next h \<mapsto> db), hp_next := hp_next h + 1\<rparr>) else (s, 0, h)),
      ld_DeleteDB = (\<lambda>p h. h\<lparr>hp_dbs := (hp_dbs h)(p := None)\<rparr>),
      ld_Get = (\<lambda>p k h. map_option (\<lambda>((s, v), h'). (s, v, h')) (with_db p h (\<lambda>db. map_option (\<lambda>(s, v, db'). ((s, v), db')) (DBImpl_Get F k [] db)))),
      ld_Put = (\<lambda>p k v h. with_db p h (DB_Put F k v)),
      ld_Delete = (\<lambda>p k h. with_db p h (DB_Delete F k)),
      ld_Write = (\<lambda>p b h. map_option (\<lambda>((s, b'), h'). (s, b', h')) (with_db p h (\<lambda>db.
         map_option (\<lambda>(s, n, b', db'). ((s, case b' of None \<Rightarrow> b | Some b' \<Rightarrow> b'), db')) (DBImpl_Write F \<lparr>wr_batch = Some b, wr_sync = False\<rparr> [] db)))),
      ld_NewIterator = (\<lambda>p h. (hp_next h,
         h\<lparr>hp_iters := (hp_iters h)(hp_next h := map_option (\<lambda>db. (p, di_cmp db, NewDBIterator (mk db) (di_last_sequence db) (of_nat (hp_next h)))) (hp_dbs h p)),
           hp_next := hp_next h + 1\<rparr>))\<rparr>"

definition heap_live :: "('f \<Rightarrow> bool) \<Rightarrow> comparator \<Rightarrow> (bytes \<Rightarrow> bool) \<Rightarrow> ptr \<Rightarrow> ('f, 'i) lvl_heap \<Rightarrow> bool" where
  "heap_live finv C ok p h \<longleftrightarrow> comparator_laws C ok \<and> p < hp_next h \<and> (\<exists>db. hp_dbs h p = Some db \<and> db_ok C ok finv db)"

definition heap_content :: "('f \<Rightarrow> bytes \<rightharpoonup> bytes) \<Rightarrow> ptr \<Rightarrow> ('f, 'i) lvl_heap \<Rightarrow> bytes \<rightharpoonup> bytes" where
  "heap_content fc p h = (case hp_dbs h p of None \<Rightarrow> Map.empty | Some db \<Rightarrow> db_content fc db)"

definition heap_room :: "ptr \<Rightarrow> ('f, 'i) lvl_heap \<Rightarrow> nat" where
  "heap_room p h = (case hp_dbs h p of None \<Rightarrow> 0 | Some db \<Rightarrow> 2 ^ 56 - 1 - unat (di_last_sequence db))"

definition heap_irep :: "(comparator \<Rightarrow> (bytes \<Rightarrow> bool) \<Rightarrow> 'i \<Rightarrow> (bytes \<times> bytes) list \<Rightarrow> nat \<Rightarrow> bool) \<Rightarrow>
    comparator \<Rightarrow> (bytes \<Rightarrow> bool) \<Rightarrow> ptr \<Rightarrow> ptr \<Rightarrow> (bytes \<times> bytes) list \<Rightarrow> nat \<Rightarrow> ('f, 'i) lvl_heap \<Rightarrow> bool" where
  "heap_irep rep C ok i p xs n h \<longleftrightarrow>
     comparator_laws C ok \<and> i < hp_next h \<and> (\<exists>d. hp_iters h i = Some (p, C, d) \<and> db_rep (rep C ok) d xs n)"

text \<open>One write advances the sequence number by at most the number of its operations.\<close>

lemma Write_sequence:
  assumes "files_laws C ok F finv fc" and "db_ok C ok finv db" and "DBImpl_Write F \<lparr>wr_batch = Some (batch_of t ops), wr_sync = sy\<rparr> [] db = Some (s, n, b', db')"
    and "length ops < 2 ^ 31"
  shows "unat (di_last_sequence db') \<le> unat (di_last_sequence db) + length ops"
proof -
  obtain st db1 where mr: "MakeRoomForWrite F False True db = Some (st, db1)"
    using assms(3) by (auto simp: DBImpl_Write_def split: option.splits)
  then have l: "di_last_sequence db1 = di_last_sequence db" using files_laws.MakeRoom_content [OF assms(1) _ assms(2)] by fastforce
  have c: "unat (ucast (of_nat (length ops) :: 32 word) :: 64 word) = length ops"
    using assms(4) by (simp add: unsigned_ucast_eq unsigned_of_nat take_bit_nat_eq_self)
  have "di_last_sequence db' = di_last_sequence db \<or> di_last_sequence db' = di_last_sequence db + ucast (of_nat (length ops) :: 32 word)"
    using assms(3) mr l by (auto simp: DBImpl_Write_def BuildBatchGroup_def Let_def split: if_splits option.splits prod.splits)
  then show ?thesis using unat_word_ariths(1) [of "di_last_sequence db" "ucast (of_nat (length ops) :: 32 word)"] c by (auto simp: mod_less_eq_dividend)
qed

lemma Write_alone:
  assumes "files_laws C ok F finv fc" and "db_ok C ok finv db"
    and bg: "\<And>db. db_ok C ok finv db \<Longrightarrow> di_imm (fs_Background F db) = None \<and> fs_NumLevel0 F (di_files (fs_Background F db)) < kL0_SlowdownWritesTrigger"
    and "fs_HasRoom F (MemTable_Ref MemTable_new)"
    and "ops_ok ok ops" and "length ops < 2 ^ 31" and "unat (di_last_sequence db) + length ops < 2 ^ 56"
  obtains s t' db' where "DBImpl_Write F \<lparr>wr_batch = Some (batch_of t ops), wr_sync = False\<rparr> [] db = Some (s, 1, Some (batch_of t' ops), db')"
    and "db_ok C ok finv db'" and "unat (di_last_sequence db') \<le> unat (di_last_sequence db) + length ops"
    and "\<forall>k. key_ok ok k \<longrightarrow> db_content fc db' k =
      (if status_ok s then fold (op_handle map_handler) ops (db_content fc db) k else db_content fc db k)"
proof -
  let ?w = "\<lparr>wr_batch = Some (batch_of t ops), wr_sync = False\<rparr>"
  obtain r0 where r0: "MakeRoomForWrite F False True db = Some r0"
    using files_laws.MakeRoom_returns [OF assms(1) bg assms(4,2)] by blast
  obtain s n b' db' where r: "DBImpl_Write F ?w [] db = Some (s, n, b', db')" "group_done C ok finv fc db ?w ops [] [] (s, n, b', db')"
    using files_laws.Write_content [OF assms(1,2) _ _ _ _ _ r0, of ?w t ops "[]" "[]"] assms(5-7) by (metis (no_types, lifting) append_Nil2 concat.simps(1) list_all2_Nil writer.select_convs(1) prod_cases4)
  then show ?thesis using that Write_sequence [OF assms(1,2) r(1) assms(6)] by (auto simp: group_done_def)
qed

lemma move_iter_rep:
  assumes l: "iter_laws (cm_Compare C) (key_ok ok) IT rep" and r: "rep d xs n" and m: "move_ok ok m xs n"
  shows "\<exists>d'. move_iter IT m d = Some d' \<and> rep d' xs (move_to C m xs n)"
  using iter_laws.to_next [OF l r] iter_laws.to_prev [OF l r] iter_laws.to_first [OF l r] iter_laws.to_last [OF l r]
    iter_laws.seek [OF l r] m by (cases m) simp_all

lemma NewDBIterator_rep:
  assumes "rep it xs n" and "\<forall>x \<in> set xs. e_parses x" and "s \<le> kMaxSequenceNumber"
  shows "db_rep rep (NewDBIterator it s seed) (vis_list s xs) (length (vis_list s xs))"
  unfolding db_rep_def using assms Random_Next_ok [OF Random_ok]
  by (auto simp: NewDBIterator_def RandomPeriod_def)

lemma kept_refl: "ldb_kept live content room irep P D I e e"
  by (simp add: ldb_kept_def)

text \<open>A call that changes the database \<open>p\<close> of the heap only.\<close>

lemma kept_update:
  "hp_dbs h p \<noteq> None \<Longrightarrow>
    ldb_kept (heap_live finv) (heap_content fc) heap_room (heap_irep rep) {p} {} {} h (h\<lparr>hp_dbs := (hp_dbs h)(p \<mapsto> db)\<rparr>)"
  by (simp add: ldb_kept_def heap_live_def heap_content_def heap_room_def heap_irep_def)

text \<open>A call that changes or makes the iterator \<open>i\<close> only.\<close>

lemma kept_iter:
  "hp_next h \<le> n \<Longrightarrow>
    ldb_kept (heap_live finv) (heap_content fc) heap_room (heap_irep rep) {} {} {i} h (h\<lparr>hp_iters := (hp_iters h)(i := d), hp_next := n\<rparr>)"
  by (auto simp: ldb_kept_def heap_live_def heap_content_def heap_room_def heap_irep_def)

text \<open>The parts of a LevelDB: a file side whose background thread compacts, iterators over internal keys, and opening.\<close>

locale heap_parts =
  fixes F :: "'f files" and finv :: "'f \<Rightarrow> bool" and fc :: "'f \<Rightarrow> bytes \<rightharpoonup> bytes"
    and IT :: "comparator \<Rightarrow> 'i iter_ops" and rep :: "comparator \<Rightarrow> (bytes \<Rightarrow> bool) \<Rightarrow> 'i \<Rightarrow> (bytes \<times> bytes) list \<Rightarrow> nat \<Rightarrow> bool"
    and mk :: "'f dbimpl \<Rightarrow> 'i" and opened :: "comparator \<Rightarrow> bytes \<Rightarrow> status \<times> 'f dbimpl"
  assumes file_side: "comparator_laws C ok \<Longrightarrow> files_laws C ok F finv fc"
    and compacts: "db_ok C ok finv db \<Longrightarrow>
      di_imm (fs_Background F db) = None \<and> fs_NumLevel0 F (di_files (fs_Background F db)) < kL0_SlowdownWritesTrigger"
    and has_room: "fs_HasRoom F (MemTable_Ref MemTable_new)"
    and inner: "comparator_laws C ok \<Longrightarrow> iter_laws (InternalKey_Compare C) (ikey_ok ok) (IT C) (rep C ok)"
    and made: "comparator_laws C ok \<Longrightarrow> db_ok C ok finv db \<Longrightarrow> \<exists>xs n. rep C ok (mk db) xs n \<and> (\<forall>x \<in> set xs. e_parses x)"
    and opens: "comparator_laws C ok \<Longrightarrow> opened C nm = (s, db) \<Longrightarrow> status_ok s \<Longrightarrow> db_ok C ok finv db"
begin

abbreviation "LDB \<equiv> leveldb F IT mk opened"
abbreviation "kept \<equiv> ldb_kept (heap_live finv) (heap_content fc) heap_room (heap_irep rep)"

lemma user_iter: "comparator_laws C ok \<Longrightarrow> iter_laws (cm_Compare C) (key_ok ok) (DBIter (IT C) C) (db_rep (rep C ok))"
  using dbiter_laws.DBIter_laws [OF dbiter_laws.intro [OF _ inner]] .

lemma heap_get:
  assumes "heap_live finv C ok p h" and "key_ok ok k"
  shows "\<exists>s v h'. ld_Get LDB p k h = Some (s, v, h') \<and> kept {p} {} {} h h' \<and>
        heap_live finv C ok p h' \<and> heap_room p h' = heap_room p h \<and> (\<forall>k. key_ok ok k \<longrightarrow> heap_content fc p h' k = heap_content fc p h k) \<and>
        (status_ok s \<longrightarrow> heap_content fc p h k = Some v) \<and> (IsNotFound s \<longrightarrow> heap_content fc p h k = None)"
proof -
  obtain db where d: "hp_dbs h p = Some db" "db_ok C ok finv db" "comparator_laws C ok" "p < hp_next h"
    using assms(1) by (auto simp: heap_live_def)
  show ?thesis
    by (rule files_laws.Get_content [OF file_side [OF d(3)] d(2) assms(2)])
      (use d kept_update [of h p finv fc rep] in \<open>auto simp: leveldb_def with_db_def heap_live_def heap_content_def heap_room_def\<close>)
qed

lemma heap_write:
  assumes "heap_live finv C ok p h" and "ops_ok ok ops" and "length ops < 2 ^ 31" and "length ops \<le> heap_room p h"
  obtains s t' db db' h' where "hp_dbs h p = Some db"
    and "DBImpl_Write F \<lparr>wr_batch = Some (batch_of t ops), wr_sync = False\<rparr> [] db = Some (s, 1, Some (batch_of t' ops), db')"
    and "h' = h\<lparr>hp_dbs := (hp_dbs h)(p \<mapsto> db')\<rparr>"
    and "kept {p} {} {} h h'" and "heap_live finv C ok p h'" and "heap_room p h \<le> heap_room p h' + length ops"
    and "\<forall>k. key_ok ok k \<longrightarrow> heap_content fc p h' k =
          (if status_ok s then fold (op_handle map_handler) ops (heap_content fc p h) k else heap_content fc p h k)"
proof -
  obtain db where d: "hp_dbs h p = Some db" "db_ok C ok finv db" "comparator_laws C ok" "p < hp_next h"
    using assms(1) by (auto simp: heap_live_def)
  have n: "unat (di_last_sequence db) + length ops < 2 ^ 56" using assms(4) d(1,2) by (auto simp: heap_room_def db_ok_def kMaxSequenceNumber_def word_le_nat_alt)
  show ?thesis
  proof (rule Write_alone [OF file_side [OF d(3)] d(2) compacts has_room assms(2,3) n])
    fix s t' db'
    assume w: "DBImpl_Write F \<lparr>wr_batch = Some (batch_of t ops), wr_sync = False\<rparr> [] db = Some (s, 1, Some (batch_of t' ops), db')"
      "db_ok C ok finv db'" "unat (di_last_sequence db') \<le> unat (di_last_sequence db) + length ops"
      "\<forall>k. key_ok ok k \<longrightarrow> db_content fc db' k =
        (if status_ok s then fold (op_handle map_handler) ops (db_content fc db) k else db_content fc db k)"
    show ?thesis
      by (rule that [OF d(1) w(1) refl]) (use d w kept_update [of h p finv fc rep] in \<open>auto simp: heap_live_def heap_content_def heap_room_def\<close>)
  qed
qed

lemma one_op: "WriteBatch_Put WriteBatch_Clear k v = batch_of 0 [PutOp k v]" "WriteBatch_Delete WriteBatch_Clear k = batch_of 0 [DeleteOp k]"
  if "length k < 2 ^ 32" "length v < 2 ^ 32"
  using op_add_bytes [of "PutOp k v" 0 0 "[]"] op_add_bytes [of "DeleteOp k" 0 0 "[]"] that by (simp_all add: Clear_bytes batch_of_def)

lemma heap_ldb: "ldb_laws LDB (heap_irep rep) (heap_live finv) (heap_content fc) heap_room"
proof
  fix n c and e e' :: "('f, 'i) lvl_heap"
  assume "ld_NewLRUCache LDB n e = (c, e')"
  then show "kept {} {} {} e e'" by (auto simp: leveldb_def ldb_kept_def heap_live_def heap_content_def heap_room_def heap_irep_def)
next
  fix c and e :: "('f, 'i) lvl_heap"
  show "kept {} {} {} e (ld_DeleteCache LDB c e)" by (simp add: leveldb_def kept_refl)
next
  fix C ok c nm s p and e e' :: "('f, 'i) lvl_heap"
  assume a: "comparator_laws C ok" "ld_Open LDB C c nm e = (s, p, e')"
  show "kept {} {} {} e e' \<and> (status_ok s \<longrightarrow> heap_live finv C ok p e' \<and> (\<forall>C ok. \<not> heap_live finv C ok p e))"
    using a opens [OF a(1)]
    by (auto simp: leveldb_def ldb_kept_def heap_live_def heap_content_def heap_room_def heap_irep_def split: prod.splits if_splits)
next
  fix p and e :: "('f, 'i) lvl_heap"
  show "kept {p} {p} {} e (ld_DeleteDB LDB p e)"
    by (auto simp: leveldb_def ldb_kept_def heap_live_def heap_content_def heap_room_def heap_irep_def)
next
  fix C ok p k and v :: bytes and e :: "('f, 'i) lvl_heap"
  assume a: "heap_live finv C ok p e" "key_ok ok k" "0 < heap_room p e" "length v < 2 ^ 32"
  have k: "length k < 2 ^ 32" "ops_ok ok [PutOp k v]" using a by (auto simp: key_ok_def ops_ok_def)
  show "\<exists>s e'. ld_Put LDB p k v e = Some (s, e') \<and> kept {p} {} {} e e' \<and>
        heap_live finv C ok p e' \<and> heap_room p e \<le> heap_room p e' + 1 \<and>
        (\<forall>k'. key_ok ok k' \<longrightarrow> heap_content fc p e' k' = (if status_ok s then ((heap_content fc p e)(k \<mapsto> v)) k' else heap_content fc p e k'))"
    by (rule heap_write [OF a(1) k(2), of 0])
      (use a in \<open>auto simp: leveldb_def with_db_def DB_Put_def one_op [OF k(1) a(4)] map_handler_def\<close>)
next
  fix C ok p k and e :: "('f, 'i) lvl_heap"
  assume a: "heap_live finv C ok p e" "key_ok ok k" "0 < heap_room p e"
  have k: "length k < 2 ^ 32" "ops_ok ok [DeleteOp k]" using a by (auto simp: key_ok_def ops_ok_def)
  show "\<exists>s e'. ld_Delete LDB p k e = Some (s, e') \<and> kept {p} {} {} e e' \<and>
        heap_live finv C ok p e' \<and> heap_room p e \<le> heap_room p e' + 1 \<and>
        (\<forall>k'. key_ok ok k' \<longrightarrow> heap_content fc p e' k' = (if status_ok s then ((heap_content fc p e)(k := None)) k' else heap_content fc p e k'))"
    by (rule heap_write [OF a(1) k(2), of 0])
      (use a in \<open>auto simp: leveldb_def with_db_def DB_Delete_def one_op(2) [OF k(1), of "[]"] map_handler_def\<close>)
next
  fix C ok p ops t and e :: "('f, 'i) lvl_heap"
  assume a: "heap_live finv C ok p e" "ops_ok ok ops" "length ops < 2 ^ 31" "length ops \<le> heap_room p e"
  show "\<exists>s t' e'. ld_Write LDB p (batch_of t ops) e = Some (s, batch_of t' ops, e') \<and> kept {p} {} {} e e' \<and>
        heap_live finv C ok p e' \<and> heap_room p e \<le> heap_room p e' + length ops \<and>
        (\<forall>k. key_ok ok k \<longrightarrow> heap_content fc p e' k =
          (if status_ok s then fold (op_handle map_handler) ops (heap_content fc p e) k else heap_content fc p e k))"
    by (rule heap_write [OF a, of t]) (auto simp: leveldb_def with_db_def)
next
  fix C ok p i and e e' :: "('f, 'i) lvl_heap"
  assume a: "heap_live finv C ok p e" "ld_NewIterator LDB p e = (i, e')"
  then obtain db where d: "hp_dbs e p = Some db" "db_ok C ok finv db" "comparator_laws C ok" by (auto simp: heap_live_def)
  obtain xs n where x: "rep C ok (mk db) xs n" "\<forall>x \<in> set xs. e_parses x" using made [OF d(3,2)] by blast
  have "db_rep (rep C ok) (NewDBIterator (mk db) (di_last_sequence db) seed) (vis_list (di_last_sequence db) xs)
      (length (vis_list (di_last_sequence db) xs))" for seed
    by (rule NewDBIterator_rep [of "rep C ok", OF x]) (use d(2) in \<open>simp add: db_ok_def\<close>)
  then have "\<exists>vs. db_rep (rep C ok) (NewDBIterator (mk db) (di_last_sequence db) seed) vs (length vs)" for seed by (rule exI)
  then show "kept {} {} {} e e' \<and> (\<exists>xs. heap_irep rep C ok i p xs (length xs) e') \<and> (\<forall>C ok p xs n. \<not> heap_irep rep C ok i p xs n e)"
    using a d by (auto simp: leveldb_def ldb_kept_def heap_live_def heap_content_def heap_room_def heap_irep_def db_ok_def)
next
  fix i and e :: "('f, 'i) lvl_heap"
  show "kept {} {} {i} e (ld_DeleteIterator LDB i e)" using kept_iter [of e "hp_next e"] by (simp add: leveldb_def)
next
  fix C ok i p xs n and e :: "('f, 'i) lvl_heap"
  assume "heap_irep rep C ok i p xs n e"
  then show "ld_Valid LDB i e \<longleftrightarrow> n < length xs" using iter_laws.valid_iff [OF user_iter] by (auto simp: heap_irep_def leveldb_def)
next
  fix C ok i p xs n and e :: "('f, 'i) lvl_heap"
  assume "heap_irep rep C ok i p xs n e" "n < length xs"
  then show "\<exists>k v. ld_key LDB i e = Some k \<and> ld_value LDB i e = Some v \<and> slice_of (fst (xs ! n)) k \<and> slice_of (snd (xs ! n)) v"
    using iter_laws.current [OF user_iter] by (auto simp: heap_irep_def leveldb_def heap_iter_def slice_of_def whole_slice_def)
next
  fix C ok i p xs n m and e :: "('f, 'i) lvl_heap"
  assume a: "heap_irep rep C ok i p xs n e" "move_ok ok m xs n"
  then obtain d where d: "hp_iters e i = Some (p, C, d)" "db_rep (rep C ok) d xs n" "comparator_laws C ok" "i < hp_next e"
    by (auto simp: heap_irep_def)
  from move_iter_rep [OF user_iter [OF d(3)] d(2) a(2)] d
  show "\<exists>e'. ld_move LDB m i e = Some e' \<and> heap_irep rep C ok i p xs (move_to C m xs n) e'"
    by (auto simp: leveldb_def heap_irep_def)
next
  fix C ok i p xs n m and e e' :: "('f, 'i) lvl_heap"
  assume "heap_irep rep C ok i p xs n e" "ld_move LDB m i e = Some e'"
  then show "kept {} {} {i} e e'" using kept_iter [of e "hp_next e"] by (auto simp: leveldb_def heap_irep_def)
qed (fact heap_get)

end

sublocale heap_parts \<subseteq> heap: ldb_laws "leveldb F IT mk opened" "heap_irep rep" "heap_live finv" "heap_content fc" heap_room
  by (rule heap_ldb)

definition ref_leveldb :: "(ref_files, mem_iter) lvl_heap ldb" where
  "ref_leveldb = leveldb ref_F MemTableIterator (\<lambda>db. MemTable_NewIterator (di_mem db)) (\<lambda>C name. (Status_OK, ref_db C))"

interpretation ref_parts: heap_parts ref_F "\<lambda>_. True" rf_tab MemTableIterator mem_rep "\<lambda>db. MemTable_NewIterator (di_mem db)"
  "\<lambda>C name. (Status_OK, ref_db C)"
proof (rule heap_parts.intro)
  fix C ok and db :: "ref_files dbimpl"
  assume c: "comparator_laws C ok" and d: "db_ok C ok (\<lambda>_. True) db"
  obtain ops where o: "mt_holds C ok (di_mem db) ops" using d by (auto simp: db_ok_def table_ok_def)
  obtain xs where x: "mem_rep C ok (MemTable_NewIterator (di_mem db)) xs (length xs)" "set xs = (\<lambda>m. (mo_ikey m, mo_val m)) ` set ops"
    using comparator_laws.mem_rep_holds [OF c o] .
  have "e_parses e" if "e \<in> set xs" for e
    using that x(2) mo_ikey_entry(1) o by (auto simp: mt_holds_def list_all_iff)
  then show "\<exists>xs n. mem_rep C ok (MemTable_NewIterator (di_mem db)) xs n \<and> (\<forall>x \<in> set xs. e_parses x)" using x(1) by blast
next
  fix C ok and db :: "ref_files dbimpl"
  show "di_imm (fs_Background ref_F db) = None \<and> fs_NumLevel0 ref_F (di_files (fs_Background ref_F db)) < kL0_SlowdownWritesTrigger"
    by (simp add: ref_background_def kL0_SlowdownWritesTrigger_def split: option.split)
next
  show "fs_HasRoom ref_F (MemTable_Ref MemTable_new)" by (simp add: MemTable_Ref_def MemTable_new_def SkipList_new_def)
qed (auto intro: ref_laws ref_db_ok comparator_laws.mem_iter_laws)

section \<open>The keys of a database\<close>

fun lvl_keys :: "kv_type \<Rightarrow> bytes \<Rightarrow> bool" where
  "lvl_keys (Number k) = num_key k"
| "lvl_keys _ = (\<lambda>_. True)"

lemma lvl_comparator_laws: "comparator_laws (lvl_comparator K) (lvl_keys K)"
  by (cases K) (simp_all add: bytewise.comparator_laws_axioms numeric.comparator_laws_axioms)

lemma encoded_key: "kv_encode K V v = Some b \<Longrightarrow> length b + 8 < 2 ^ 32 \<Longrightarrow> key_ok (lvl_keys K) b"
  by (cases K) (auto simp: key_ok_def num_key_def)

section \<open>The handlers on a LevelDB that keeps its contract\<close>

text \<open>The object at \<open>this\<close> is a database with the key class \<open>K\<close> and the value class
  \<open>T\<close> on an open LevelDB.\<close>

definition db_at :: "(comparator \<Rightarrow> (bytes \<Rightarrow> bool) \<Rightarrow> ptr \<Rightarrow> 'e \<Rightarrow> bool) \<Rightarrow> 'e lvl_world \<Rightarrow> nat \<Rightarrow> lvl_db \<Rightarrow> bool" where
  "db_at live w this dw \<longleftrightarrow> lw_dbs w this = Some dw \<and> live (lvl_comparator (lo_K dw)) (lvl_keys (lo_K dw)) (lo_db dw) (lw_e w)"

text \<open>The calls that fill a batch, as the handlers see them: \<^verbatim>\<open>put(key, val, batch)\<close> and
  \<^verbatim>\<open>del(key, batch)\<close>.\<close>

datatype batch_call = CallPut js js | CallDel js

fun batch_call_do :: "'e ldb \<Rightarrow> v8 \<Rightarrow> nat \<Rightarrow> nat \<Rightarrow> batch_call \<Rightarrow> 'e lvl_world \<Rightarrow> outcome \<times> 'e lvl_world" where
  "batch_call_do LD V this a (CallPut k v) w = lvl_put LD V this k v (JObject a) w"
| "batch_call_do LD V this a (CallDel k) w = lvl_del LD V this k (JObject a) w"

fun batch_call_op :: "v8 \<Rightarrow> lvl_db \<Rightarrow> batch_call \<Rightarrow> batch_op option" where
  "batch_call_op V dw (CallPut k v) =
     Option.bind (kv_encode (lo_K dw) V k) (\<lambda>kb. map_option (PutOp kb) (kv_encode (lo_V dw) V v))"
| "batch_call_op V dw (CallDel k) = map_option DeleteOp (kv_encode (lo_K dw) V k)"

lemma batch_of_add:
  "op_small (PutOp k v) \<Longrightarrow> WriteBatch_Put (batch_of t ops) k v = batch_of t (ops @ [PutOp k v])"
  "op_small (DeleteOp k) \<Longrightarrow> WriteBatch_Delete (batch_of t ops) k = batch_of t (ops @ [DeleteOp k])"
  using op_add_bytes [of "PutOp k v" t "of_nat (length ops)" ops] op_add_bytes [of "DeleteOp k" t "of_nat (length ops)" ops]
  by (simp_all add: batch_of_def ac_simps)

text \<open>A call with a batch argument only appends its operation to the batch.\<close>

lemma batch_call_appends:
  assumes "lw_dbs w this = Some dw" and "lw_batches w a = Some (batch_of t ops)"
    and "batch_call_op V dw c = Some op" and "op_small op"
  shows "batch_call_do LD V this a c w = (Return JUndefined, w\<lparr>lw_batches := (lw_batches w)(a \<mapsto> batch_of t (ops @ [op]))\<rparr>)"
  using assms by (cases c) (auto simp: lvl_put_def lvl_del_def batch_of_add Option.bind_eq_Some_conv split: option.splits)

lemma batch_calls_append:
  assumes "lw_dbs w this = Some dw" and "lw_batches w a = Some (batch_of t ops)"
    and "those (map (batch_call_op V dw) cs) = Some new" and "list_all op_small new"
  shows "fold (\<lambda>c w. snd (batch_call_do LD V this a c w)) cs w = w\<lparr>lw_batches := (lw_batches w)(a \<mapsto> batch_of t (ops @ new))\<rparr>"
  using assms
proof (induction cs arbitrary: w ops new)
  case Nil
  then show ?case by (simp add: fun_upd_idem)
next
  case (Cons c cs)
  then obtain op new' where o: "batch_call_op V dw c = Some op" "those (map (batch_call_op V dw) cs) = Some new'" "new = op # new'"
    by (auto split: option.splits)
  have "op_small op" "list_all op_small new'" using Cons.prems(4) o(3) by simp_all
  note step = batch_call_appends [OF Cons.prems(1,2) o(1) this(1), of LD] and rest = this(2)
  show ?case using Cons.IH [of "w\<lparr>lw_batches := (lw_batches w)(a \<mapsto> batch_of t (ops @ [op]))\<rparr>" "ops @ [op]" new'] Cons.prems(1) o rest step
    by (simp cong: if_cong)
qed

context ldb_laws
begin

lemma get_at:
  assumes d: "db_at live w this dw" and k: "kv_encode (lo_K dw) V karg = Some key" "length key + 8 < 2 ^ 32"
  obtains s v e' where "lvl_get LD V g this karg w =
      (if status_ok s then (case kv_decode (lo_V dw) g (v @ [0]) (length v) of None \<Rightarrow> Undef | Some j \<Rightarrow> Return j) else status_error s,
       w\<lparr>lw_e := e'\<rparr>)"
    and "ldb_kept live content room irep {lo_db dw} {} {} (lw_e w) e'" and "db_at live (w\<lparr>lw_e := e'\<rparr>) this dw"
    and "\<forall>k. key_ok (lvl_keys (lo_K dw)) k \<longrightarrow> content (lo_db dw) e' k = content (lo_db dw) (lw_e w) k"
    and "status_ok s \<longrightarrow> content (lo_db dw) (lw_e w) key = Some v" and "IsNotFound s \<longrightarrow> content (lo_db dw) (lw_e w) key = None"
proof -
  have l: "lw_dbs w this = Some dw" "live (lvl_comparator (lo_K dw)) (lvl_keys (lo_K dw)) (lo_db dw) (lw_e w)" using d by (simp_all add: db_at_def)
  from get_key [OF l(2) encoded_key [OF k]] obtain s v e' where
    g: "ld_Get LD (lo_db dw) key (lw_e w) = Some (s, v, e')" "ldb_kept live content room irep {lo_db dw} {} {} (lw_e w) e'"
      "live (lvl_comparator (lo_K dw)) (lvl_keys (lo_K dw)) (lo_db dw) e'"
      "\<forall>k. key_ok (lvl_keys (lo_K dw)) k \<longrightarrow> content (lo_db dw) e' k = content (lo_db dw) (lw_e w) k"
      "status_ok s \<longrightarrow> content (lo_db dw) (lw_e w) key = Some v" "IsNotFound s \<longrightarrow> content (lo_db dw) (lw_e w) key = None" by blast
  show ?thesis
    by (rule that [of s v e']) (use l g k(1) in \<open>auto simp: db_at_def lvl_get_def Let_def\<close>)
qed

lemma put_at:
  assumes d: "db_at live w this dw" and k: "kv_encode (lo_K dw) V karg = Some key" "length key + 8 < 2 ^ 32"
    and v: "kv_encode (lo_V dw) V varg = Some val" "length val < 2 ^ 32" and b: "\<not> IsObject barg" and r: "0 < room (lo_db dw) (lw_e w)"
  obtains s e' where "lvl_put LD V this karg varg barg w = (if status_ok s then Return JUndefined else status_error s, w\<lparr>lw_e := e'\<rparr>)"
    and "db_at live (w\<lparr>lw_e := e'\<rparr>) this dw"
    and "\<forall>k. key_ok (lvl_keys (lo_K dw)) k \<longrightarrow> content (lo_db dw) e' k =
      (if status_ok s then ((content (lo_db dw) (lw_e w))(key \<mapsto> val)) k else content (lo_db dw) (lw_e w) k)"
proof -
  have l: "lw_dbs w this = Some dw" "live (lvl_comparator (lo_K dw)) (lvl_keys (lo_K dw)) (lo_db dw) (lw_e w)" using d by (simp_all add: db_at_def)
  from put_key [OF l(2) encoded_key [OF k] v(2) r] obtain s e' where
    p: "ld_Put LD (lo_db dw) key val (lw_e w) = Some (s, e')" "live (lvl_comparator (lo_K dw)) (lvl_keys (lo_K dw)) (lo_db dw) e'"
      "\<forall>k'. key_ok (lvl_keys (lo_K dw)) k' \<longrightarrow> content (lo_db dw) e' k' =
        (if status_ok s then ((content (lo_db dw) (lw_e w))(key \<mapsto> val)) k' else content (lo_db dw) (lw_e w) k')" by blast
  show ?thesis by (rule that [of s e']) (use l p k(1) v(1) b in \<open>auto simp: db_at_def lvl_put_def\<close>)
qed

lemma put_get:
  assumes d: "db_at live w this dw" and k: "kv_encode (lo_K dw) V karg = Some key" "length key + 8 < 2 ^ 32"
    and v: "kv_encode (lo_V dw) V varg = Some val" "length val < 2 ^ 32" and b: "\<not> IsObject barg" and r: "0 < room (lo_db dw) (lw_e w)"
    and c: "kv_canonical (lo_V dw) varg" and g: "length (g 1025) = 1025"
  shows "\<exists>o1 w1 o2 w2. lvl_put LD V this karg varg barg w = (o1, w1) \<and> lvl_get LD V g this karg w1 = (o2, w2) \<and>
    (o1 = Return JUndefined \<and> o2 = Return varg \<or>
     o1 = Return JUndefined \<and> (\<exists>s. \<not> status_ok s \<and> \<not> IsNotFound s \<and> o2 = status_error s) \<or>
     (\<exists>s. \<not> status_ok s \<and> o1 = status_error s \<and>
       (\<forall>k. key_ok (lvl_keys (lo_K dw)) k \<longrightarrow> content (lo_db dw) (lw_e w1) k = content (lo_db dw) (lw_e w) k)))"
proof (rule put_at [OF d k v b r])
  fix s e'
  assume p: "lvl_put LD V this karg varg barg w = (if status_ok s then Return JUndefined else status_error s, w\<lparr>lw_e := e'\<rparr>)"
    "db_at live (w\<lparr>lw_e := e'\<rparr>) this dw"
    "\<forall>k. key_ok (lvl_keys (lo_K dw)) k \<longrightarrow> content (lo_db dw) e' k =
      (if status_ok s then ((content (lo_db dw) (lw_e w))(key \<mapsto> val)) k else content (lo_db dw) (lw_e w) k)"
  have j: "kv_decode (lo_V dw) g (val @ [0]) (length val) = Some varg" by (rule kv_roundtrip_lemma [where g = g, OF c v(1) g])
  have kk: "key_ok (lvl_keys (lo_K dw)) key" using encoded_key [OF k] .
  obtain s2 v2 e2 where q: "lvl_get LD V g this karg (w\<lparr>lw_e := e'\<rparr>) =
      (if status_ok s2 then (case kv_decode (lo_V dw) g (v2 @ [0]) (length v2) of None \<Rightarrow> Undef | Some j \<Rightarrow> Return j) else status_error s2,
       w\<lparr>lw_e := e2\<rparr>)"
      "status_ok s2 \<longrightarrow> content (lo_db dw) e' key = Some v2" "IsNotFound s2 \<longrightarrow> content (lo_db dw) e' key = None"
    by (rule get_at [OF p(2) k, where g = g]) (auto intro: that)
  show ?thesis
  proof (cases "status_ok s")
    case True
    then have "content (lo_db dw) e' key = Some val" using p(3) kk by simp
    then show ?thesis using p(1) q j True by (cases "status_ok s2") auto
  next
    case False
    obtain o2 w2 where "lvl_get LD V g this karg (w\<lparr>lw_e := e'\<rparr>) = (o2, w2)" by (metis prod.exhaust)
    then show ?thesis using p False by auto
  qed
qed

lemma get_missing:
  assumes "db_at live w this dw" and "kv_encode (lo_K dw) V karg = Some key" and "length key + 8 < 2 ^ 32"
    and "content (lo_db dw) (lw_e w) key = None"
  shows "\<exists>s w'. lvl_get LD V g this karg w = (status_error s, w') \<and> \<not> status_ok s"
  by (rule get_at [OF assms(1-3), where g = g]) (use assms(4) in auto)

lemma write_at:
  assumes d: "db_at live w this dw" and b: "lw_batches w a = Some (batch_of t ops)"
    and o: "ops_ok (lvl_keys (lo_K dw)) ops" "length ops < 2 ^ 31" "length ops \<le> room (lo_db dw) (lw_e w)"
  obtains s t' e' where "lvl_write LD this (JObject a) w =
      (if status_ok s then Return JUndefined else status_error s, w\<lparr>lw_e := e', lw_batches := (lw_batches w)(a \<mapsto> batch_of t' ops)\<rparr>)"
    and "ldb_kept live content room irep {lo_db dw} {} {} (lw_e w) e'"
    and "live (lvl_comparator (lo_K dw)) (lvl_keys (lo_K dw)) (lo_db dw) e'"
    and "\<forall>k. key_ok (lvl_keys (lo_K dw)) k \<longrightarrow> content (lo_db dw) e' k =
          (if status_ok s then fold (op_handle map_handler) ops (content (lo_db dw) (lw_e w)) k else content (lo_db dw) (lw_e w) k)"
proof -
  have l: "lw_dbs w this = Some dw" "live (lvl_comparator (lo_K dw)) (lvl_keys (lo_K dw)) (lo_db dw) (lw_e w)" using d by (simp_all add: db_at_def)
  from write_batch [OF l(2) o, of t] obtain s t' e' where
    "ld_Write LD (lo_db dw) (batch_of t ops) (lw_e w) = Some (s, batch_of t' ops, e')" "ldb_kept live content room irep {lo_db dw} {} {} (lw_e w) e'"
    "live (lvl_comparator (lo_K dw)) (lvl_keys (lo_K dw)) (lo_db dw) e'"
    "\<forall>k. key_ok (lvl_keys (lo_K dw)) k \<longrightarrow> content (lo_db dw) e' k =
          (if status_ok s then fold (op_handle map_handler) ops (content (lo_db dw) (lw_e w)) k else content (lo_db dw) (lw_e w) k)" by blast
  then show ?thesis using that [of s t' e'] l(1) b by (simp add: lvl_write_def)
qed

end

text \<open>The object at \<open>this\<close> is a cursor at position \<open>n\<close> of the entries \<open>xs\<close>.\<close>

definition cursor_at :: "(comparator \<Rightarrow> (bytes \<Rightarrow> bool) \<Rightarrow> ptr \<Rightarrow> ptr \<Rightarrow> (bytes \<times> bytes) list \<Rightarrow> nat \<Rightarrow> 'e \<Rightarrow> bool) \<Rightarrow>
    'e lvl_world \<Rightarrow> nat \<Rightarrow> lvl_cursor \<Rightarrow> ptr \<Rightarrow> (bytes \<times> bytes) list \<Rightarrow> nat \<Rightarrow> bool" where
  "cursor_at irep w this cw p xs n \<longleftrightarrow>
     lw_cursors w this = Some cw \<and> irep (lvl_comparator (lc_K cw)) (lvl_keys (lc_K cw)) (lc_cursor cw) p xs n (lw_e w)"

context it_laws
begin

lemma cursorOp_at:
  assumes "cursor_at irep w this cw p xs n" and "move_ok (lvl_keys (lc_K cw)) m xs n"
  shows "\<exists>e'. lvl_cursorOp LD m this w = (Return (JBool (move_to (lvl_comparator (lc_K cw)) m xs n < length xs)), w\<lparr>lw_e := e'\<rparr>) \<and>
    cursor_at irep (w\<lparr>lw_e := e'\<rparr>) this cw p xs (move_to (lvl_comparator (lc_K cw)) m xs n)"
  using iter_move [OF _ assms(2)] iter_valid assms(1) by (fastforce simp: cursor_at_def lvl_cursorOp_def)

lemma gte_is_seek:
  "lw_cursors w this = Some cw \<Longrightarrow> kv_encode (lc_K cw) V karg = Some key \<Longrightarrow>
    lvl_cursor_gte LD V this karg w = lvl_cursorOp LD (MoveSeek key) this w"
  by (simp add: lvl_cursor_gte_def lvl_cursorOp_def)

lemma slice_roundtrip:
  assumes "slice_of b s" and "kv_canonical T v" and "kv_encode T V v = Some b" and "length (g 1025) = 1025"
  shows "slice_outcome T g (Some s) = Return v"
  using assms(1) kv_roundtrip_lemma [where g = g, OF assms(2-4)] by (auto simp: slice_of_def slice_outcome_def)

lemma entry_at:
  assumes "cursor_at irep w this cw p xs n" and "n < length xs" and g: "length (g 1025) = 1025"
  shows "kv_canonical (lc_K cw) k \<Longrightarrow> kv_encode (lc_K cw) V k = Some (fst (xs ! n)) \<Longrightarrow> lvl_cursor_key LD g this w = (Return k, w)"
    and "kv_canonical (lc_V cw) v \<Longrightarrow> kv_encode (lc_V cw) V v = Some (snd (xs ! n)) \<Longrightarrow> lvl_cursor_value LD g this w = (Return v, w)"
  using iter_current [OF _ assms(2)] assms(1) slice_roundtrip [where g = g, OF _ _ _ g]
  by (fastforce simp: cursor_at_def lvl_cursor_key_def lvl_cursor_value_def Let_def)+

end

section \<open>A reference world\<close>

text \<open>One database of strings, object 7, and one batch, object 8.\<close>

definition ref_world :: "((ref_files, mem_iter) lvl_heap) lvl_world" where
  "ref_world =
     \<lparr>lw_e = \<lparr>hp_dbs = [5 \<mapsto> ref_db BytewiseComparator], hp_iters = Map.empty, hp_next = 6\<rparr>,
      lw_dbs = [7 \<mapsto> \<lparr>lo_K = String, lo_V = String, lo_db = 5, lo_cache = 0\<rparr>], lw_batches = [8 \<mapsto> WriteBatch_Clear], lw_cursors = Map.empty\<rparr>"

definition ref_v8 :: v8 where
  "ref_v8 = \<lparr>string_to_number = (\<lambda>_. None), object_to_string = (\<lambda>_. [])\<rparr>"

lemma ref_world_db: "db_at (heap_live (\<lambda>_. True)) ref_world 7 \<lparr>lo_K = String, lo_V = String, lo_db = 5, lo_cache = 0\<rparr>"
  by (simp add: db_at_def ref_world_def heap_live_def bytewise.comparator_laws_axioms ref_db_ok)

lemma ref_world_room: "heap_room 5 (lw_e ref_world) = 2 ^ 56 - 1"
  by (simp add: heap_room_def ref_world_def ref_db_def)

lemma ref_world_content: "length k + 8 < 2 ^ 32 \<Longrightarrow> heap_content rf_tab 5 (lw_e ref_world) k = None"
  using ref_db_content [OF bytewise.comparator_laws_axioms, of k] by (simp add: heap_content_def ref_world_def key_ok_def)

lemmas ref_ldb = ref_parts.heap.ldb_laws_axioms [folded ref_leveldb_def]

section \<open>Properties\<close>

text \<open>C27.  What \<^verbatim>\<open>put\<close> stores \<^verbatim>\<open>get\<close> returns: on a LevelDB that keeps its
  contract, a put without a batch returns; if it reports no error, a get of the same key that follows it returns the value
  that was put, unless LevelDB reports an error other than a missing key; if it throws, the contents of the database are
  as before.\<close>

theorem lvl_put_get:
  assumes "ldb_laws LD irep live content room" and "db_at live w this dw"
    and "kv_encode (lo_K dw) V karg = Some key" and "length key + 8 < 2 ^ 32"
    and "kv_encode (lo_V dw) V varg = Some val" and "length val < 2 ^ 32" and "\<not> IsObject barg" and "0 < room (lo_db dw) (lw_e w)"
    and "kv_canonical (lo_V dw) varg" and "length (g 1025) = 1025"
  shows "\<exists>o1 w1 o2 w2. lvl_put LD V this karg varg barg w = (o1, w1) \<and> lvl_get LD V g this karg w1 = (o2, w2) \<and>
    (o1 = Return JUndefined \<and> o2 = Return varg \<or>
     o1 = Return JUndefined \<and> (\<exists>s. \<not> status_ok s \<and> \<not> IsNotFound s \<and> o2 = status_error s) \<or>
     (\<exists>s. \<not> status_ok s \<and> o1 = status_error s \<and>
       (\<forall>k. key_ok (lvl_keys (lo_K dw)) k \<longrightarrow> content (lo_db dw) (lw_e w1) k = content (lo_db dw) (lw_e w) k)))"
  using ldb_laws.put_get [where g = g, OF assms] .

theorem lvl_put_get_witness:
  "\<exists>o1 w1 o2 w2. lvl_put ref_leveldb ref_v8 7 (JString [97]) (JString [98]) JUndefined ref_world = (o1, w1) \<and>
    lvl_get ref_leveldb ref_v8 (\<lambda>n. replicate n 0) 7 (JString [97]) w1 = (o2, w2) \<and>
    (o1 = Return JUndefined \<longrightarrow> o2 = Return (JString [98]) \<or> (\<exists>s. \<not> IsNotFound s \<and> o2 = status_error s))"
proof -
  have e: "kv_encode String ref_v8 (JString [97]) = Some [97, 0]" "kv_encode String ref_v8 (JString [98]) = Some [98, 0]" by code_simp+
  have h: "kv_canonical String (JString [98])" "length [97 :: 8 word, 0] + 8 < 2 ^ 32" "length [98 :: 8 word, 0] < 2 ^ 32" by simp_all
  have r: "0 < heap_room 5 (lw_e ref_world)" by (simp add: ref_world_room)
  have "\<not> IsObject JUndefined" "length (replicate 1025 (0 :: 8 word)) = 1025" by simp_all
  from lvl_put_get [where g = "\<lambda>n. replicate n 0", OF ref_ldb ref_world_db, unfolded lvl_db.select_convs, OF e(1) h(2) e(2) h(3) this(1) r h(1) this(2)]
  show ?thesis by (fastforce simp: status_error_def)
qed

text \<open>C28.  A get of a key that the database does not have throws the error of LevelDB's status; it never returns the null that the
  handler sets first.\<close>

theorem lvl_get_missing_throws:
  assumes "ldb_laws LD irep live content room" and "db_at live w this dw"
    and "kv_encode (lo_K dw) V karg = Some key" and "length key + 8 < 2 ^ 32" and "content (lo_db dw) (lw_e w) key = None"
  shows "\<exists>s w'. lvl_get LD V g this karg w = (status_error s, w') \<and> \<not> status_ok s"
  using ldb_laws.get_missing [OF assms] .

theorem lvl_get_missing_throws_witness:
  "\<exists>s w'. lvl_get ref_leveldb ref_v8 (\<lambda>n. []) 7 (JString [97]) ref_world = (status_error s, w') \<and> \<not> status_ok s"
proof -
  have e: "kv_encode String ref_v8 (JString [97]) = Some [97, 0]" by code_simp
  have h: "length [97 :: 8 word, 0] + 8 < 2 ^ 32" by simp
  show ?thesis
    by (rule lvl_get_missing_throws [OF ref_ldb ref_world_db, unfolded lvl_db.select_convs, OF e h ref_world_content [OF h]])
qed

text \<open>C29.  A batch is atomic: the calls of put and del with a batch argument change nothing but the batch, whatever their
  number, and the write of the batch then returns and changes the contents of its database by all of the operations in the order of the calls, or
  throws and changes nothing; the other databases and all iterators are left alone, and the batch still holds its operations.\<close>

theorem lvl_batch_atomic:
  assumes "ldb_laws LD irep live content room" and "db_at live w this dw" and "lw_batches w a = Some WriteBatch_Clear"
    and "those (map (batch_call_op V dw) cs) = Some ops"
    and "ops_ok (lvl_keys (lo_K dw)) ops" and "length ops < 2 ^ 31" and "length ops \<le> room (lo_db dw) (lw_e w)"
  shows "\<exists>s t w1 o2 w2. fold (\<lambda>c w. snd (batch_call_do LD V this a c w)) cs w = w1 \<and> lw_e w1 = lw_e w \<and>
    lvl_write LD this (JObject a) w1 = (o2, w2) \<and> o2 = (if status_ok s then Return JUndefined else status_error s) \<and>
    ldb_kept live content room irep {lo_db dw} {} {} (lw_e w) (lw_e w2) \<and> lw_batches w2 a = Some (batch_of t ops) \<and>
    (\<forall>k. key_ok (lvl_keys (lo_K dw)) k \<longrightarrow> content (lo_db dw) (lw_e w2) k =
      (if status_ok s then fold (op_handle map_handler) ops (content (lo_db dw) (lw_e w)) k else content (lo_db dw) (lw_e w) k))"
proof -
  let ?w1 = "w\<lparr>lw_batches := (lw_batches w)(a \<mapsto> batch_of 0 ops)\<rparr>"
  have w: "lw_dbs w this = Some dw" "lw_batches w a = Some (batch_of 0 [])" using assms(2,3) by (simp_all add: db_at_def Clear_batch)
  have "list_all op_small ops" using assms(5) by (simp add: ops_ok_def list_all_iff)
  from batch_calls_append [OF w assms(4) this, of LD]
  have f: "fold (\<lambda>c w. snd (batch_call_do LD V this a c w)) cs w = ?w1" by simp
  have "db_at live ?w1 this dw" "lw_batches ?w1 a = Some (batch_of 0 ops)" "length ops \<le> room (lo_db dw) (lw_e ?w1)"
    using assms(2,7) by (simp_all add: db_at_def)
  then show ?thesis
    by (rule ldb_laws.write_at [OF assms(1) _ _ assms(5,6)]) (use f in auto)
qed

theorem lvl_batch_atomic_witness:
  "\<exists>s w1 o2 w2.
    fold (\<lambda>c w. snd (batch_call_do ref_leveldb ref_v8 7 8 c w))
      [CallPut (JString [97]) (JString [98]), CallDel (JString [97]), CallPut (JString [99]) (JString [100])] ref_world = w1 \<and>
    lvl_write ref_leveldb 7 (JObject 8) w1 = (o2, w2) \<and>
    (o2 = Return JUndefined \<longrightarrow> heap_content rf_tab 5 (lw_e w2) [97, 0] = None \<and> heap_content rf_tab 5 (lw_e w2) [99, 0] = Some [100, 0])"
proof -
  let ?dw = "\<lparr>lo_K = String, lo_V = String, lo_db = 5, lo_cache = 0\<rparr>"
  let ?cs = "[CallPut (JString [97]) (JString [98]), CallDel (JString [97]), CallPut (JString [99]) (JString [100])]"
  let ?ops = "[PutOp [97, 0] [98, 0], DeleteOp [97, 0], PutOp [99, 0] [100, 0]]"
  have c: "those (map (batch_call_op ref_v8 ?dw) ?cs) = Some ?ops" by code_simp
  have "lw_batches ref_world 8 = Some WriteBatch_Clear" by (simp add: ref_world_def)
  from lvl_batch_atomic [OF ref_ldb ref_world_db this c] show ?thesis
    by (auto simp: ops_ok_def key_ok_def ref_world_room map_handler_def status_error_def)
qed

text \<open>C30.  A cursor is a position in the ordered entries of its database: first, last, next, prev and gte return, with true
  exactly if they end on an entry, and move the position as they should; on an entry, key and value return the values that were stored.\<close>

theorem lvl_cursor_refines:
  assumes "it_laws LD irep" and "cursor_at irep w this cw p xs n" and "length (g 1025) = 1025"
  shows "(\<exists>w'. lvl_cursor_first LD this w = (Return (JBool (xs \<noteq> [])), w') \<and> cursor_at irep w' this cw p xs 0) \<and>
    (\<exists>w'. lvl_cursor_last LD this w = (Return (JBool (xs \<noteq> [])), w') \<and> cursor_at irep w' this cw p xs (length xs - 1)) \<and>
    (n < length xs \<longrightarrow>
      (\<exists>w'. lvl_cursor_next LD this w = (Return (JBool (n + 1 < length xs)), w') \<and> cursor_at irep w' this cw p xs (n + 1)) \<and>
      (\<exists>w'. lvl_cursor_prev LD this w = (Return (JBool (n \<noteq> 0)), w') \<and> cursor_at irep w' this cw p xs (if n = 0 then length xs else n - 1)) \<and>
      (\<forall>k. kv_canonical (lc_K cw) k \<longrightarrow> kv_encode (lc_K cw) V k = Some (fst (xs ! n)) \<longrightarrow> lvl_cursor_key LD g this w = (Return k, w)) \<and>
      (\<forall>v. kv_canonical (lc_V cw) v \<longrightarrow> kv_encode (lc_V cw) V v = Some (snd (xs ! n)) \<longrightarrow> lvl_cursor_value LD g this w = (Return v, w))) \<and>
    (\<forall>k key. kv_encode (lc_K cw) V k = Some key \<longrightarrow> length key + 8 < 2 ^ 32 \<longrightarrow>
      (\<exists>w' m. m = length (takeWhile (\<lambda>x. cm_Compare (lvl_comparator (lc_K cw)) (fst x) key < 0) xs) \<and>
        lvl_cursor_gte LD V this k w = (Return (JBool (m < length xs)), w') \<and> cursor_at irep w' this cw p xs m))"
proof (intro conjI impI allI)
  have ops: "\<exists>e'. lvl_cursorOp LD m this w = (Return (JBool (move_to (lvl_comparator (lc_K cw)) m xs n < length xs)), w\<lparr>lw_e := e'\<rparr>) \<and>
      cursor_at irep (w\<lparr>lw_e := e'\<rparr>) this cw p xs (move_to (lvl_comparator (lc_K cw)) m xs n)"
    if "move_ok (lvl_keys (lc_K cw)) m xs n" for m using it_laws.cursorOp_at [OF assms(1,2) that] .
  show "\<exists>w'. lvl_cursor_first LD this w = (Return (JBool (xs \<noteq> [])), w') \<and> cursor_at irep w' this cw p xs 0"
    using ops [of MoveFirst] by (auto simp: lvl_cursor_first_def)
  show "\<exists>w'. lvl_cursor_last LD this w = (Return (JBool (xs \<noteq> [])), w') \<and> cursor_at irep w' this cw p xs (length xs - 1)"
    using ops [of MoveLast] by (cases xs) (auto simp: lvl_cursor_last_def)
  show "\<exists>w' m. m = length (takeWhile (\<lambda>x. cm_Compare (lvl_comparator (lc_K cw)) (fst x) key < 0) xs) \<and>
      lvl_cursor_gte LD V this k w = (Return (JBool (m < length xs)), w') \<and> cursor_at irep w' this cw p xs m"
    if "kv_encode (lc_K cw) V k = Some key" "length key + 8 < 2 ^ 32" for k key
    using ops [of "MoveSeek key"] encoded_key [OF that] it_laws.gte_is_seek [OF assms(1) _ that(1)] assms(2) by (auto simp: cursor_at_def)
  assume n: "n < length xs"
  show "\<exists>w'. lvl_cursor_next LD this w = (Return (JBool (n + 1 < length xs)), w') \<and> cursor_at irep w' this cw p xs (n + 1)"
    using ops [of MoveNext] n by (auto simp: lvl_cursor_next_def)
  show "\<exists>w'. lvl_cursor_prev LD this w = (Return (JBool (n \<noteq> 0)), w') \<and> cursor_at irep w' this cw p xs (if n = 0 then length xs else n - 1)"
    using ops [of MovePrev] n by (cases n) (auto simp: lvl_cursor_prev_def)
  show "lvl_cursor_key LD g this w = (Return k, w)" if "kv_canonical (lc_K cw) k" "kv_encode (lc_K cw) V k = Some (fst (xs ! n))" for k
    using it_laws.entry_at(1) [where g = g, OF assms(1,2) n assms(3) that] .
  show "lvl_cursor_value LD g this w = (Return v, w)" if "kv_canonical (lc_V cw) v" "kv_encode (lc_V cw) V v = Some (snd (xs ! n))" for v
    using it_laws.entry_at(2) [where g = g, OF assms(1,2) n assms(3) that] .
qed

theorem lvl_cursor_refines_witness:
  "\<exists>w1 w2. lvl_cursor_ctor ref_leveldb String String 9 (JObject 7) ref_world = (Return (JObject 9), w1) \<and>
    (\<exists>b. lvl_cursor_first ref_leveldb 9 w1 = (Return (JBool b), w2))"
proof -
  define cw where "cw = \<lparr>lc_K = String, lc_V = String, lc_cursor = 6\<rparr>"
  obtain e' where e: "ld_NewIterator ref_leveldb 5 (lw_e ref_world) = (6, e')" by (auto simp: ref_leveldb_def leveldb_def ref_world_def)
  let ?w1 = "ref_world\<lparr>lw_e := e', lw_cursors := [9 \<mapsto> cw]\<rparr>"
  have l: "heap_live (\<lambda>_. True) (lvl_comparator String) (lvl_keys String) 5 (lw_e ref_world)" using ref_world_db by (simp add: db_at_def)
  from ldb_laws.new_iter [OF ref_ldb l e] obtain xs where "heap_irep mem_rep (lvl_comparator String) (lvl_keys String) 6 5 xs (length xs) e'" by blast
  then have "cursor_at (heap_irep mem_rep) ?w1 9 cw 5 xs (length xs)" by (simp add: cursor_at_def cw_def)
  from lvl_cursor_refines [where g = "\<lambda>n. replicate n 0" and V = ref_v8, OF ldb_laws.axioms(1) [OF ref_ldb] this]
  have "\<exists>w2 b. lvl_cursor_first ref_leveldb 9 ?w1 = (Return (JBool b), w2)" by auto
  moreover have "lvl_cursor_ctor ref_leveldb String String 9 (JObject 7) ref_world = (Return (JObject 9), ?w1)"
    using e by (simp add: lvl_cursor_ctor_def cw_def ref_world_def)
  ultimately show ?thesis by blast
qed



end
