(* ===== verification/Rocks_Bind.thy ===== *)
theory Rocks_Bind
  imports Rocks_Batch Lvl_Bind
begin

text \<open>
  The RocksDB half of the binding, \<^verbatim>\<open>src/src/rocksdb\<close>: environments with their
  column families, databases, batches and cursors.  RocksDB is the record \<open>'e rdb\<close>, with the contract
  \<open>rdb_laws\<close>; batches are the representation strings of \<open>Rocks_Batch\<close>.
\<close>

section \<open>The library interface\<close>

text \<open>\<^verbatim>\<open>DB::Open\<close> gets the vector of handles as it is and leaves it changed; it is
  called with the \<^verbatim>\<open>DBOptions\<close> part of the options only, to which the size of the write
  buffer does not belong.\<close>

record 'e rdb = "'e itops" +
  rd_Open :: "bytes \<Rightarrow> (bytes \<times> comparator) list \<Rightarrow> ptr list \<Rightarrow> 'e \<Rightarrow> rstatus \<times> ptr list \<times> ptr \<times> 'e"
  rd_DeleteDB :: "ptr \<Rightarrow> 'e \<Rightarrow> 'e"
  rd_DeleteCF :: "ptr \<Rightarrow> 'e \<Rightarrow> 'e"
  rd_GetID :: "ptr \<Rightarrow> 'e \<Rightarrow> u32"
  rd_Get :: "ptr \<Rightarrow> ptr \<Rightarrow> bytes \<Rightarrow> 'e \<Rightarrow> (rstatus \<times> bytes \<times> 'e) option"
  rd_Put :: "ptr \<Rightarrow> ptr \<Rightarrow> bytes \<Rightarrow> bytes \<Rightarrow> 'e \<Rightarrow> (rstatus \<times> 'e) option"
  rd_Delete :: "ptr \<Rightarrow> ptr \<Rightarrow> bytes \<Rightarrow> 'e \<Rightarrow> (rstatus \<times> 'e) option"
  rd_Write :: "ptr \<Rightarrow> bytes \<Rightarrow> 'e \<Rightarrow> (rstatus \<times> bytes \<times> 'e) option"
  rd_NewIterator :: "ptr \<Rightarrow> ptr \<Rightarrow> 'e \<Rightarrow> ptr \<times> 'e"

definition GetColumnFamilyID :: "'e rdb \<Rightarrow> ptr \<Rightarrow> 'e \<Rightarrow> u32" where
  "GetColumnFamilyID RD cf e = (if cf \<noteq> 0 then rd_GetID RD cf e else 0)"

section \<open>Native objects\<close>

record rocks_env =
  re_db :: ptr
  re_desc :: "(bytes \<times> comparator) list"
  re_handles :: "ptr list"

record rocks_db =
  ro_K :: kv_type
  ro_V :: kv_type
  ro_cfidx :: nat
  ro_db :: ptr
  ro_cf :: ptr

record rocks_cursor =
  rc_K :: kv_type
  rc_V :: kv_type
  rc_cursor :: ptr

record 'e rocks_world =
  rw_e :: 'e
  rw_envs :: "nat \<rightharpoonup> rocks_env"
  rw_dbs :: "nat \<rightharpoonup> rocks_db"
  rw_batches :: "nat \<rightharpoonup> bytes"
  rw_cursors :: "nat \<rightharpoonup> rocks_cursor"

definition rstatus_error :: "rstatus \<Rightarrow> outcome" where
  "rstatus_error s = Throw (StatusError (c_str (rstatus_ToString s)))"

section \<open>Environments\<close>

definition kDefaultColumnFamilyName :: bytes where "kDefaultColumnFamilyName = ascii ''default''"

definition rocks_env_new :: rocks_env where
  "rocks_env_new = \<lparr>re_db = 0, re_desc = [(kDefaultColumnFamilyName, BytewiseComparator)], re_handles = []\<rparr>"

definition rocks_env_ctor :: "nat \<Rightarrow> 'e rocks_world \<Rightarrow> outcome \<times> 'e rocks_world" where
  "rocks_env_ctor this w = (Return (JObject this), w\<lparr>rw_envs := (rw_envs w)(this \<mapsto> rocks_env_new)\<rparr>)"

definition register_db :: "bytes \<times> comparator \<Rightarrow> rocks_env \<Rightarrow> nat \<times> rocks_env" where
  "register_db desc ew = (length (re_desc ew @ [desc]) - 1, ew\<lparr>re_desc := re_desc ew @ [desc]\<rparr>)"

text \<open>The conversion of the second argument to \<^verbatim>\<open>size_t\<close> is all that is left of it.\<close>

definition rocks_env_open :: "'e rdb \<Rightarrow> v8 \<Rightarrow> nat \<Rightarrow> js \<Rightarrow> js \<Rightarrow> 'e rocks_world \<Rightarrow> outcome \<times> 'e rocks_world" where
  "rocks_env_open RD V this parg barg w =
     (case rw_envs w this of
        None \<Rightarrow> (Undef, w)
      | Some envw \<Rightarrow>
          if (case barg of JNumber n \<Rightarrow> n < 0 \<or> n \<ge> 2 ^ 64 | _ \<Rightarrow> False) then (Undef, w)
          else (case rd_Open RD (c_str (ToString V parg)) (re_desc envw) (re_handles envw) (rw_e w) of
                  (s, handles, pdb, e) \<Rightarrow>
                    let envw1 = envw\<lparr>re_handles := handles\<rparr>
                    in if \<not> rstatus_ok s then (rstatus_error s, w\<lparr>rw_e := e, rw_envs := (rw_envs w)(this \<mapsto> envw1)\<rparr>)
                       else (Return JUndefined, w\<lparr>rw_e := e, rw_envs := (rw_envs w)(this \<mapsto> envw1\<lparr>re_db := pdb\<rparr>)\<rparr>)))"

definition rocks_env_dtor :: "'e rdb \<Rightarrow> nat \<Rightarrow> 'e rocks_world \<Rightarrow> 'e rocks_world" where
  "rocks_env_dtor RD this w =
     (case rw_envs w this of
        None \<Rightarrow> w
      | Some envw \<Rightarrow>
          w\<lparr>rw_e := (if re_db envw \<noteq> 0 then rd_DeleteDB RD (re_db envw) (rw_e w) else rw_e w), rw_envs := (rw_envs w)(this := None)\<rparr>)"

section \<open>Databases\<close>

definition rocks_ctor :: "v8 \<Rightarrow> kv_type \<Rightarrow> kv_type \<Rightarrow> nat \<Rightarrow> js \<Rightarrow> js \<Rightarrow> 'e rocks_world \<Rightarrow> outcome \<times> 'e rocks_world" where
  "rocks_ctor V K T this earg narg w =
     (case unwrap (rw_envs w) earg of
        None \<Rightarrow> (Undef, w)
      | Some (a, ew) \<Rightarrow>
          (case register_db (c_str (ToString V narg), lvl_comparator K) ew of
             (idx, ew1) \<Rightarrow>
               (Return (JObject this),
                w\<lparr>rw_envs := (rw_envs w)(a \<mapsto> ew1),
                  rw_dbs := (rw_dbs w)(this \<mapsto> \<lparr>ro_K = K, ro_V = T, ro_cfidx = idx, ro_db = 0, ro_cf = 0\<rparr>)\<rparr>)))"

text \<open>The index is not checked against the handles of the environment.\<close>

definition rocks_init :: "nat \<Rightarrow> js \<Rightarrow> 'e rocks_world \<Rightarrow> outcome \<times> 'e rocks_world" where
  "rocks_init this earg w =
     (case (rw_dbs w this, unwrap (rw_envs w) earg) of
        (Some dw, Some (a, ew)) \<Rightarrow>
          if ro_cfidx dw < length (re_handles ew)
          then (Return JUndefined,
                w\<lparr>rw_dbs := (rw_dbs w)(this \<mapsto> dw\<lparr>ro_db := re_db ew, ro_cf := re_handles ew ! ro_cfidx dw\<rparr>)\<rparr>)
          else (Undef, w)
      | _ \<Rightarrow> (Undef, w))"

definition rocks_get :: "'e rdb \<Rightarrow> v8 \<Rightarrow> (nat \<Rightarrow> bytes) \<Rightarrow> nat \<Rightarrow> js \<Rightarrow> 'e rocks_world \<Rightarrow> outcome \<times> 'e rocks_world" where
  "rocks_get RD V g this karg w =
     (case rw_dbs w this of
        None \<Rightarrow> (Undef, w)
      | Some dw \<Rightarrow>
          (case kv_encode (ro_K dw) V karg of
             None \<Rightarrow> (Undef, w)
           | Some key \<Rightarrow>
               if ro_db dw = 0 then (Undef, w)
               else (case rd_Get RD (ro_db dw) (ro_cf dw) key (rw_e w) of
                  None \<Rightarrow> (Hang, w)
                | Some (s, val, e) \<Rightarrow>
                    let w1 = w\<lparr>rw_e := e\<rparr>;
                        ret = (if RIsNotFound s then Return JNull else Return JUndefined);
                        ret = (if \<not> rstatus_ok s then rstatus_error s
                               else case kv_decode (ro_V dw) g (val @ [0]) (length val) of None \<Rightarrow> Undef | Some j \<Rightarrow> Return j)
                    in (ret, w1))))"

definition rocks_put :: "'e rdb \<Rightarrow> v8 \<Rightarrow> nat \<Rightarrow> js \<Rightarrow> js \<Rightarrow> js \<Rightarrow> 'e rocks_world \<Rightarrow> outcome \<times> 'e rocks_world" where
  "rocks_put RD V this karg varg barg w =
     (case rw_dbs w this of
        None \<Rightarrow> (Undef, w)
      | Some dw \<Rightarrow>
          (case (kv_encode (ro_K dw) V karg, kv_encode (ro_V dw) V varg) of
             (Some key, Some val) \<Rightarrow>
               if IsObject barg
               then (case unwrap (rw_batches w) barg of
                       None \<Rightarrow> (Undef, w)
                     | Some (a, b) \<Rightarrow>
                         (Return JUndefined,
                          w\<lparr>rw_batches := (rw_batches w)(a \<mapsto> rocks_Put b (GetColumnFamilyID RD (ro_cf dw) (rw_e w)) key val)\<rparr>))
               else if ro_db dw = 0 then (Undef, w)
               else (case rd_Put RD (ro_db dw) (ro_cf dw) key val (rw_e w) of
                       None \<Rightarrow> (Hang, w)
                     | Some (s, e) \<Rightarrow> (if \<not> rstatus_ok s then rstatus_error s else Return JUndefined, w\<lparr>rw_e := e\<rparr>))
           | _ \<Rightarrow> (Undef, w)))"

definition rocks_del :: "'e rdb \<Rightarrow> v8 \<Rightarrow> nat \<Rightarrow> js \<Rightarrow> js \<Rightarrow> 'e rocks_world \<Rightarrow> outcome \<times> 'e rocks_world" where
  "rocks_del RD V this karg barg w =
     (case rw_dbs w this of
        None \<Rightarrow> (Undef, w)
      | Some dw \<Rightarrow>
          (case kv_encode (ro_K dw) V karg of
             None \<Rightarrow> (Undef, w)
           | Some key \<Rightarrow>
               if IsObject barg
               then (case unwrap (rw_batches w) barg of
                       None \<Rightarrow> (Undef, w)
                     | Some (a, b) \<Rightarrow>
                         (Return JUndefined,
                          w\<lparr>rw_batches := (rw_batches w)(a \<mapsto> rocks_Delete b (GetColumnFamilyID RD (ro_cf dw) (rw_e w)) key)\<rparr>))
               else if ro_db dw = 0 then (Undef, w)
               else (case rd_Delete RD (ro_db dw) (ro_cf dw) key (rw_e w) of
                       None \<Rightarrow> (Hang, w)
                     | Some (s, e) \<Rightarrow> (if \<not> rstatus_ok s then rstatus_error s else Return JUndefined, w\<lparr>rw_e := e\<rparr>))))"

definition rocks_write :: "'e rdb \<Rightarrow> nat \<Rightarrow> js \<Rightarrow> 'e rocks_world \<Rightarrow> outcome \<times> 'e rocks_world" where
  "rocks_write RD this barg w =
     (case (rw_dbs w this, unwrap (rw_batches w) barg) of
        (Some dw, Some (a, b)) \<Rightarrow>
          if ro_db dw = 0 then (Undef, w)
          else (case rd_Write RD (ro_db dw) b (rw_e w) of
             None \<Rightarrow> (Hang, w)
           | Some (s, b', e) \<Rightarrow>
               (if \<not> rstatus_ok s then rstatus_error s else Return JUndefined,
                w\<lparr>rw_e := e, rw_batches := (rw_batches w)(a \<mapsto> b')\<rparr>))
      | _ \<Rightarrow> (Undef, w))"

definition rocks_dtor :: "'e rdb \<Rightarrow> nat \<Rightarrow> 'e rocks_world \<Rightarrow> 'e rocks_world" where
  "rocks_dtor RD this w =
     (case rw_dbs w this of
        None \<Rightarrow> w
      | Some dw \<Rightarrow>
          w\<lparr>rw_e := (if ro_cf dw \<noteq> 0 then rd_DeleteCF RD (ro_cf dw) (rw_e w) else rw_e w), rw_dbs := (rw_dbs w)(this := None)\<rparr>)"

section \<open>Batches\<close>

definition rocks_batch_ctor :: "nat \<Rightarrow> 'e rocks_world \<Rightarrow> outcome \<times> 'e rocks_world" where
  "rocks_batch_ctor this w = (Return (JObject this), w\<lparr>rw_batches := (rw_batches w)(this \<mapsto> rocks_Clear)\<rparr>)"

definition rocks_batch_clear :: "nat \<Rightarrow> 'e rocks_world \<Rightarrow> outcome \<times> 'e rocks_world" where
  "rocks_batch_clear this w =
     (case rw_batches w this of
        None \<Rightarrow> (Undef, w)
      | Some _ \<Rightarrow> (Return JUndefined, w\<lparr>rw_batches := (rw_batches w)(this \<mapsto> rocks_Clear)\<rparr>))"

section \<open>Cursors\<close>

definition rocks_cursor_ctor :: "'e rdb \<Rightarrow> kv_type \<Rightarrow> kv_type \<Rightarrow> nat \<Rightarrow> js \<Rightarrow> 'e rocks_world \<Rightarrow> outcome \<times> 'e rocks_world" where
  "rocks_cursor_ctor RD K T this darg w =
     (case unwrap (rw_dbs w) darg of
        None \<Rightarrow> (Undef, w)
      | Some (_, dw) \<Rightarrow>
          if ro_db dw = 0 then (Undef, w)
          else (case rd_NewIterator RD (ro_db dw) (ro_cf dw) (rw_e w) of
             (cur, e) \<Rightarrow>
               (Return (JObject this),
                w\<lparr>rw_e := e, rw_cursors := (rw_cursors w)(this \<mapsto> \<lparr>rc_K = K, rc_V = T, rc_cursor = cur\<rparr>)\<rparr>)))"

definition rocks_cursorOp :: "'e rdb \<Rightarrow> iter_move \<Rightarrow> nat \<Rightarrow> 'e rocks_world \<Rightarrow> outcome \<times> 'e rocks_world" where
  "rocks_cursorOp RD FN this w =
     (case rw_cursors w this of
        None \<Rightarrow> (Undef, w)
      | Some cw \<Rightarrow>
          (case ld_move RD FN (rc_cursor cw) (rw_e w) of
             None \<Rightarrow> (Undef, w)
           | Some e \<Rightarrow> (Return (JBool (ld_Valid RD (rc_cursor cw) e)), w\<lparr>rw_e := e\<rparr>)))"

definition rocks_cursor_key :: "'e rdb \<Rightarrow> (nat \<Rightarrow> bytes) \<Rightarrow> nat \<Rightarrow> 'e rocks_world \<Rightarrow> outcome \<times> 'e rocks_world" where
  "rocks_cursor_key RD g this w =
     (case rw_cursors w this of
        None \<Rightarrow> (Undef, w)
      | Some cw \<Rightarrow>
          let ret = (if \<not> ld_Valid RD (rc_cursor cw) (rw_e w) then Return JNull else Return JUndefined);
              ret = slice_outcome (rc_K cw) g (ld_key RD (rc_cursor cw) (rw_e w))
          in (ret, w))"

definition rocks_cursor_value :: "'e rdb \<Rightarrow> (nat \<Rightarrow> bytes) \<Rightarrow> nat \<Rightarrow> 'e rocks_world \<Rightarrow> outcome \<times> 'e rocks_world" where
  "rocks_cursor_value RD g this w =
     (case rw_cursors w this of
        None \<Rightarrow> (Undef, w)
      | Some cw \<Rightarrow>
          let ret = (if \<not> ld_Valid RD (rc_cursor cw) (rw_e w) then Return JNull else Return JUndefined);
              ret = slice_outcome (rc_V cw) g (ld_value RD (rc_cursor cw) (rw_e w))
          in (ret, w))"

definition rocks_cursor_next :: "'e rdb \<Rightarrow> nat \<Rightarrow> 'e rocks_world \<Rightarrow> outcome \<times> 'e rocks_world" where
  "rocks_cursor_next RD = rocks_cursorOp RD MoveNext"

definition rocks_cursor_prev :: "'e rdb \<Rightarrow> nat \<Rightarrow> 'e rocks_world \<Rightarrow> outcome \<times> 'e rocks_world" where
  "rocks_cursor_prev RD = rocks_cursorOp RD MovePrev"

definition rocks_cursor_first :: "'e rdb \<Rightarrow> nat \<Rightarrow> 'e rocks_world \<Rightarrow> outcome \<times> 'e rocks_world" where
  "rocks_cursor_first RD = rocks_cursorOp RD MoveFirst"

definition rocks_cursor_last :: "'e rdb \<Rightarrow> nat \<Rightarrow> 'e rocks_world \<Rightarrow> outcome \<times> 'e rocks_world" where
  "rocks_cursor_last RD = rocks_cursorOp RD MoveLast"

definition rocks_cursor_gte :: "'e rdb \<Rightarrow> v8 \<Rightarrow> nat \<Rightarrow> js \<Rightarrow> 'e rocks_world \<Rightarrow> outcome \<times> 'e rocks_world" where
  "rocks_cursor_gte RD V this karg w =
     (case rw_cursors w this of
        None \<Rightarrow> (Undef, w)
      | Some cw \<Rightarrow>
          (case kv_encode (rc_K cw) V karg of
             None \<Rightarrow> (Undef, w)
           | Some key \<Rightarrow>
               (case ld_move RD (MoveSeek key) (rc_cursor cw) (rw_e w) of
                  None \<Rightarrow> (Undef, w)
                | Some e \<Rightarrow> (Return (JBool (ld_Valid RD (rc_cursor cw) e)), w\<lparr>rw_e := e\<rparr>))))"

definition rocks_cursor_dtor :: "'e rdb \<Rightarrow> nat \<Rightarrow> 'e rocks_world \<Rightarrow> 'e rocks_world" where
  "rocks_cursor_dtor RD this w =
     (case rw_cursors w this of
        None \<Rightarrow> w
      | Some cw \<Rightarrow>
          w\<lparr>rw_e := ld_DeleteIterator RD (rc_cursor cw) (rw_e w), rw_cursors := (rw_cursors w)(this := None)\<rparr>)"

section \<open>The contract of RocksDB\<close>

fun cf_of :: "cf_op \<Rightarrow> u32" where
  "cf_of (CfPut cf key val) = cf"
| "cf_of (CfDelete cf key) = cf"
| "cf_of (CfMerge cf key val) = cf"
| "cf_of (CfLogData blob) = 0"

fun cf_key :: "cf_op \<Rightarrow> bytes" where
  "cf_key (CfPut cf key val) = key"
| "cf_key (CfDelete cf key) = key"
| "cf_key (CfMerge cf key val) = key"
| "cf_key (CfLogData blob) = []"

text \<open>The binding puts and deletes only.\<close>

fun cf_plain :: "cf_op \<Rightarrow> bool" where
  "cf_plain (CfPut cf key val) \<longleftrightarrow> length key < 2 ^ 32 \<and> length val < 2 ^ 32"
| "cf_plain (CfDelete cf key) \<longleftrightarrow> length key < 2 ^ 32"
| "cf_plain _ \<longleftrightarrow> False"

text \<open>\<open>cfam C ok p h e\<close>: the handle \<open>h\<close> is a column family of the open database \<open>p\<close> with the comparator
  \<open>C\<close> for the keys \<open>ok\<close>.  After a call the database \<open>p\<close> has the contents \<open>c\<close>, by column family, and
  everything else is as it was.\<close>

definition rocks_after :: "'e rdb \<Rightarrow> (comparator \<Rightarrow> (bytes \<Rightarrow> bool) \<Rightarrow> ptr \<Rightarrow> ptr \<Rightarrow> 'e \<Rightarrow> bool) \<Rightarrow> (ptr \<Rightarrow> u32 \<Rightarrow> 'e \<Rightarrow> bytes \<rightharpoonup> bytes) \<Rightarrow>
    ptr \<Rightarrow> (u32 \<Rightarrow> bytes \<rightharpoonup> bytes) \<Rightarrow> 'e \<Rightarrow> 'e \<Rightarrow> bool" where
  "rocks_after RD cfam content p c e e' \<longleftrightarrow>
     (\<forall>C ok q h. cfam C ok q h e \<longrightarrow> cfam C ok q h e' \<and> rd_GetID RD h e' = rd_GetID RD h e \<and>
        (\<forall>k. key_ok ok k \<longrightarrow> content q (rd_GetID RD h e) e' k = (if q = p then c (rd_GetID RD h e) k else content q (rd_GetID RD h e) e k)))"

locale rdb_laws = it_laws RD irep
  for RD :: "'e rdb"
    and irep :: "comparator \<Rightarrow> (bytes \<Rightarrow> bool) \<Rightarrow> ptr \<Rightarrow> ptr \<Rightarrow> (bytes \<times> bytes) list \<Rightarrow> nat \<Rightarrow> 'e \<Rightarrow> bool" +
  fixes cfam :: "comparator \<Rightarrow> (bytes \<Rightarrow> bool) \<Rightarrow> ptr \<Rightarrow> ptr \<Rightarrow> 'e \<Rightarrow> bool"
    and content :: "ptr \<Rightarrow> u32 \<Rightarrow> 'e \<Rightarrow> bytes \<rightharpoonup> bytes"
  assumes family: "cfam C ok p h e \<Longrightarrow> p \<noteq> 0 \<and> h \<noteq> 0"
    and open_db: "rd_Open RD name descs hs e = (s, hs', p, e') \<Longrightarrow> rstatus_ok s \<Longrightarrow>
      length hs' = length descs \<and> distinct hs' \<and>
      (\<forall>i ok. i < length descs \<longrightarrow> comparator_laws (snd (descs ! i)) ok \<longrightarrow> cfam (snd (descs ! i)) ok p (hs' ! i) e')"
    and get_key: "cfam C ok p h e \<Longrightarrow> key_ok ok k \<Longrightarrow>
      \<exists>s v e'. rd_Get RD p h k e = Some (s, v, e') \<and> rocks_after RD cfam content p (\<lambda>cf. content p cf e) e e' \<and>
        (rstatus_ok s \<longrightarrow> content p (rd_GetID RD h e) e k = Some v) \<and> (RIsNotFound s \<longrightarrow> content p (rd_GetID RD h e) e k = None)"
    and put_key: "cfam C ok p h e \<Longrightarrow> key_ok ok k \<Longrightarrow> length v < 2 ^ 32 \<Longrightarrow>
      \<exists>s e'. rd_Put RD p h k v e = Some (s, e') \<and>
        rocks_after RD cfam content p (if rstatus_ok s then snd (cf_handle cf_map_handler (CfPut (rd_GetID RD h e) k v) (\<lambda>cf. content p cf e))
          else (\<lambda>cf. content p cf e)) e e'"
    and delete_key: "cfam C ok p h e \<Longrightarrow> key_ok ok k \<Longrightarrow>
      \<exists>s e'. rd_Delete RD p h k e = Some (s, e') \<and>
        rocks_after RD cfam content p (if rstatus_ok s then snd (cf_handle cf_map_handler (CfDelete (rd_GetID RD h e) k) (\<lambda>cf. content p cf e))
          else (\<lambda>cf. content p cf e)) e e'"
    and write_batch: "cfam C ok p h e \<Longrightarrow>
      (\<And>op. op \<in> set ops \<Longrightarrow> cf_plain op \<and> (\<exists>C ok h. cfam C ok p h e \<and> rd_GetID RD h e = cf_of op \<and> key_ok ok (cf_key op))) \<Longrightarrow>
      \<exists>s t' e'. rd_Write RD p (cf_batch t (cf_count ops) ops) e = Some (s, cf_batch t' (cf_count ops) ops, e') \<and>
        rocks_after RD cfam content p (if rstatus_ok s then snd (cf_replay cf_map_handler ops (\<lambda>cf. content p cf e)) else (\<lambda>cf. content p cf e)) e e'"
    and new_iter: "cfam C ok p h e \<Longrightarrow> rd_NewIterator RD p h e = (i, e') \<Longrightarrow>
      (\<exists>xs. irep C ok i p xs (length xs) e') \<and> rocks_after RD cfam content p (\<lambda>cf. content p cf e) e e'"

section \<open>A reference RocksDB\<close>

text \<open>A database is the list of its column families, the position is the identifier; each has its entries in the order of its
  comparator.  A write replays the batch with the handler below and keeps the result if no error is reported.\<close>

type_synonym family = "bytes \<times> comparator \<times> (bytes \<times> bytes) list"

record rocks_heap =
  rk_dbs :: "ptr \<rightharpoonup> family list"
  rk_cfs :: "ptr \<rightharpoonup> ptr \<times> nat"
  rk_iters :: "ptr \<rightharpoonup> comparator \<times> (bytes \<times> bytes) list \<times> nat"
  rk_next :: nat

definition fam_put :: "bytes \<Rightarrow> bytes \<Rightarrow> family \<Rightarrow> family" where
  "fam_put k v f = (case f of (n, C, xs) \<Rightarrow>
     let ys = filter (\<lambda>x. fst x \<noteq> k) xs
     in (n, C, takeWhile (\<lambda>x. cm_Compare C (fst x) k < 0) ys @ (k, v) # dropWhile (\<lambda>x. cm_Compare C (fst x) k < 0) ys))"

definition fam_del :: "bytes \<Rightarrow> family \<Rightarrow> family" where
  "fam_del k f = (case f of (n, C, xs) \<Rightarrow> (n, C, filter (\<lambda>x. fst x \<noteq> k) xs))"

definition fam_update :: "u32 \<Rightarrow> (family \<Rightarrow> family) \<Rightarrow> family list \<Rightarrow> rstatus \<times> family list" where
  "fam_update cf f fs =
     (if unat cf < length fs then (RStatus_OK, fs[unat cf := f (fs ! unat cf)])
      else (RStatus_new rkInvalidArgument (ascii ''Invalid column family specified in write batch'') [], fs))"

definition fam_handler :: "family list rhandler" where
  "fam_handler =
     \<lparr>rh_PutCF = (\<lambda>cf k v. fam_update cf (fam_put k v)), rh_DeleteCF = (\<lambda>cf k. fam_update cf (fam_del k)),
      rh_MergeCF = (\<lambda>cf k v fs. (RStatus_code rkNotSupported, fs)), rh_LogData = (\<lambda>b fs. fs), rh_Continue = (\<lambda>_. True)\<rparr>"

definition fam_write :: "ptr \<Rightarrow> bytes \<Rightarrow> rocks_heap \<Rightarrow> (rstatus \<times> rocks_heap) option" where
  "fam_write p b e =
     (case rk_dbs e p of
        None \<Rightarrow> None
      | Some fs \<Rightarrow>
          (case rocks_Iterate fam_handler b fs of
             (s, fs') \<Rightarrow> Some (s, if rstatus_ok s then e\<lparr>rk_dbs := (rk_dbs e)(p \<mapsto> fs')\<rparr> else e)))"

definition rk_id :: "ptr \<Rightarrow> rocks_heap \<Rightarrow> u32" where
  "rk_id h e = (case rk_cfs e h of None \<Rightarrow> 0 | Some (p, i) \<Rightarrow> of_nat i)"

definition rk_entries :: "ptr \<Rightarrow> nat \<Rightarrow> rocks_heap \<Rightarrow> (bytes \<times> bytes) list" where
  "rk_entries p i e = (case rk_dbs e p of Some fs \<Rightarrow> if i < length fs then snd (snd (fs ! i)) else [] | None \<Rightarrow> [])"

definition ref_rocks :: "rocks_heap rdb" where
  "ref_rocks =
     \<lparr>ld_DeleteIterator = (\<lambda>i e. e\<lparr>rk_iters := (rk_iters e)(i := None)\<rparr>),
      ld_Valid = (\<lambda>i e. case rk_iters e i of None \<Rightarrow> False | Some (C, xs, n) \<Rightarrow> n < length xs),
      ld_move = (\<lambda>m i e. case rk_iters e i of
         None \<Rightarrow> None
       | Some (C, xs, n) \<Rightarrow> if (case m of MoveNext \<Rightarrow> n < length xs | MovePrev \<Rightarrow> n < length xs | _ \<Rightarrow> True) then Some (e\<lparr>rk_iters := (rk_iters e)(i \<mapsto> (C, xs, move_to C m xs n))\<rparr>) else None),
      ld_key = (\<lambda>i e. case rk_iters e i of None \<Rightarrow> None | Some (C, xs, n) \<Rightarrow> if n < length xs then Some (whole_slice (fst (xs ! n))) else None),
      ld_value = (\<lambda>i e. case rk_iters e i of None \<Rightarrow> None | Some (C, xs, n) \<Rightarrow> if n < length xs then Some (whole_slice (snd (xs ! n))) else None),
      rd_Open = (\<lambda>name descs hs e.
         if length descs < 2 ^ 32
         then (RStatus_OK, map (\<lambda>i. rk_next e + i + 2) [0..<length descs], rk_next e + 1,
               \<lparr>rk_dbs = (rk_dbs e)(rk_next e + 1 \<mapsto> map (\<lambda>(n, C). (n, C, [])) descs),
                rk_cfs = (\<lambda>h. if rk_next e + 2 \<le> h \<and> h < rk_next e + 2 + length descs then Some (rk_next e + 1, h - (rk_next e + 2)) else rk_cfs e h),
                rk_iters = rk_iters e, rk_next = rk_next e + 2 + length descs\<rparr>)
         else (RStatus_new rkInvalidArgument [] [], [], 0, e)),
      rd_DeleteDB = (\<lambda>p e. e\<lparr>rk_dbs := (rk_dbs e)(p := None)\<rparr>),
      rd_DeleteCF = (\<lambda>h e. e\<lparr>rk_cfs := (rk_cfs e)(h := None)\<rparr>),
      rd_GetID = rk_id,
      rd_Get = (\<lambda>p h k e. case rk_cfs e h of
         None \<Rightarrow> None
       | Some (_, i) \<Rightarrow> (case map_of (rk_entries p i e) k of Some v \<Rightarrow> Some (RStatus_OK, v, e) | None \<Rightarrow> Some (RStatus_code rkNotFound, [], e))),
      rd_Put = (\<lambda>p h k v e. fam_write p (rocks_Put rocks_Clear (rk_id h e) k v) e),
      rd_Delete = (\<lambda>p h k e. fam_write p (rocks_Delete rocks_Clear (rk_id h e) k) e),
      rd_Write = (\<lambda>p b e. map_option (\<lambda>(s, e'). (s, b, e')) (fam_write p b e)),
      rd_NewIterator = (\<lambda>p h e. (rk_next e + 1,
         e\<lparr>rk_iters := (rk_iters e)(rk_next e + 1 := (case rk_cfs e h of
             None \<Rightarrow> None
           | Some (_, i) \<Rightarrow> Some (fst (snd (the (rk_dbs e p) ! i)), rk_entries p i e, length (rk_entries p i e)))),
           rk_next := rk_next e + 1\<rparr>))\<rparr>"

definition rk_cfam :: "comparator \<Rightarrow> (bytes \<Rightarrow> bool) \<Rightarrow> ptr \<Rightarrow> ptr \<Rightarrow> rocks_heap \<Rightarrow> bool" where
  "rk_cfam C ok p h e \<longleftrightarrow>
     (\<exists>i fs. rk_cfs e h = Some (p, i) \<and> rk_dbs e p = Some fs \<and> i < length fs \<and> i < 2 ^ 32 \<and> fst (snd (fs ! i)) = C \<and> 0 < p \<and> 0 < h)"

definition rk_content :: "ptr \<Rightarrow> u32 \<Rightarrow> rocks_heap \<Rightarrow> bytes \<rightharpoonup> bytes" where
  "rk_content p cf e = map_of (rk_entries p (unat cf) e)"

definition rk_irep :: "comparator \<Rightarrow> (bytes \<Rightarrow> bool) \<Rightarrow> ptr \<Rightarrow> ptr \<Rightarrow> (bytes \<times> bytes) list \<Rightarrow> nat \<Rightarrow> rocks_heap \<Rightarrow> bool" where
  "rk_irep C ok i p xs n e \<longleftrightarrow> rk_iters e i = Some (C, xs, n)"

lemma map_of_filter_other: "map_of (filter (\<lambda>x. fst x \<noteq> k) xs) = (map_of xs)(k := None)"
  by (induction xs) auto

lemma map_of_fam_put: "map_of (snd (snd (fam_put k v f))) = (map_of (snd (snd f)))(k \<mapsto> v)"
proof -
  obtain n C xs where f: "f = (n, C, xs)" by (cases f)
  define ys where "ys = filter (\<lambda>x. fst x \<noteq> k) xs"
  have app: "map_of (a @ (k, v) # b) = (map_of (a @ b))(k \<mapsto> v)" if "k \<notin> fst ` set a" for a b
    using that by (induction a) auto
  have "k \<notin> fst ` set ys" by (auto simp: ys_def)
  then have "k \<notin> fst ` set (takeWhile P ys)" for P by (auto dest: set_takeWhileD)
  then have "map_of (takeWhile P ys @ (k, v) # dropWhile P ys) = (map_of ys)(k \<mapsto> v)" for P
    by (simp only: app takeWhile_dropWhile_id not_False_eq_True)
  moreover have "map_of ys = (map_of xs)(k := None)" unfolding ys_def by (rule map_of_filter_other)
  ultimately show ?thesis by (simp add: f fam_put_def Let_def ys_def [symmetric])
qed

lemma map_of_fam_del: "map_of (snd (snd (fam_del k f))) = (map_of (snd (snd f)))(k := None)"
  by (cases f) (simp add: fam_del_def map_of_filter_other)

lemma fam_cmp [simp]: "fst (snd (fam_put k v f)) = fst (snd f)" "fst (snd (fam_del k f)) = fst (snd f)"
  by (cases f, simp add: fam_put_def fam_del_def Let_def)+

text \<open>The contents of a list of families, and that replaying on the list replays on the contents.\<close>

definition fam_content :: "family list \<Rightarrow> u32 \<Rightarrow> bytes \<rightharpoonup> bytes" where
  "fam_content fs cf = (if unat cf < length fs then map_of (snd (snd (fs ! unat cf))) else Map.empty)"

definition same_families :: "family list \<Rightarrow> family list \<Rightarrow> bool" where
  "same_families fs fs' \<longleftrightarrow> map (\<lambda>f. fst (snd f)) fs' = map (\<lambda>f. fst (snd f)) fs"

lemma fam_handle_op:
  assumes "cf_plain op" and "unat (cf_of op) < length fs"
  shows "\<exists>fs'. cf_handle fam_handler op fs = (RStatus_OK, fs') \<and> same_families fs fs' \<and>
    cf_handle cf_map_handler op (fam_content fs) = (RStatus_OK, fam_content fs')"
proof -
  have upd: "same_families fs (fs[i := f])" if "fst (snd f) = fst (snd (fs ! i))" for f i
  proof -
    have "fst (snd (fs[i := f] ! j)) = fst (snd (fs ! j))" if "j < length fs" for j
      using \<open>fst (snd f) = _\<close> that by (cases "j = i") simp_all
    then show ?thesis unfolding same_families_def by (intro nth_equalityI) simp_all
  qed
  have con: "fam_content (fs[unat cf := f]) = (fam_content fs)(cf := map_of (snd (snd f)))" if "unat cf < length fs" for cf f
  proof
    show "fam_content (fs[unat cf := f]) x = ((fam_content fs)(cf := map_of (snd (snd f)))) x" for x
      using that by (cases "x = cf") (auto simp: fam_content_def nth_list_update word_unat_eq_iff)
  qed
  show ?thesis
    using assms by (cases op) (auto simp: fam_handler_def cf_map_handler_def fam_update_def upd con map_of_fam_put map_of_fam_del fam_content_def)
qed

lemma same_families_length: "same_families fs fs' \<Longrightarrow> length fs' = length fs"
  unfolding same_families_def by (metis length_map)

lemma same_families_nth:
  assumes "same_families fs fs'" and "i < length fs"
  shows "fst (snd (fs' ! i)) = fst (snd (fs ! i))"
proof -
  have "map (\<lambda>f. fst (snd f)) fs' ! i = map (\<lambda>f. fst (snd f)) fs ! i" using assms(1) by (simp only: same_families_def)
  then show ?thesis using same_families_length [OF assms(1)] assms(2) by simp
qed

lemma fam_replay:
  assumes "\<And>op. op \<in> set ops \<Longrightarrow> cf_plain op \<and> unat (cf_of op) < length fs"
  shows "\<exists>fs'. cf_replay fam_handler ops fs = (RStatus_OK, fs') \<and> same_families fs fs' \<and>
    cf_replay cf_map_handler ops (fam_content fs) = (RStatus_OK, fam_content fs')"
  using assms
proof (induction ops arbitrary: fs)
  case Nil
  then show ?case by (simp add: same_families_def)
next
  case (Cons op ops)
  obtain fs1 where f1: "cf_handle fam_handler op fs = (RStatus_OK, fs1)" "same_families fs fs1"
      "cf_handle cf_map_handler op (fam_content fs) = (RStatus_OK, fam_content fs1)"
    using fam_handle_op [of op fs] Cons.prems by auto
  then obtain fs2 where "cf_replay fam_handler ops fs1 = (RStatus_OK, fs2)" "same_families fs1 fs2"
      "cf_replay cf_map_handler ops (fam_content fs1) = (RStatus_OK, fam_content fs2)"
    using Cons.IH [of fs1] Cons.prems same_families_length by (metis list.set_intros(2))
  then show ?case using f1 by (auto simp: same_families_def)
qed

lemma plain_small: "cf_plain op \<Longrightarrow> cf_small op"
  by (cases op) simp_all

lemma fam_continues: "rh_Continue fam_handler fs"
  by (simp add: fam_handler_def)

lemma rk_content_fam: "rk_dbs e p = Some fs \<Longrightarrow> rk_content p cf e = fam_content fs cf"
  by (simp add: rk_content_def rk_entries_def fam_content_def)

lemma fam_write_ops:
  assumes d: "rk_dbs e p = Some fs" and ops: "\<And>op. op \<in> set ops \<Longrightarrow> cf_plain op \<and> unat (cf_of op) < length fs"
  shows "\<exists>s e'. fam_write p (cf_batch t (cf_count ops) ops) e = Some (s, e') \<and> rstatus_ok s \<and>
    rocks_after ref_rocks rk_cfam rk_content p (snd (cf_replay cf_map_handler ops (\<lambda>cf. rk_content p cf e))) e e'"
proof -
  have sm: "list_all cf_small ops" using ops plain_small by (auto simp: list_all_iff)
  obtain fs' where f: "cf_replay fam_handler ops fs = (RStatus_OK, fs')" "same_families fs fs'"
      "cf_replay cf_map_handler ops (fam_content fs) = (RStatus_OK, fam_content fs')"
    using fam_replay [OF ops] by blast
  have c: "(\<lambda>cf. rk_content p cf e) = fam_content fs" using rk_content_fam [OF d] by blast
  let ?e = "e\<lparr>rk_dbs := (rk_dbs e)(p \<mapsto> fs')\<rparr>"
  have w: "fam_write p (cf_batch t (cf_count ops) ops) e = Some (RStatus_OK, ?e)"
    using rocks_Iterate_batch [OF sm fam_continues, of t fs] f(1) d by (simp add: fam_write_def)
  have "rk_cfam C ok q h ?e" if "rk_cfam C ok q h e" for C ok q h
    using that d same_families_nth [OF f(2)] same_families_length [OF f(2)] by (auto simp: rk_cfam_def)
  moreover have "rk_content q cf ?e = (if q = p then fam_content fs' cf else rk_content q cf e)" for q cf
    using rk_content_fam [of ?e p fs' cf] by (simp add: rk_content_def rk_entries_def)
  ultimately have "rocks_after ref_rocks rk_cfam rk_content p (fam_content fs') e ?e"
    by (auto simp: rocks_after_def ref_rocks_def rk_id_def)
  then show ?thesis using w f(3) c by auto
qed

lemma rk_id_less: "rk_cfam C ok p h e \<Longrightarrow> rk_dbs e p = Some fs \<Longrightarrow> unat (rk_id h e) < length fs"
  by (auto simp: rk_cfam_def rk_id_def unat_of_nat)

lemma rk_after_refl: "rocks_after ref_rocks rk_cfam rk_content p (\<lambda>cf. rk_content p cf e) e e"
  by (simp add: rocks_after_def)

lemma ref_rocks_sel [simp]:
  "rd_GetID ref_rocks = rk_id" "rd_Put ref_rocks = (\<lambda>p h k v e. fam_write p (rocks_Put rocks_Clear (rk_id h e) k v) e)"
  "rd_Delete ref_rocks = (\<lambda>p h k e. fam_write p (rocks_Delete rocks_Clear (rk_id h e) k) e)"
  "rd_Write ref_rocks = (\<lambda>p b e. map_option (\<lambda>(s, e'). (s, b, e')) (fam_write p b e))"
  by (simp_all add: ref_rocks_def)

text \<open>A put or a delete is the write of a batch with one operation.\<close>

lemma rocks_one_op:
  assumes "cf_plain op"
  shows "cf_add rocks_Clear op = cf_batch 0 (cf_count [op]) [op]"
  using cf_adds_batch [of "[op]" 0 0 "[]"] plain_small [OF assms] by (simp add: rocks_Clear_batch)

lemma replay_one: "cf_plain op \<Longrightarrow> snd (cf_replay cf_map_handler [op] m) = snd (cf_handle cf_map_handler op m)"
  by (cases op) (simp_all add: cf_map_handler_def)

lemma rk_op:
  assumes "rk_cfam C ok p h e" and "cf_plain op" and "cf_of op = rk_id h e"
  shows "\<exists>s e'. fam_write p (cf_add rocks_Clear op) e = Some (s, e') \<and>
    rocks_after ref_rocks rk_cfam rk_content p (if rstatus_ok s then snd (cf_handle cf_map_handler op (\<lambda>cf. rk_content p cf e)) else (\<lambda>cf. rk_content p cf e)) e e'"
proof -
  obtain fs where d: "rk_dbs e p = Some fs" using assms(1) by (auto simp: rk_cfam_def)
  have "\<And>op'. op' \<in> set [op] \<Longrightarrow> cf_plain op' \<and> unat (cf_of op') < length fs" using rk_id_less [OF assms(1) d] assms(2,3) by simp
  from fam_write_ops [OF d this, where t = 0] obtain s e' where "fam_write p (cf_batch 0 (cf_count [op]) [op]) e = Some (s, e')" "rstatus_ok s"
      "rocks_after ref_rocks rk_cfam rk_content p (snd (cf_replay cf_map_handler [op] (\<lambda>cf. rk_content p cf e))) e e'" by blast
  then show ?thesis using rocks_one_op [OF assms(2)] replay_one [OF assms(2)] by auto
qed

interpretation rocks_ref: rdb_laws ref_rocks rk_irep rk_cfam rk_content
proof
  fix C ok i p xs n and e :: rocks_heap
  assume a: "rk_irep C ok i p xs n e"
  then show "ld_Valid ref_rocks i e \<longleftrightarrow> n < length xs" by (simp add: rk_irep_def ref_rocks_def)
  show "\<exists>k v. ld_key ref_rocks i e = Some k \<and> ld_value ref_rocks i e = Some v \<and> slice_of (fst (xs ! n)) k \<and> slice_of (snd (xs ! n)) v" if "n < length xs"
    using a that by (simp add: rk_irep_def ref_rocks_def slice_of_def whole_slice_def)
  show "\<exists>e'. ld_move ref_rocks m i e = Some e' \<and> rk_irep C ok i p xs (move_to C m xs n) e'" if "move_ok ok m xs n" for m
    using a that by (cases m) (simp_all add: rk_irep_def ref_rocks_def)
next
  fix C ok p h and e :: rocks_heap
  assume "rk_cfam C ok p h e"
  then show "p \<noteq> 0 \<and> h \<noteq> 0" by (auto simp: rk_cfam_def)
next
  fix name descs hs s hs' p and e e' :: rocks_heap
  assume "rd_Open ref_rocks name descs hs e = (s, hs', p, e')" "rstatus_ok s"
  then show "length hs' = length descs \<and> distinct hs' \<and>
      (\<forall>i ok. i < length descs \<longrightarrow> comparator_laws (snd (descs ! i)) ok \<longrightarrow> rk_cfam (snd (descs ! i)) ok p (hs' ! i) e')"
    by (auto simp: ref_rocks_def rk_cfam_def rstatus_ok_def RStatus_new_def Let_def distinct_map inj_on_def case_prod_beta split: if_splits)
next
  fix C ok p h k and e :: rocks_heap
  assume a: "rk_cfam C ok p h e" "key_ok ok k"
  have plain: "cf_plain (CfDelete (rk_id h e) k)" "length v < 2 ^ 32 \<Longrightarrow> cf_plain (CfPut (rk_id h e) k v)" for v
    using a(2) by (simp_all add: key_ok_def)
  show "\<exists>s v e'. rd_Get ref_rocks p h k e = Some (s, v, e') \<and> rocks_after ref_rocks rk_cfam rk_content p (\<lambda>cf. rk_content p cf e) e e' \<and>
        (rstatus_ok s \<longrightarrow> rk_content p (rd_GetID ref_rocks h e) e k = Some v) \<and> (RIsNotFound s \<longrightarrow> rk_content p (rd_GetID ref_rocks h e) e k = None)"
    using a(1) rk_after_refl [of p e]
    by (cases "rk_content p (rk_id h e) e k")
      (auto simp: ref_rocks_def rk_cfam_def rk_id_def rk_content_def unat_of_nat RStatus_OK_def RStatus_code_def RIsNotFound_def rstatus_ok_def)
  show "\<exists>s e'. rd_Delete ref_rocks p h k e = Some (s, e') \<and>
        rocks_after ref_rocks rk_cfam rk_content p (if rstatus_ok s then snd (cf_handle cf_map_handler (CfDelete (rd_GetID ref_rocks h e) k) (\<lambda>cf. rk_content p cf e))
          else (\<lambda>cf. rk_content p cf e)) e e'"
    using rk_op [OF a(1) plain(1)] by (simp only: cf_add.simps cf_of.simps ref_rocks_sel simp_thms)
  show "\<exists>s e'. rd_Put ref_rocks p h k v e = Some (s, e') \<and>
        rocks_after ref_rocks rk_cfam rk_content p (if rstatus_ok s then snd (cf_handle cf_map_handler (CfPut (rd_GetID ref_rocks h e) k v) (\<lambda>cf. rk_content p cf e))
          else (\<lambda>cf. rk_content p cf e)) e e'" if "length v < 2 ^ 32" for v :: bytes
    using rk_op [OF a(1) plain(2) [OF that]] by (simp only: cf_add.simps cf_of.simps ref_rocks_sel simp_thms)
next
  fix C ok p h ops t and e :: rocks_heap
  assume a: "rk_cfam C ok p h e"
    "\<And>op. op \<in> set ops \<Longrightarrow> cf_plain op \<and> (\<exists>C ok h. rk_cfam C ok p h e \<and> rd_GetID ref_rocks h e = cf_of op \<and> key_ok ok (cf_key op))"
  obtain fs where d: "rk_dbs e p = Some fs" using a(1) by (auto simp: rk_cfam_def)
  have "\<And>op. op \<in> set ops \<Longrightarrow> cf_plain op \<and> unat (cf_of op) < length fs" using a(2) rk_id_less d by fastforce
  then obtain s e' where "fam_write p (cf_batch t (cf_count ops) ops) e = Some (s, e')" "rstatus_ok s"
      "rocks_after ref_rocks rk_cfam rk_content p (snd (cf_replay cf_map_handler ops (\<lambda>cf. rk_content p cf e))) e e'"
    using fam_write_ops [where ops = ops and t = t, OF d] by blast
  then show "\<exists>s t' e'. rd_Write ref_rocks p (cf_batch t (cf_count ops) ops) e = Some (s, cf_batch t' (cf_count ops) ops, e') \<and>
        rocks_after ref_rocks rk_cfam rk_content p (if rstatus_ok s then snd (cf_replay cf_map_handler ops (\<lambda>cf. rk_content p cf e)) else (\<lambda>cf. rk_content p cf e)) e e'"
    by (intro exI [of _ s] exI [of _ t] exI [of _ e']) simp
next
  fix C ok p h i and e e' :: rocks_heap
  assume "rk_cfam C ok p h e" "rd_NewIterator ref_rocks p h e = (i, e')"
  then show "(\<exists>xs. rk_irep C ok i p xs (length xs) e') \<and> rocks_after ref_rocks rk_cfam rk_content p (\<lambda>cf. rk_content p cf e) e e'"
    by (auto simp: ref_rocks_def rk_cfam_def rk_irep_def rocks_after_def rk_id_def rk_content_def rk_entries_def)
qed

section \<open>The handlers on a RocksDB that keeps its contract\<close>

text \<open>The object at \<open>this\<close> is an initialised database on a column family of its own key class.\<close>

definition rocks_at :: "(comparator \<Rightarrow> (bytes \<Rightarrow> bool) \<Rightarrow> ptr \<Rightarrow> ptr \<Rightarrow> 'e \<Rightarrow> bool) \<Rightarrow> 'e rocks_world \<Rightarrow> nat \<Rightarrow> rocks_db \<Rightarrow> bool" where
  "rocks_at cfam w this dw \<longleftrightarrow>
     rw_dbs w this = Some dw \<and> cfam (lvl_comparator (ro_K dw)) (lvl_keys (ro_K dw)) (ro_db dw) (ro_cf dw) (rw_e w)"

text \<open>A call of put or del with a batch argument, through one of several databases.\<close>

fun rocks_call_do :: "'e rdb \<Rightarrow> v8 \<Rightarrow> nat \<Rightarrow> nat \<times> batch_call \<Rightarrow> 'e rocks_world \<Rightarrow> outcome \<times> 'e rocks_world" where
  "rocks_call_do RD V a (this, CallPut k v) w = rocks_put RD V this k v (JObject a) w"
| "rocks_call_do RD V a (this, CallDel k) w = rocks_del RD V this k (JObject a) w"

text \<open>The operation a call adds to the batch.\<close>

fun rocks_call_op :: "'e rdb \<Rightarrow> v8 \<Rightarrow> 'e rocks_world \<Rightarrow> nat \<times> batch_call \<Rightarrow> cf_op option" where
  "rocks_call_op RD V w (this, CallPut k v) =
     (case rw_dbs w this of None \<Rightarrow> None | Some dw \<Rightarrow>
        (case (kv_encode (ro_K dw) V k, kv_encode (ro_V dw) V v) of
           (Some kb, Some vb) \<Rightarrow> Some (CfPut (GetColumnFamilyID RD (ro_cf dw) (rw_e w)) kb vb) | _ \<Rightarrow> None))"
| "rocks_call_op RD V w (this, CallDel k) =
     (case rw_dbs w this of None \<Rightarrow> None | Some dw \<Rightarrow>
        map_option (CfDelete (GetColumnFamilyID RD (ro_cf dw) (rw_e w))) (kv_encode (ro_K dw) V k))"

lemma rocks_call_cong:
  "rw_dbs w' = rw_dbs w \<Longrightarrow> rw_e w' = rw_e w \<Longrightarrow> rocks_call_op RD V w' c = rocks_call_op RD V w c"
  by (cases c; cases "snd c") (auto split: option.splits)

lemma rocks_call_appends:
  assumes "rw_batches w a = Some (cf_batch t n ops)" and "rocks_call_op RD V w c = Some op" and "cf_plain op"
  shows "rocks_call_do RD V a c w = (Return JUndefined, w\<lparr>rw_batches := (rw_batches w)(a \<mapsto> cf_batch t (n + 1) (ops @ [op]))\<rparr>)"
  using assms cf_add_batch [OF plain_small [OF assms(3)], of t n ops]
  by (cases c; cases "snd c") (auto simp: rocks_put_def rocks_del_def split: option.splits)

lemma rocks_calls_append:
  assumes "rw_batches w a = Some (cf_batch t n ops)" and "those (map (rocks_call_op RD V w) cs) = Some new" and "list_all cf_plain new"
  shows "fold (\<lambda>c w. snd (rocks_call_do RD V a c w)) cs w = w\<lparr>rw_batches := (rw_batches w)(a \<mapsto> cf_batch t (n + cf_count new) (ops @ new))\<rparr>"
  using assms
proof (induction cs arbitrary: w ops n new)
  case Nil
  then show ?case by (simp add: fun_upd_idem cf_count_def)
next
  case (Cons c cs)
  then obtain op new' where o: "rocks_call_op RD V w c = Some op" "those (map (rocks_call_op RD V w) cs) = Some new'" "new = op # new'"
    by (auto split: option.splits)
  have p: "cf_plain op" "list_all cf_plain new'" using Cons.prems(3) o(3) by simp_all
  have cnt: "cf_counts op" using p(1) by (cases op) simp_all
  let ?w = "w\<lparr>rw_batches := (rw_batches w)(a \<mapsto> cf_batch t (n + 1) (ops @ [op]))\<rparr>"
  have m: "map (rocks_call_op RD V ?w) cs = map (rocks_call_op RD V w) cs" by (rule map_cong [OF refl]) (rule rocks_call_cong, simp_all)
  have "those (map (rocks_call_op RD V ?w) cs) = Some new'" by (simp only: m o(2))
  from Cons.IH [OF _ this p(2), of "n + 1" "ops @ [op]"] rocks_call_appends [OF Cons.prems(1) o(1) p(1)] o(3) cnt
  show ?case by (simp add: cf_count_def algebra_simps cong: if_cong)
qed

lemma those_SomeD: "those (map f cs) = Some ops \<Longrightarrow> op \<in> set ops \<Longrightarrow> \<exists>c \<in> set cs. f c = Some op"
  by (induction cs arbitrary: ops) (auto split: option.splits)

context rdb_laws
begin

lemma rocks_get_at:
  assumes d: "rocks_at cfam w this dw" and k: "kv_encode (ro_K dw) V karg = Some key" "length key + 8 < 2 ^ 32"
  obtains s v e' where "rocks_get RD V g this karg w =
      (if rstatus_ok s then (case kv_decode (ro_V dw) g (v @ [0]) (length v) of None \<Rightarrow> Undef | Some j \<Rightarrow> Return j) else rstatus_error s,
       w\<lparr>rw_e := e'\<rparr>)"
    and "rstatus_ok s \<longrightarrow> content (ro_db dw) (rd_GetID RD (ro_cf dw) (rw_e w)) (rw_e w) key = Some v"
    and "RIsNotFound s \<longrightarrow> content (ro_db dw) (rd_GetID RD (ro_cf dw) (rw_e w)) (rw_e w) key = None"
proof -
  have l: "rw_dbs w this = Some dw" "cfam (lvl_comparator (ro_K dw)) (lvl_keys (ro_K dw)) (ro_db dw) (ro_cf dw) (rw_e w)"
    using d by (simp_all add: rocks_at_def)
  from get_key [OF l(2) encoded_key [OF k]] obtain s v e' where
    "rd_Get RD (ro_db dw) (ro_cf dw) key (rw_e w) = Some (s, v, e')"
    "rstatus_ok s \<longrightarrow> content (ro_db dw) (rd_GetID RD (ro_cf dw) (rw_e w)) (rw_e w) key = Some v"
    "RIsNotFound s \<longrightarrow> content (ro_db dw) (rd_GetID RD (ro_cf dw) (rw_e w)) (rw_e w) key = None" by blast
  then show ?thesis using that [of s v e'] l(1) k(1) family [OF l(2)] by (simp add: rocks_get_def Let_def)
qed

lemma rocks_put_at:
  assumes d: "rocks_at cfam w this dw" and k: "kv_encode (ro_K dw) V karg = Some key" "length key + 8 < 2 ^ 32"
    and v: "kv_encode (ro_V dw) V varg = Some val" "length val < 2 ^ 32" and b: "\<not> IsObject barg"
  obtains s e' where "rocks_put RD V this karg varg barg w = (if rstatus_ok s then Return JUndefined else rstatus_error s, w\<lparr>rw_e := e'\<rparr>)"
    and "rocks_after RD cfam content (ro_db dw) (if rstatus_ok s
       then snd (cf_handle cf_map_handler (CfPut (rd_GetID RD (ro_cf dw) (rw_e w)) key val) (\<lambda>cf. content (ro_db dw) cf (rw_e w)))
       else (\<lambda>cf. content (ro_db dw) cf (rw_e w))) (rw_e w) e'"
proof -
  have l: "rw_dbs w this = Some dw" "cfam (lvl_comparator (ro_K dw)) (lvl_keys (ro_K dw)) (ro_db dw) (ro_cf dw) (rw_e w)"
    using d by (simp_all add: rocks_at_def)
  from put_key [OF l(2) encoded_key [OF k] v(2)] obtain s e' where
    "rd_Put RD (ro_db dw) (ro_cf dw) key val (rw_e w) = Some (s, e')"
    "rocks_after RD cfam content (ro_db dw) (if rstatus_ok s
       then snd (cf_handle cf_map_handler (CfPut (rd_GetID RD (ro_cf dw) (rw_e w)) key val) (\<lambda>cf. content (ro_db dw) cf (rw_e w)))
       else (\<lambda>cf. content (ro_db dw) cf (rw_e w))) (rw_e w) e'" by blast
  then show ?thesis using that [of s e'] l(1) k(1) v(1) b family [OF l(2)] by (simp add: rocks_put_def)
qed

lemma after_at: "rocks_after RD cfam content p c (rw_e w) e' \<Longrightarrow> rocks_at cfam w this dw \<Longrightarrow> rocks_at cfam (w\<lparr>rw_e := e'\<rparr>) this dw"
  by (auto simp: rocks_after_def rocks_at_def)

end

section \<open>Registering databases\<close>

text \<open>The object at \<open>this\<close> is a database that is registered with the environment at \<open>a\<close>.\<close>

definition registered :: "'e rocks_world \<Rightarrow> nat \<Rightarrow> nat \<Rightarrow> rocks_db \<Rightarrow> bool" where
  "registered w a this dw \<longleftrightarrow> rw_dbs w this = Some dw \<and>
     (\<exists>ew. rw_envs w a = Some ew \<and> 0 < ro_cfidx dw \<and> ro_cfidx dw < length (re_desc ew) \<and> snd (re_desc ew ! ro_cfidx dw) = lvl_comparator (ro_K dw))"

definition rocks_ctors :: "v8 \<Rightarrow> nat \<Rightarrow> (nat \<times> kv_type \<times> kv_type \<times> js) list \<Rightarrow> 'e rocks_world \<Rightarrow> 'e rocks_world" where
  "rocks_ctors V a regs w = fold (\<lambda>(this, K, T, n) w. snd (rocks_ctor V K T this (JObject a) n w)) regs w"

lemma rocks_ctor_env:
  assumes "rw_envs w a = Some ew"
  shows "rocks_ctor V K T this (JObject a) n w = (Return (JObject this),
    w\<lparr>rw_envs := (rw_envs w)(a \<mapsto> ew\<lparr>re_desc := re_desc ew @ [(c_str (ToString V n), lvl_comparator K)]\<rparr>),
      rw_dbs := (rw_dbs w)(this \<mapsto> \<lparr>ro_K = K, ro_V = T, ro_cfidx = length (re_desc ew), ro_db = 0, ro_cf = 0\<rparr>)\<rparr>)"
  using assms by (simp add: rocks_ctor_def register_db_def)

lemma ctor_keeps:
  assumes "registered w a this dw" and "this' \<noteq> this" and "rw_envs w a = Some ew"
  shows "registered (snd (rocks_ctor V K T this' (JObject a) n w)) a this dw"
  using assms by (auto simp: registered_def rocks_ctor_env nth_append)

lemma ctors_keep:
  assumes "registered w a this dw" and "this \<notin> fst ` set regs"
  shows "registered (rocks_ctors V a regs w) a this dw"
  using assms
proof (induction regs arbitrary: w)
  case Nil
  then show ?case by (simp add: rocks_ctors_def)
next
  case (Cons r regs)
  obtain this' K T n where r: "r = (this', K, T, n)" by (cases r)
  obtain ew where "rw_envs w a = Some ew" using Cons.prems(1) by (auto simp: registered_def)
  from ctor_keeps [OF Cons.prems(1) _ this, of this' V K T n] Cons.prems(2) r
  have "registered (snd (rocks_ctor V K T this' (JObject a) n w)) a this dw" by auto
  from Cons.IH [OF this] Cons.prems(2) r show ?case by (simp add: rocks_ctors_def)
qed

lemma ctors_register:
  assumes "rw_envs w a = Some ew" and "re_desc ew \<noteq> []" and "distinct (map fst regs)" and "i < length regs" and "regs ! i = (this, K, T, n)"
  shows "\<exists>dw. registered (rocks_ctors V a regs w) a this dw \<and> ro_K dw = K \<and> ro_V dw = T \<and> ro_cfidx dw = length (re_desc ew) + i"
  using assms
proof (induction regs arbitrary: w ew i)
  case (Cons r regs)
  obtain this' K' T' n' where r: "r = (this', K', T', n')" by (cases r)
  let ?w = "snd (rocks_ctor V K' T' this' (JObject a) n' w)"
  let ?ew = "ew\<lparr>re_desc := re_desc ew @ [(c_str (ToString V n'), lvl_comparator K')]\<rparr>"
  let ?dw = "\<lparr>ro_K = K', ro_V = T', ro_cfidx = length (re_desc ew), ro_db = 0, ro_cf = 0\<rparr>"
  have e: "rw_envs ?w a = Some ?ew" and d: "registered ?w a this' ?dw"
    using Cons.prems(1,2) by (simp_all add: rocks_ctor_env registered_def)
  show ?case
  proof (cases i)
    case 0
    then show ?thesis using ctors_keep [OF d, of regs V] Cons.prems(3,5) r by (auto simp: rocks_ctors_def)
  next
    case (Suc j)
    from Cons.IH [OF e _ _ _, of j] Cons.prems(3-5) r Suc show ?thesis by (auto simp: rocks_ctors_def)
  qed
qed simp

lemma ctors_env:
  "rw_envs w a = Some ew \<Longrightarrow> \<exists>ew'. rw_envs (rocks_ctors V a regs w) a = Some ew' \<and> length (re_desc ew') = length (re_desc ew) + length regs"
proof (induction regs arbitrary: w ew)
  case (Cons r regs)
  obtain this' K' T' n' where r: "r = (this', K', T', n')" by (cases r)
  from Cons.IH [of "snd (rocks_ctor V K' T' this' (JObject a) n' w)"] Cons.prems r show ?case
    by (simp add: rocks_ctors_def rocks_ctor_env)
qed (simp add: rocks_ctors_def)

section \<open>A reference world\<close>

text \<open>One environment with two databases, object 14 of strings and object 15 of numbers, and one batch, object 16.\<close>

definition rocks_ref_heap :: rocks_heap where
  "rocks_ref_heap =
     \<lparr>rk_dbs = [11 \<mapsto> [(kDefaultColumnFamilyName, BytewiseComparator, []), ([97], BytewiseComparator, []), ([98], number_comparator Int32, [])]],
      rk_cfs = [12 \<mapsto> (11, 0), 13 \<mapsto> (11, 1), 14 \<mapsto> (11, 2)], rk_iters = Map.empty, rk_next = 14\<rparr>"

definition rocks_ref_db :: "kv_type \<Rightarrow> nat \<Rightarrow> rocks_db" where
  "rocks_ref_db K i = \<lparr>ro_K = K, ro_V = String, ro_cfidx = i, ro_db = 11, ro_cf = 12 + i\<rparr>"

definition rocks_ref_world :: "rocks_heap rocks_world" where
  "rocks_ref_world =
     \<lparr>rw_e = rocks_ref_heap, rw_envs = Map.empty,
      rw_dbs = [14 \<mapsto> rocks_ref_db String 1, 15 \<mapsto> rocks_ref_db (Number Int32) 2], rw_batches = [16 \<mapsto> rocks_Clear], rw_cursors = Map.empty\<rparr>"

lemma rocks_ref_at: "rocks_at rk_cfam rocks_ref_world 14 (rocks_ref_db String 1)" "rocks_at rk_cfam rocks_ref_world 15 (rocks_ref_db (Number Int32) 2)"
  by (simp_all add: rocks_at_def rocks_ref_world_def rocks_ref_db_def rk_cfam_def rocks_ref_heap_def)

section \<open>Properties\<close>

text \<open>C32.  On a RocksDB that keeps its contract, a get of a key that follows a put of it on the same column family returns the
  value that was put, or throws an error that is not about a missing key; if the put throws, no column family has changed.\<close>

theorem rocks_put_get:
  assumes "rdb_laws RD irep cfam content" and "rocks_at cfam w this dw"
    and "kv_encode (ro_K dw) V karg = Some key" and "length key + 8 < 2 ^ 32"
    and "kv_encode (ro_V dw) V varg = Some val" and "length val < 2 ^ 32" and "\<not> IsObject barg"
    and "kv_canonical (ro_V dw) varg" and "length (g 1025) = 1025"
  shows "\<exists>o1 w1 o2 w2. rocks_put RD V this karg varg barg w = (o1, w1) \<and> rocks_get RD V g this karg w1 = (o2, w2) \<and>
    (o1 = Return JUndefined \<and> o2 = Return varg \<or>
     o1 = Return JUndefined \<and> (\<exists>s. \<not> rstatus_ok s \<and> \<not> RIsNotFound s \<and> o2 = rstatus_error s) \<or>
     (\<exists>s. \<not> rstatus_ok s \<and> o1 = rstatus_error s \<and>
       rocks_after RD cfam content (ro_db dw) (\<lambda>cf. content (ro_db dw) cf (rw_e w)) (rw_e w) (rw_e w1)))"
proof (rule rdb_laws.rocks_put_at [OF assms(1-7)])
  fix s e'
  let ?id = "rd_GetID RD (ro_cf dw) (rw_e w)" and ?w1 = "w\<lparr>rw_e := e'\<rparr>"
  assume p: "rocks_put RD V this karg varg barg w = (if rstatus_ok s then Return JUndefined else rstatus_error s, ?w1)"
    and a: "rocks_after RD cfam content (ro_db dw) (if rstatus_ok s
       then snd (cf_handle cf_map_handler (CfPut ?id key val) (\<lambda>cf. content (ro_db dw) cf (rw_e w)))
       else (\<lambda>cf. content (ro_db dw) cf (rw_e w))) (rw_e w) e'"
  have at: "rocks_at cfam ?w1 this dw" by (rule rdb_laws.after_at [OF assms(1) a assms(2)])
  obtain s2 v2 e2 where q: "rocks_get RD V g this karg ?w1 =
      (if rstatus_ok s2 then (case kv_decode (ro_V dw) g (v2 @ [0]) (length v2) of None \<Rightarrow> Undef | Some j \<Rightarrow> Return j) else rstatus_error s2,
       ?w1\<lparr>rw_e := e2\<rparr>)"
      "rstatus_ok s2 \<longrightarrow> content (ro_db dw) (rd_GetID RD (ro_cf dw) e') e' key = Some v2"
      "RIsNotFound s2 \<longrightarrow> content (ro_db dw) (rd_GetID RD (ro_cf dw) e') e' key = None"
    by (rule rdb_laws.rocks_get_at [OF assms(1) at assms(3,4), where g = g]) (auto intro: that)
  show ?thesis
  proof (cases "rstatus_ok s")
    case True
    have "content (ro_db dw) (rd_GetID RD (ro_cf dw) e') e' key = Some val"
      using a True assms(2) encoded_key [OF assms(3,4)] by (auto simp: rocks_after_def rocks_at_def cf_map_handler_def)
    then show ?thesis
      using p q True kv_roundtrip_lemma [where g = g, OF assms(8,5,9), of "[0]"] by (cases "rstatus_ok s2") auto
  next
    case False
    obtain o2 w2 where "rocks_get RD V g this karg ?w1 = (o2, w2)" by (metis prod.exhaust)
    then show ?thesis using p a False by auto
  qed
qed

theorem rocks_put_get_witness:
  "\<exists>o1 w1 o2 w2. rocks_put ref_rocks ref_v8 15 (JNumber 7) (JString [98]) JUndefined rocks_ref_world = (o1, w1) \<and>
    rocks_get ref_rocks ref_v8 (\<lambda>n. replicate n 0) 15 (JNumber 7) w1 = (o2, w2) \<and>
    (o1 = Return JUndefined \<longrightarrow> o2 = Return (JString [98]) \<or> (\<exists>s. \<not> RIsNotFound s \<and> o2 = rstatus_error s))"
proof -
  have e: "kv_encode (Number Int32) ref_v8 (JNumber 7) = Some [7, 0, 0, 0]" "kv_encode String ref_v8 (JString [98]) = Some [98, 0]" by code_simp+
  have h: "kv_canonical String (JString [98])" "length [7 :: 8 word, 0, 0, 0] + 8 < 2 ^ 32" "length [98 :: 8 word, 0] < 2 ^ 32" by simp_all
  have "\<not> IsObject JUndefined" "length (replicate 1025 (0 :: 8 word)) = 1025" by simp_all
  from rocks_put_get [where g = "\<lambda>n. replicate n 0", OF rocks_ref.rdb_laws_axioms rocks_ref_at(2), unfolded rocks_ref_db_def rocks_db.select_convs,
      OF e(1) h(2) e(2) h(3) this(1) h(1) this(2)]
  show ?thesis by (fastforce simp: rstatus_error_def)
qed

text \<open>C33.  A batch is atomic over all column families of an environment: whatever puts and deletes are collected in it, through
  any of the databases of the environment, its write through one of them changes the contents of every column family by exactly its
  operations, in the order of the calls, or changes nothing; collecting them changes nothing but the batch.\<close>

theorem rocks_batch_atomic:
  assumes laws: "rdb_laws RD irep cfam content" and d: "rocks_at cfam w this dw" and b: "rw_batches w a = Some rocks_Clear"
    and objs: "\<forall>t \<in> fst ` set cs. \<exists>dw'. rocks_at cfam w t dw' \<and> ro_db dw' = ro_db dw"
    and ops: "those (map (rocks_call_op RD V w) cs) = Some ops" and small: "list_all (\<lambda>op. cf_plain op \<and> length (cf_key op) + 8 < 2 ^ 32) ops"
  shows "\<exists>s w1 o2 w2. fold (\<lambda>c w. snd (rocks_call_do RD V a c w)) cs w = w1 \<and> rw_e w1 = rw_e w \<and>
    rocks_write RD this (JObject a) w1 = (o2, w2) \<and> o2 = (if rstatus_ok s then Return JUndefined else rstatus_error s) \<and>
    rocks_after RD cfam content (ro_db dw) (if rstatus_ok s then snd (cf_replay cf_map_handler ops (\<lambda>cf. content (ro_db dw) cf (rw_e w)))
      else (\<lambda>cf. content (ro_db dw) cf (rw_e w))) (rw_e w) (rw_e w2)"
proof -
  let ?w1 = "w\<lparr>rw_batches := (rw_batches w)(a \<mapsto> cf_batch 0 (cf_count ops) ops)\<rparr>"
  have "list_all cf_plain ops" using small by (auto simp: list_all_iff)
  from rocks_calls_append [OF _ ops this, of a 0 0 "[]"] b
  have f: "fold (\<lambda>c w. snd (rocks_call_do RD V a c w)) cs w = ?w1" by (simp add: rocks_Clear_batch)
  have l: "rw_dbs w this = Some dw" "cfam (lvl_comparator (ro_K dw)) (lvl_keys (ro_K dw)) (ro_db dw) (ro_cf dw) (rw_e w)"
    using d by (simp_all add: rocks_at_def)
  have legal: "cf_plain op \<and> (\<exists>C ok h. cfam C ok (ro_db dw) h (rw_e w) \<and> rd_GetID RD h (rw_e w) = cf_of op \<and> key_ok ok (cf_key op))" if op: "op \<in> set ops" for op
  proof -
    obtain t c where c: "(t, c) \<in> set cs" "rocks_call_op RD V w (t, c) = Some op" using those_SomeD [OF ops op] by auto
    obtain dw' where dw: "rocks_at cfam w t dw'" "ro_db dw' = ro_db dw" using objs c(1) by force
    have "ro_cf dw' \<noteq> 0" using rdb_laws.family [OF laws] dw(1) unfolding rocks_at_def by blast
    then have "GetColumnFamilyID RD (ro_cf dw') (rw_e w) = rd_GetID RD (ro_cf dw') (rw_e w)" by (simp add: GetColumnFamilyID_def)
    then have "rd_GetID RD (ro_cf dw') (rw_e w) = cf_of op \<and> (\<exists>v. kv_encode (ro_K dw') V v = Some (cf_key op))"
      using c(2) dw(1) by (cases c) (auto simp: rocks_at_def split: option.splits)
    then show ?thesis using dw small op encoded_key by (fastforce simp: rocks_at_def list_all_iff)
  qed
  obtain s t' e' where "rd_Write RD (ro_db dw) (cf_batch 0 (cf_count ops) ops) (rw_e w) = Some (s, cf_batch t' (cf_count ops) ops, e')"
      "rocks_after RD cfam content (ro_db dw) (if rstatus_ok s then snd (cf_replay cf_map_handler ops (\<lambda>cf. content (ro_db dw) cf (rw_e w)))
        else (\<lambda>cf. content (ro_db dw) cf (rw_e w))) (rw_e w) e'"
    using rdb_laws.write_batch [where t = 0 and ops = ops, OF laws l(2) legal] by blast
  then show ?thesis using f l(1) rdb_laws.family [OF laws l(2)]
    by (intro exI [of _ s] exI [of _ ?w1] exI conjI) (auto simp: rocks_write_def)
qed

theorem rocks_batch_atomic_witness:
  "\<exists>w1 o2 w2.
    fold (\<lambda>c w. snd (rocks_call_do ref_rocks ref_v8 16 c w))
      [(14, CallPut (JString [97]) (JString [98])), (15, CallPut (JNumber 7) (JString [99])), (14, CallDel (JString [97]))] rocks_ref_world = w1 \<and>
    rocks_write ref_rocks 15 (JObject 16) w1 = (o2, w2) \<and>
    (o2 = Return JUndefined \<longrightarrow> rk_content 11 1 (rw_e w2) [97, 0] = None \<and> rk_content 11 2 (rw_e w2) [7, 0, 0, 0] = Some [99, 0])"
proof -
  let ?cs = "[(14 :: nat, CallPut (JString [97]) (JString [98])), (15, CallPut (JNumber 7) (JString [99])), (14, CallDel (JString [97]))]"
  let ?ops = "[CfPut 1 [97, 0] [98, 0], CfPut 2 [7, 0, 0, 0] [99, 0], CfDelete 1 [97, 0]]"
  have o: "\<forall>t \<in> fst ` set ?cs. \<exists>dw'. rocks_at rk_cfam rocks_ref_world t dw' \<and> ro_db dw' = ro_db (rocks_ref_db (Number Int32) 2)"
    using rocks_ref_at by (auto simp: rocks_ref_db_def)
  have "kv_encode (Number Int32) ref_v8 (JNumber 7) = Some [7, 0, 0, 0]" "kv_encode String ref_v8 (JString [97]) = Some [97, 0]"
    "kv_encode String ref_v8 (JString [98]) = Some [98, 0]" "kv_encode String ref_v8 (JString [99]) = Some [99, 0]" by code_simp+
  note enc = this
  have id: "rk_id 13 rocks_ref_heap = 1" "rk_id 14 rocks_ref_heap = 2" by (simp_all add: rk_id_def rocks_ref_heap_def)
  have c: "those (map (rocks_call_op ref_rocks ref_v8 rocks_ref_world) ?cs) = Some ?ops"
    by (simp add: rocks_ref_world_def rocks_ref_db_def GetColumnFamilyID_def enc id del: kv_encode.simps)
  have b: "rw_batches rocks_ref_world 16 = Some rocks_Clear" by (simp add: rocks_ref_world_def)
  have sm: "list_all (\<lambda>op. cf_plain op \<and> length (cf_key op) + 8 < 2 ^ 32) ?ops" by simp
  have r: "ro_db (rocks_ref_db (Number Int32) 2) = 11" "rw_e rocks_ref_world = rocks_ref_heap" by (simp_all add: rocks_ref_db_def rocks_ref_world_def)
  from rocks_batch_atomic [OF rocks_ref.rdb_laws_axioms rocks_ref_at(2) b o c sm, unfolded r]
  obtain s w1 o2 w2 where w: "fold (\<lambda>c w. snd (rocks_call_do ref_rocks ref_v8 16 c w)) ?cs rocks_ref_world = w1"
     "rocks_write ref_rocks 15 (JObject 16) w1 = (o2, w2)" "o2 = (if rstatus_ok s then Return JUndefined else rstatus_error s)"
     "rocks_after ref_rocks rk_cfam rk_content 11 (if rstatus_ok s then snd (cf_replay cf_map_handler ?ops (\<lambda>cf. rk_content 11 cf rocks_ref_heap))
      else (\<lambda>cf. rk_content 11 cf rocks_ref_heap)) rocks_ref_heap (rw_e w2)"
    by blast
  have k: "rk_cfam BytewiseComparator (\<lambda>_. True) 11 13 rocks_ref_heap" "rk_cfam (number_comparator Int32) (\<lambda>_. True) 11 14 rocks_ref_heap"
    by (simp_all add: rk_cfam_def rocks_ref_heap_def)
  have "rk_content 11 1 (rw_e w2) [97, 0] = None \<and> rk_content 11 2 (rw_e w2) [7, 0, 0, 0] = Some [99, 0]" if "o2 = Return JUndefined"
  proof -
    have ok: "rstatus_ok s" using w(3) that by (auto simp: rstatus_error_def split: if_splits)
    have "(\<forall>x. key_ok (\<lambda>_. True) x \<longrightarrow> rk_content 11 cf (rw_e w2) x = snd (cf_replay cf_map_handler ?ops (\<lambda>cf. rk_content 11 cf rocks_ref_heap)) cf x)"
      if "rk_cfam C (\<lambda>_. True) 11 h rocks_ref_heap" "rk_id h rocks_ref_heap = cf" for C h cf
      using w(4) ok that unfolding rocks_after_def by auto
    from this [OF k(1) id(1)] this [OF k(2) id(2)] show ?thesis by (simp add: key_ok_def cf_map_handler_def)
  qed
  then show ?thesis using w(1,2) by blast
qed

text \<open>C36.  Before \<^verbatim>\<open>init\<close> a database is not bound to its column family: a get, and a put or del without a batch, run into undefined behaviour, while a put or del
  with a batch puts its operation down for the default column family instead of that of the database.\<close>

theorem rocks_uninitialised:
  assumes "rw_envs w e = Some ew" and "rw_batches w a = Some b"
    and "kv_encode K V karg = Some key" and "kv_encode T V varg = Some val" and "\<not> IsObject barg"
  shows "\<exists>w'. rocks_ctor V K T this (JObject e) narg w = (Return (JObject this), w') \<and>
    rocks_get RD V g this karg w' = (Undef, w') \<and> rocks_put RD V this karg varg barg w' = (Undef, w') \<and> rocks_del RD V this karg barg w' = (Undef, w') \<and>
    rocks_put RD V this karg varg (JObject a) w' = (Return JUndefined, w'\<lparr>rw_batches := (rw_batches w)(a \<mapsto> rocks_Put b 0 key val)\<rparr>) \<and>
    rocks_del RD V this karg (JObject a) w' = (Return JUndefined, w'\<lparr>rw_batches := (rw_batches w)(a \<mapsto> rocks_Delete b 0 key)\<rparr>)"
  using assms by (simp add: rocks_ctor_env rocks_get_def rocks_put_def rocks_del_def GetColumnFamilyID_def)

theorem rocks_uninitialised_witness:
  "\<exists>w'. rocks_ctor ref_v8 (Number Int32) String 18 (JObject 17) (JString [97]) (rocks_ref_world\<lparr>rw_envs := [17 \<mapsto> rocks_env_new]\<rparr>) = (Return (JObject 18), w') \<and>
    rocks_put ref_rocks ref_v8 18 (JNumber 7) (JString [98]) (JObject 16) w' =
      (Return JUndefined, w'\<lparr>rw_batches := [16 \<mapsto> rocks_Put rocks_Clear 0 [7, 0, 0, 0] [98, 0]]\<rparr>)"
proof -
  have "kv_encode (Number Int32) ref_v8 (JNumber 7) = Some [7, 0, 0, 0]" "kv_encode String ref_v8 (JString [98]) = Some [98, 0]" by code_simp+
  from rocks_uninitialised [OF _ _ this, of "rocks_ref_world\<lparr>rw_envs := [17 \<mapsto> rocks_env_new]\<rparr>" 17 rocks_env_new 16 rocks_Clear JNull 18 "JString [97]" ref_rocks "\<lambda>_. []"]
  show ?thesis by (auto simp: rocks_ref_world_def)
qed



text \<open>C35.  A database that is registered after its environment has been opened has an index beyond the handles of the environment, so initialising it
  reads out of bounds.\<close>

theorem rocks_late_database:
  assumes "rdb_laws RD irep cfam content" and "rw_envs w a = Some ew"
    and "rocks_env_open RD V a parg barg w = (Return JUndefined, w1)"
  shows "\<exists>w2. rocks_ctor V K T this (JObject a) narg w1 = (Return (JObject this), w2) \<and> rocks_init this (JObject a) w2 = (Undef, w2)"
proof -
  obtain s hs p e where o: "rd_Open RD (c_str (ToString V parg)) (re_desc ew) (re_handles ew) (rw_e w) = (s, hs, p, e)" by (metis prod_cases4)
  have w1: "rstatus_ok s" "rw_envs w1 a = Some (ew\<lparr>re_handles := hs, re_db := p\<rparr>)"
    using assms(2,3) o by (auto simp: rocks_env_open_def rstatus_error_def Let_def split: if_splits)
  have "length hs = length (re_desc ew)" using rdb_laws.open_db [OF assms(1) o w1(1)] by simp
  then show ?thesis using rocks_ctor_env [OF w1(2), of V K T this narg] by (simp add: rocks_init_def)
qed

theorem rocks_late_database_witness:
  "\<exists>w1 w2. rocks_env_open ref_rocks ref_v8 17 (JString [100]) JUndefined (rocks_ref_world\<lparr>rw_envs := [17 \<mapsto> rocks_env_new]\<rparr>) = (Return JUndefined, w1) \<and>
    rocks_ctor ref_v8 String String 18 (JObject 17) (JString [97]) w1 = (Return (JObject 18), w2) \<and> rocks_init 18 (JObject 17) w2 = (Undef, w2)"
proof -
  obtain w1 where o: "rocks_env_open ref_rocks ref_v8 17 (JString [100]) JUndefined (rocks_ref_world\<lparr>rw_envs := [17 \<mapsto> rocks_env_new]\<rparr>) = (Return JUndefined, w1)"
    by (simp add: rocks_env_open_def ref_rocks_def rocks_env_new_def)
  from rocks_late_database [OF rocks_ref.rdb_laws_axioms _ this] show ?thesis using o by auto
qed

text \<open>The cursors of a world.\<close>

definition as_lvl_cursor :: "rocks_cursor \<Rightarrow> lvl_cursor" where
  "as_lvl_cursor cw = \<lparr>lc_K = rc_K cw, lc_V = rc_V cw, lc_cursor = rc_cursor cw\<rparr>"

definition as_lvl :: "'e rocks_world \<Rightarrow> 'e lvl_world" where
  "as_lvl w = \<lparr>lw_e = rw_e w, lw_dbs = Map.empty, lw_batches = rw_batches w, lw_cursors = map_option as_lvl_cursor \<circ> rw_cursors w\<rparr>"

lemma as_lvl_sel:
  "lw_e (as_lvl w) = rw_e w" "lw_cursors (as_lvl w) i = map_option as_lvl_cursor (rw_cursors w i)"
  "as_lvl (w\<lparr>rw_e := e\<rparr>) = (as_lvl w)\<lparr>lw_e := e\<rparr>"
  "as_lvl (w\<lparr>rw_e := e, rw_cursors := (rw_cursors w)(i := None)\<rparr>) = (as_lvl w)\<lparr>lw_e := e, lw_cursors := (lw_cursors (as_lvl w))(i := None)\<rparr>"
  by (auto simp: as_lvl_def fun_eq_iff)


end
