(* ===== verification/Kv_Exports.thy ===== *)
theory Kv_Exports
  imports Kv_Types
begin

text \<open>
  What the addon exports (\<^verbatim>\<open>src/src/node-binding.cpp\<close> and the
  \<^verbatim>\<open>setup_export\<close> functions of the three engines): the constructor templates with their
  prototype methods, one database and one cursor class for every pair of key and value types, and how the JavaScript
  layer under \<^verbatim>\<open>src/lib\<close> looks them up by name.
\<close>

section \<open>Templates\<close>

datatype kv_class = EnvClass | TxnClass | BatchClass | DbClass kv_type kv_type | CursorClass kv_type kv_type

text \<open>A function template: the C++ class whose \<^verbatim>\<open>ctor\<close> it calls, the number of internal
  fields, and the prototype methods with the member function each calls.\<close>

record function_template =
  ft_class :: kv_class
  ft_fields :: nat
  ft_methods :: "(string \<times> string) list"

type_synonym exports = "string \<rightharpoonup> function_template"

text \<open>\<^verbatim>\<open>sprintf\<close> into a buffer of \<open>cap\<close> characters, with the terminating
  zero: \<open>None\<close> when it overruns.\<close>

definition class_name :: "nat \<Rightarrow> string \<Rightarrow> kv_type \<Rightarrow> kv_type \<Rightarrow> string option" where
  "class_name cap prefix K V =
     (let s = prefix @ type_name K @ ''_'' @ type_name V in if length s + 1 \<le> cap then Some s else None)"

definition set_export :: "string \<Rightarrow> function_template \<Rightarrow> exports \<Rightarrow> exports" where
  "set_export n t ex = ex(n \<mapsto> t)"

text \<open>\<^verbatim>\<open>KV_TYPE_EACH\<close>: a setup function for each pair of types, the key type outermost.\<close>

definition kv_type_each :: "(kv_type \<Rightarrow> kv_type \<Rightarrow> exports \<Rightarrow> exports option) \<Rightarrow> exports \<Rightarrow> exports option" where
  "kv_type_each setup ex =
     fold (\<lambda>(K, V) r. Option.bind r (setup K V)) (List.product kv_types kv_types) (Some ex)"

definition setup_class :: "string \<Rightarrow> (kv_type \<Rightarrow> kv_type \<Rightarrow> kv_class) \<Rightarrow> (string \<times> string) list \<Rightarrow> kv_type \<Rightarrow> kv_type \<Rightarrow> exports \<Rightarrow> exports option" where
  "setup_class prefix cls methods K V ex =
     map_option (\<lambda>n. set_export n \<lparr>ft_class = cls K V, ft_fields = 1, ft_methods = methods\<rparr> ex) (class_name 64 prefix K V)"

section \<open>LMDB\<close>

definition lmdb_env_setup :: "exports \<Rightarrow> exports" where
  "lmdb_env_setup = set_export ''Env'' \<lparr>ft_class = EnvClass, ft_fields = 1,
     ft_methods = [(''setMapSize'', ''setMapSize''), (''setMaxDbs'', ''setMaxDbs''), (''open'', ''open''), (''close'', ''close''), (''sync'', ''sync'')]\<rparr>"

definition lmdb_txn_setup :: "exports \<Rightarrow> exports" where
  "lmdb_txn_setup = set_export ''Txn'' \<lparr>ft_class = TxnClass, ft_fields = 1,
     ft_methods = [(''commit'', ''commit''), (''abort'', ''abort''), (''reset'', ''reset''), (''renew'', ''renew'')]\<rparr>"

definition lmdb_db_methods :: "(string \<times> string) list" where
  "lmdb_db_methods =
     [(''close'', ''close''), (''get'', ''get''), (''put'', ''put''), (''del'', ''del''), (''exists'', ''exists'')]"

definition lmdb_db_setup :: "kv_type \<Rightarrow> kv_type \<Rightarrow> exports \<Rightarrow> exports option" where
  "lmdb_db_setup = setup_class ''DB_'' DbClass lmdb_db_methods"

definition lmdb_cursor_methods :: "(string \<times> string) list" where
  "lmdb_cursor_methods =
     [(''close'', ''close''), (''del'', ''del''), (''key'', ''key''), (''val'', ''value''), (''next'', ''next''), (''prev'', ''prev''),
      (''nextDup'', ''nextDup''), (''prevDup'', ''prevDup''), (''seek'', ''seek''), (''gte'', ''gte''), (''first'', ''first''), (''last'', ''last'')]"

definition lmdb_cursor_setup :: "kv_type \<Rightarrow> kv_type \<Rightarrow> exports \<Rightarrow> exports option" where
  "lmdb_cursor_setup = setup_class ''Cursor_'' CursorClass lmdb_cursor_methods"

definition lmdb_v8export :: "exports option" where
  "lmdb_v8export =
     Option.bind (kv_type_each lmdb_db_setup (lmdb_txn_setup (lmdb_env_setup Map.empty))) (kv_type_each lmdb_cursor_setup)"

section \<open>LevelDB\<close>

definition lvl_db_methods :: "(string \<times> string) list" where
  "lvl_db_methods =
     [(''get'', ''get''), (''put'', ''put''), (''del'', ''del''), (''write'', ''write'')]"

definition lvl_db_setup :: "kv_type \<Rightarrow> kv_type \<Rightarrow> exports \<Rightarrow> exports option" where
  "lvl_db_setup = setup_class ''DB_'' DbClass lvl_db_methods"

definition lvl_cursor_methods :: "(string \<times> string) list" where
  "lvl_cursor_methods =
     [(''key'', ''key''), (''val'', ''value''), (''next'', ''next''), (''prev'', ''prev''), (''first'', ''first''), (''last'', ''last''), (''gte'', ''gte'')]"

definition lvl_cursor_setup :: "kv_type \<Rightarrow> kv_type \<Rightarrow> exports \<Rightarrow> exports option" where
  "lvl_cursor_setup = setup_class ''Cursor_'' CursorClass lvl_cursor_methods"

definition lvl_batch_setup :: "exports \<Rightarrow> exports" where
  "lvl_batch_setup = set_export ''Batch'' \<lparr>ft_class = BatchClass, ft_fields = 1, ft_methods = [(''clear'', ''clear'')]\<rparr>"

definition lvl_v8export :: "exports option" where
  "lvl_v8export = map_option lvl_batch_setup (Option.bind (kv_type_each lvl_db_setup Map.empty) (kv_type_each lvl_cursor_setup))"

section \<open>RocksDB\<close>

definition rocks_env_setup :: "exports \<Rightarrow> exports" where
  "rocks_env_setup = set_export ''Env'' \<lparr>ft_class = EnvClass, ft_fields = 1, ft_methods = [(''open'', ''open'')]\<rparr>"

definition rocks_db_methods :: "(string \<times> string) list" where
  "rocks_db_methods =
     [(''init'', ''init''), (''get'', ''get''), (''put'', ''put''), (''del'', ''del''), (''write'', ''write'')]"

definition rocks_db_setup :: "kv_type \<Rightarrow> kv_type \<Rightarrow> exports \<Rightarrow> exports option" where
  "rocks_db_setup = setup_class ''DB_'' DbClass rocks_db_methods"

definition rocks_cursor_methods :: "(string \<times> string) list" where
  "rocks_cursor_methods =
     [(''key'', ''key''), (''val'', ''value''), (''next'', ''next''), (''prev'', ''prev''), (''first'', ''first''), (''last'', ''last''), (''gte'', ''gte'')]"

definition rocks_cursor_setup :: "kv_type \<Rightarrow> kv_type \<Rightarrow> exports \<Rightarrow> exports option" where
  "rocks_cursor_setup = setup_class ''Cursor_'' CursorClass rocks_cursor_methods"

definition rocks_batch_setup :: "exports \<Rightarrow> exports" where
  "rocks_batch_setup = set_export ''Batch'' \<lparr>ft_class = BatchClass, ft_fields = 1, ft_methods = [(''clear'', ''clear'')]\<rparr>"

definition rocks_v8export :: "exports option" where
  "rocks_v8export =
     map_option rocks_batch_setup
       (Option.bind (kv_type_each rocks_db_setup (rocks_env_setup Map.empty)) (kv_type_each rocks_cursor_setup))"

section \<open>The addon and its users\<close>

definition addon_init :: "(string \<times> exports option) list" where
  "addon_init = [(''lmdb'', lmdb_v8export), (''leveldb'', lvl_v8export), (''rocksdb'', rocks_v8export)]"

text \<open>\<^verbatim>\<open>binding[engine][[prefix, keyType, valType].join('_')]\<close>: what the constructors of
  databases and cursors in JavaScript look up, for whatever strings the options have.\<close>

definition js_lookup :: "string \<Rightarrow> string \<Rightarrow> string \<Rightarrow> string \<Rightarrow> function_template option" where
  "js_lookup engine prefix kt vt =
     Option.bind (Option.bind (map_of addon_init engine) id) (\<lambda>ex. ex (prefix @ ''_'' @ kt @ ''_'' @ vt))"

text \<open>The methods that the JavaScript classes call on the native objects.\<close>

definition js_db_methods :: "string \<Rightarrow> string list" where
  "js_db_methods engine =
     (if engine = ''lmdb'' then [''close'', ''get'', ''exists'', ''put'', ''del'']
      else if engine = ''leveldb'' then [''get'', ''put'', ''del'', ''write'']
      else [''init'', ''get'', ''put'', ''del'', ''write''])"

definition js_cursor_methods :: "string \<Rightarrow> string list" where
  "js_cursor_methods engine =
     (if engine = ''lmdb''
      then [''key'', ''val'', ''close'', ''del'', ''next'', ''prev'', ''nextDup'', ''prevDup'', ''first'', ''last'', ''firstDup'', ''lastDup'', ''seek'', ''gte'']
      else [''key'', ''val'', ''next'', ''prev'', ''first'', ''last'', ''gte''])"

section \<open>What the setup functions build\<close>

definition pair_name :: "string \<Rightarrow> kv_type \<times> kv_type \<Rightarrow> string" where
  "pair_name prefix p = prefix @ type_name (fst p) @ ''_'' @ type_name (snd p)"

lemma type_name_letters: "CHR ''_'' \<notin> set (type_name K)" and type_name_short: "length (type_name K) \<le> 6"
  by (cases K rule: type_name.cases; simp)+

lemma type_name_inj: "type_name K = type_name K' \<Longrightarrow> K = K'"
  by (cases K rule: type_name.cases; cases K' rule: type_name.cases) simp_all

lemma kv_types_all: "K \<in> set kv_types"
  by (cases K rule: type_name.cases) (simp_all add: kv_types_def)

lemma split_unique:
  assumes "a @ x # b = a' @ x # b'" and "x \<notin> set a'" and "x \<notin> set b'"
  shows "a = a' \<and> b = b'"
proof -
  have "x \<notin> set a"
  proof
    assume "x \<in> set a"
    then have "count_list a x \<noteq> 0" by (simp add: count_list_0_iff)
    then have "2 \<le> count_list (a @ x # b) x" by simp
    moreover have "count_list (a' @ x # b') x = 1" using assms(2,3) by (simp add: count_list_append)
    ultimately show False using assms(1) by simp
  qed
  then show ?thesis using assms by (metis append_Cons_eq_iff)
qed

lemma pair_name_inj: "pair_name prefix p = pair_name prefix q \<Longrightarrow> p = q"
  using split_unique [of "type_name (fst p)" "CHR ''_''" "type_name (snd p)" "type_name (fst q)" "type_name (snd q)"]
    type_name_letters type_name_inj by (auto simp: pair_name_def prod_eq_iff)

lemma class_name_fits: "length prefix \<le> 32 \<Longrightarrow> class_name 64 prefix K V = Some (pair_name prefix (K, V))"
  using type_name_short [of K] type_name_short [of V] by (simp add: class_name_def pair_name_def Let_def)

text \<open>All classes of one kind, over what was exported before.\<close>

definition class_exports :: "string \<Rightarrow> (kv_type \<Rightarrow> kv_type \<Rightarrow> kv_class) \<Rightarrow> (string \<times> string) list \<Rightarrow> exports \<Rightarrow> exports" where
  "class_exports prefix cls ms ex n =
     (case find (\<lambda>p. pair_name prefix p = n) (List.product kv_types kv_types) of
        Some (K, V) \<Rightarrow> Some \<lparr>ft_class = cls K V, ft_fields = 1, ft_methods = ms\<rparr>
      | None \<Rightarrow> ex n)"

lemma setup_classes:
  assumes "length prefix \<le> 32"
  shows "fold (\<lambda>(K, V) r. Option.bind r (setup_class prefix cls ms K V)) ps (Some ex) =
    Some (\<lambda>n. case find (\<lambda>p. pair_name prefix p = n) (rev ps) of
      Some (K, V) \<Rightarrow> Some \<lparr>ft_class = cls K V, ft_fields = 1, ft_methods = ms\<rparr> | None \<Rightarrow> ex n)"
proof (induction ps rule: rev_induct)
  case (snoc p ps)
  obtain K V where p: "p = (K, V)" by (cases p)
  show ?case using snoc class_name_fits [OF assms, of K V]
    by (auto simp: p setup_class_def set_export_def fun_eq_iff)
qed simp

lemma find_SomeD: "find P xs = Some x \<Longrightarrow> x \<in> set xs \<and> P x"
  by (auto simp: find_Some_iff)

lemma find_rev: "(\<And>x y. x \<in> set xs \<Longrightarrow> y \<in> set xs \<Longrightarrow> P x \<Longrightarrow> P y \<Longrightarrow> x = y) \<Longrightarrow> find P (rev xs) = find P xs"
proof -
  assume u: "\<And>x y. x \<in> set xs \<Longrightarrow> y \<in> set xs \<Longrightarrow> P x \<Longrightarrow> P y \<Longrightarrow> x = y"
  show ?thesis
  proof (cases "find P xs")
    case None
    then have "find P (rev xs) = None" unfolding find_None_iff by simp
    then show ?thesis using None by simp
  next
    case (Some x)
    then have x: "x \<in> set xs" "P x" using find_SomeD by fast+
    then obtain y where y: "find P (rev xs) = Some y" by (cases "find P (rev xs)") (auto simp: find_None_iff)
    then have "y \<in> set xs" "P y" using find_SomeD by fastforce+
    then show ?thesis using u x y Some by simp
  qed
qed

lemma kv_type_each_classes:
  assumes "length prefix \<le> 32"
  shows "kv_type_each (setup_class prefix cls ms) ex = Some (class_exports prefix cls ms ex)"
proof -
  have "find (\<lambda>p. pair_name prefix p = n) (rev (List.product kv_types kv_types)) = find (\<lambda>p. pair_name prefix p = n) (List.product kv_types kv_types)" for n
    by (rule find_rev) (metis pair_name_inj)
  then show ?thesis unfolding kv_type_each_def setup_classes [OF assms] by (simp add: class_exports_def [abs_def])
qed

lemma class_exports_pair: "class_exports prefix cls ms ex (pair_name prefix (K, V)) = Some \<lparr>ft_class = cls K V, ft_fields = 1, ft_methods = ms\<rparr>"
proof -
  have "find (\<lambda>p. pair_name prefix p = pair_name prefix (K, V)) (List.product kv_types kv_types) \<noteq> None"
    using kv_types_all by (auto simp: find_None_iff)
  then obtain p where "find (\<lambda>p. pair_name prefix p = pair_name prefix (K, V)) (List.product kv_types kv_types) = Some p" by blast
  moreover from find_SomeD [OF this] have "p = (K, V)" by (metis pair_name_inj)
  ultimately show ?thesis by (simp add: class_exports_def)
qed

text \<open>A name of the form that is looked up has a class only if it is the name of a pair.\<close>

lemma class_exports_Some:
  assumes "class_exports prefix cls ms ex n = Some t" and "ex n = None"
  shows "\<exists>K V. n = pair_name prefix (K, V)"
  using assms by (auto simp: class_exports_def split: option.splits dest!: find_SomeD)

lemma class_exports_other: "\<forall>K V. n \<noteq> pair_name prefix (K, V) \<Longrightarrow> class_exports prefix cls ms ex n = ex n"
  by (auto simp: class_exports_def split: option.splits dest!: find_SomeD)

text \<open>Database and cursor classes over other exports, as all three engines have them.\<close>

definition engine_exports :: "(string \<times> string) list \<Rightarrow> (string \<times> string) list \<Rightarrow> exports \<Rightarrow> exports" where
  "engine_exports dms cms ex = class_exports ''Cursor_'' CursorClass cms (class_exports ''DB_'' DbClass dms ex)"

lemma engine_lookup:
  assumes "\<And>n. CHR ''_'' \<in> set n \<Longrightarrow> ex n = None"
  shows "engine_exports dms cms ex (''DB'' @ ''_'' @ kt @ ''_'' @ vt) = Some t \<longleftrightarrow>
      (\<exists>K V. kt = type_name K \<and> vt = type_name V \<and> t = \<lparr>ft_class = DbClass K V, ft_fields = 1, ft_methods = dms\<rparr>)"
    and "engine_exports dms cms ex (''Cursor'' @ ''_'' @ kt @ ''_'' @ vt) = Some t \<longleftrightarrow>
      (\<exists>K V. kt = type_name K \<and> vt = type_name V \<and> t = \<lparr>ft_class = CursorClass K V, ft_fields = 1, ft_methods = cms\<rparr>)"
proof -
  have split: "prefix @ kt @ ''_'' @ vt = pair_name prefix (K, V) \<longleftrightarrow> kt = type_name K \<and> vt = type_name V" for prefix K V
    using split_unique [of kt "CHR ''_''" vt "type_name K" "type_name V"] type_name_letters by (auto simp: pair_name_def)
  have other: "''DB_'' @ x \<noteq> pair_name ''Cursor_'' p" "''Cursor_'' @ x \<noteq> pair_name ''DB_'' p" for x p by (simp_all add: pair_name_def)
  have none: "ex (''DB_'' @ x) = None" "ex (''Cursor_'' @ x) = None" for x by (rule assms, simp)+
  note pair = class_exports_pair and some = class_exports_Some
  have "engine_exports dms cms ex (''DB_'' @ kt @ ''_'' @ vt) = class_exports ''DB_'' DbClass dms ex (''DB_'' @ kt @ ''_'' @ vt)"
    unfolding engine_exports_def by (rule class_exports_other) (simp add: pair_name_def)
  moreover have "class_exports ''DB_'' DbClass dms ex (''DB_'' @ kt @ ''_'' @ vt) = Some t \<longleftrightarrow>
      (\<exists>K V. kt = type_name K \<and> vt = type_name V \<and> t = \<lparr>ft_class = DbClass K V, ft_fields = 1, ft_methods = dms\<rparr>)"
    using pair [of "''DB_''"] some [of "''DB_''" DbClass dms ex _ t, OF _ none(1)] split [of "''DB_''"] by (metis option.inject)
  ultimately show "engine_exports dms cms ex (''DB'' @ ''_'' @ kt @ ''_'' @ vt) = Some t \<longleftrightarrow>
      (\<exists>K V. kt = type_name K \<and> vt = type_name V \<and> t = \<lparr>ft_class = DbClass K V, ft_fields = 1, ft_methods = dms\<rparr>)" by simp
  have "class_exports ''DB_'' DbClass dms ex (''Cursor_'' @ x) = None" for x
    using class_exports_other [of "''Cursor_'' @ x" "''DB_''" DbClass dms ex] other none by simp
  then have "engine_exports dms cms ex (''Cursor_'' @ kt @ ''_'' @ vt) = Some t \<longleftrightarrow>
      (\<exists>K V. kt = type_name K \<and> vt = type_name V \<and> t = \<lparr>ft_class = CursorClass K V, ft_fields = 1, ft_methods = cms\<rparr>)"
    unfolding engine_exports_def
    using pair [of "''Cursor_''"] some [of "''Cursor_''" CursorClass cms _ _ t] split [of "''Cursor_''"] by (metis option.inject)
  then show "engine_exports dms cms ex (''Cursor'' @ ''_'' @ kt @ ''_'' @ vt) = Some t \<longleftrightarrow>
      (\<exists>K V. kt = type_name K \<and> vt = type_name V \<and> t = \<lparr>ft_class = CursorClass K V, ft_fields = 1, ft_methods = cms\<rparr>)" by simp
qed

lemma v8export_eq:
  "lmdb_v8export = Some (engine_exports lmdb_db_methods lmdb_cursor_methods (lmdb_txn_setup (lmdb_env_setup Map.empty)))"
  "lvl_v8export = Some (lvl_batch_setup (engine_exports lvl_db_methods lvl_cursor_methods Map.empty))"
  "rocks_v8export = Some (rocks_batch_setup (engine_exports rocks_db_methods rocks_cursor_methods (rocks_env_setup Map.empty)))"
  by (simp_all add: lmdb_v8export_def lvl_v8export_def rocks_v8export_def lmdb_db_setup_def lmdb_cursor_setup_def lvl_db_setup_def lvl_cursor_setup_def
      rocks_db_setup_def rocks_cursor_setup_def kv_type_each_classes engine_exports_def)

lemma methods_found:
  "set (js_db_methods ''lmdb'') \<subseteq> fst ` set lmdb_db_methods" "set (js_db_methods ''leveldb'') \<subseteq> fst ` set lvl_db_methods"
  "set (js_db_methods ''rocksdb'') \<subseteq> fst ` set rocks_db_methods"
  "set (js_cursor_methods ''lmdb'') - fst ` set lmdb_cursor_methods = {''firstDup'', ''lastDup''}"
  "set (js_cursor_methods ''leveldb'') - fst ` set lvl_cursor_methods = {}" "set (js_cursor_methods ''rocksdb'') - fst ` set rocks_cursor_methods = {}"
  by code_simp+

lemma lookup_typed:
  assumes "map_of addon_init engine = Some (Some ex')" and "\<And>n. CHR ''_'' \<in> set n \<Longrightarrow> ex' n = engine_exports dms cms ex n"
    and "\<And>n. CHR ''_'' \<in> set n \<Longrightarrow> ex n = None"
  shows "js_lookup engine ''DB'' kt vt = Some t \<longleftrightarrow>
      (\<exists>K V. kt = type_name K \<and> vt = type_name V \<and> t = \<lparr>ft_class = DbClass K V, ft_fields = 1, ft_methods = dms\<rparr>)"
    and "js_lookup engine ''Cursor'' kt vt = Some t \<longleftrightarrow>
      (\<exists>K V. kt = type_name K \<and> vt = type_name V \<and> t = \<lparr>ft_class = CursorClass K V, ft_fields = 1, ft_methods = cms\<rparr>)"
  using engine_lookup [where ex = ex, OF assms(3)] assms(1,2) by (simp_all add: js_lookup_def)

text \<open>The lookups of one engine, for its methods.\<close>

definition engine_typed :: "string \<Rightarrow> bool" where
  "engine_typed engine \<longleftrightarrow> (\<exists>dms cms.
     (\<forall>kt vt t. js_lookup engine ''DB'' kt vt = Some t \<longleftrightarrow>
        (\<exists>K V. kt = type_name K \<and> vt = type_name V \<and> t = \<lparr>ft_class = DbClass K V, ft_fields = 1, ft_methods = dms\<rparr>)) \<and>
     (\<forall>kt vt t. js_lookup engine ''Cursor'' kt vt = Some t \<longleftrightarrow>
        (\<exists>K V. kt = type_name K \<and> vt = type_name V \<and> t = \<lparr>ft_class = CursorClass K V, ft_fields = 1, ft_methods = cms\<rparr>)) \<and>
     set (js_db_methods engine) \<subseteq> fst ` set dms \<and>
     set (js_cursor_methods engine) - fst ` set cms = (if engine = ''lmdb'' then {''firstDup'', ''lastDup''} else {}))"

lemma engine_typedI:
  assumes "map_of addon_init engine = Some (Some ex')" and "\<And>n. CHR ''_'' \<in> set n \<Longrightarrow> ex' n = engine_exports dms cms ex n"
    and "\<And>n. CHR ''_'' \<in> set n \<Longrightarrow> ex n = None" and "set (js_db_methods engine) \<subseteq> fst ` set dms"
    and "set (js_cursor_methods engine) - fst ` set cms = (if engine = ''lmdb'' then {''firstDup'', ''lastDup''} else {})"
  shows "engine_typed engine"
  unfolding engine_typed_def using lookup_typed [OF assms(1-3)] assms(4,5) by (intro exI [of _ dms] exI [of _ cms]) simp

lemma engines_typed: "engine_typed ''lmdb''" "engine_typed ''leveldb''" "engine_typed ''rocksdb''"
proof -
  have none: "lmdb_txn_setup (lmdb_env_setup Map.empty) n = None" "rocks_env_setup Map.empty n = None" if "CHR ''_'' \<in> set n" for n
    using that by (auto simp: lmdb_txn_setup_def lmdb_env_setup_def rocks_env_setup_def set_export_def)
  have batch: "lvl_batch_setup ex n = ex n" "rocks_batch_setup ex n = ex n" if "CHR ''_'' \<in> set n" for n and ex :: exports
    using that by (auto simp: lvl_batch_setup_def rocks_batch_setup_def set_export_def)
  have m: "map_of addon_init ''lmdb'' = Some lmdb_v8export" "map_of addon_init ''leveldb'' = Some lvl_v8export"
    "map_of addon_init ''rocksdb'' = Some rocks_v8export" by (simp_all add: addon_init_def)
  show "engine_typed ''lmdb''"
    by (rule engine_typedI [OF m(1) [unfolded v8export_eq] refl none(1)]) (use methods_found in simp_all)
  show "engine_typed ''leveldb''"
    by (rule engine_typedI [OF m(2) [unfolded v8export_eq] batch(1)]) (use methods_found in simp_all)
  show "engine_typed ''rocksdb''"
    by (rule engine_typedI [OF m(3) [unfolded v8export_eq] batch(2) none(2)]) (use methods_found in simp_all)
qed

section \<open>Properties\<close>

text \<open>C40.  The types of the JavaScript options decide the C++ types: for each engine and any two strings as key and value type, the
  lookup of a database or cursor class finds one exactly if both strings are names of supported types, and then it is the instance of the
  class template for these two types; the names fit their buffers.  The class has all the methods that the JavaScript layer calls, except that
  LMDB cursors have no \<^verbatim>\<open>firstDup\<close> and no \<^verbatim>\<open>lastDup\<close>.\<close>

theorem exports_typed:
  assumes "engine \<in> {''lmdb'', ''leveldb'', ''rocksdb''}"
  shows "((\<exists>t. js_lookup engine ''DB'' kt vt = Some t) \<longleftrightarrow> (\<exists>K V. kt = type_name K \<and> vt = type_name V)) \<and>
    ((\<exists>t. js_lookup engine ''Cursor'' kt vt = Some t) \<longleftrightarrow> (\<exists>K V. kt = type_name K \<and> vt = type_name V)) \<and>
    (\<exists>t. js_lookup engine ''DB'' (type_name K) (type_name V) = Some t \<and> ft_class t = DbClass K V \<and> ft_fields t = 1 \<and>
      set (js_db_methods engine) \<subseteq> fst ` set (ft_methods t)) \<and>
    (\<exists>t. js_lookup engine ''Cursor'' (type_name K) (type_name V) = Some t \<and> ft_class t = CursorClass K V \<and> ft_fields t = 1 \<and>
      set (js_cursor_methods engine) - fst ` set (ft_methods t) = (if engine = ''lmdb'' then {''firstDup'', ''lastDup''} else {}))"
proof -
  have "engine_typed engine" using assms engines_typed by blast
  then obtain dms cms where
    db: "\<And>kt vt t. js_lookup engine ''DB'' kt vt = Some t \<longleftrightarrow>
        (\<exists>K V. kt = type_name K \<and> vt = type_name V \<and> t = \<lparr>ft_class = DbClass K V, ft_fields = 1, ft_methods = dms\<rparr>)" and
    cu: "\<And>kt vt t. js_lookup engine ''Cursor'' kt vt = Some t \<longleftrightarrow>
        (\<exists>K V. kt = type_name K \<and> vt = type_name V \<and> t = \<lparr>ft_class = CursorClass K V, ft_fields = 1, ft_methods = cms\<rparr>)" and
    ms: "set (js_db_methods engine) \<subseteq> fst ` set dms"
      "set (js_cursor_methods engine) - fst ` set cms = (if engine = ''lmdb'' then {''firstDup'', ''lastDup''} else {})"
    unfolding engine_typed_def by (elim exE conjE) (rule that; simp)
  have t: "js_lookup engine ''DB'' (type_name K) (type_name V) = Some \<lparr>ft_class = DbClass K V, ft_fields = 1, ft_methods = dms\<rparr>"
    "js_lookup engine ''Cursor'' (type_name K) (type_name V) = Some \<lparr>ft_class = CursorClass K V, ft_fields = 1, ft_methods = cms\<rparr>"
    unfolding db cu by blast+
  show ?thesis
  proof (intro conjI)
    show "(\<exists>t. js_lookup engine ''DB'' kt vt = Some t) \<longleftrightarrow> (\<exists>K V. kt = type_name K \<and> vt = type_name V)" using db by blast
    show "(\<exists>t. js_lookup engine ''Cursor'' kt vt = Some t) \<longleftrightarrow> (\<exists>K V. kt = type_name K \<and> vt = type_name V)" using cu by blast
  qed (use t ms in simp_all)
qed

theorem exports_typed_witness:
  "(\<exists>t. js_lookup ''lmdb'' ''DB'' ''int32'' ''hex'' = Some t \<and> ft_class t = DbClass (Number Int32) Hex) \<and>
    js_lookup ''lmdb'' ''DB'' ''number'' ''hex'' = None"
proof -
  have n: "\<nexists>K. ''number'' = type_name K"
  proof
    assume "\<exists>K. ''number'' = type_name K"
    then obtain K where "''number'' = type_name K" ..
    then show False by (cases K rule: type_name.cases) simp_all
  qed
  show ?thesis
    using exports_typed [of "''lmdb''" "''number''" "''hex''" "Number Int32" Hex] n by auto
qed

end
