(* ===== verification/Spec2Isabelle.thy ===== *)
theory Spec2Isabelle
  imports Lmdb_Store Rocks_Bind Kv_Exports
begin

text \<open>
  A verification of \<^verbatim>\<open>node-kv\<close>, a Node.js binding of three key-value
  engines.
\<close>

end
